(* ===== verification/Prelude.thy ===== *)
theory Prelude
  imports Main "HOL-Library.AList" "HOL-Library.Char_ord" "HOL-Library.List_Lexorder"
    "HOL-Library.Word" "HOL-Library.Multiset"
begin

text \<open>
  Shared vocabulary of the development: Go strings as byte lists with the parts of the
  packages \<open>strings\<close>, \<open>strconv\<close> and \<open>net\<close> that the sources call, Go maps as association
  lists behind a map contract, buffered channels behind a queue contract, and transition
  systems with invariants.

  A Go \<open>string\<close> or \<open>[]byte\<close> is a list of bytes, and an Isabelle \<^typ>\<open>char\<close> is a byte.  The
  Unicode tables of the standard library are the record \<open>go_unicode\<close>: its fields stand for
  the slow paths that \<open>strings.ToLower\<close>, \<open>strings.TrimSpace\<close> and \<open>strings.EqualFold\<close> take
  once they meet a byte above 127.  No property assumes anything about them.
\<close>

named_theorems go_string \<open>facts on Go string primitives\<close>
named_theorems go_map \<open>facts on Go maps as association lists\<close>
named_theorems go_chan \<open>facts on buffered channels\<close>

subsection \<open>Bytes and strings\<close>

type_synonym bytes = string

record go_unicode =
  u_lower :: "string \<Rightarrow> string"
  u_trim :: "string \<Rightarrow> string"
  u_trim_right :: "string \<Rightarrow> string"
  u_fold :: "string \<Rightarrow> string \<Rightarrow> bool"

definition no_tables :: go_unicode where
  "no_tables = \<lparr>u_lower = id, u_trim = id, u_trim_right = id, u_fold = (=)\<rparr>"

definition byte_val :: "char \<Rightarrow> nat" where
  "byte_val c = of_char c"

definition ascii :: "char \<Rightarrow> bool" where
  "ascii c \<longleftrightarrow> byte_val c < 128"

definition lower_byte :: "char \<Rightarrow> char" where
  "lower_byte c = (if 65 \<le> byte_val c \<and> byte_val c \<le> 90 then char_of (byte_val c + 32) else c)"

definition ascii_space :: "char \<Rightarrow> bool" where
  "ascii_space c \<longleftrightarrow> byte_val c \<in> {9, 10, 11, 12, 13, 32}"

definition to_lower :: "go_unicode \<Rightarrow> string \<Rightarrow> string" where
  "to_lower U s = (if list_all ascii s then map lower_byte s else u_lower U s)"

definition trim_space :: "go_unicode \<Rightarrow> string \<Rightarrow> string" where
  "trim_space U s =
     (let s1 = dropWhile ascii_space s in
      case s1 of
        [] \<Rightarrow> []
      | c # _ \<Rightarrow>
          if \<not> ascii c then u_trim U s1
          else (let s2 = rev (dropWhile ascii_space (rev s1)) in
                if \<not> ascii (last s2) then u_trim_right U s2 else s2))"

fun equal_fold :: "go_unicode \<Rightarrow> string \<Rightarrow> string \<Rightarrow> bool" where
  "equal_fold U [] [] = True"
| "equal_fold U [] (b # t) = False"
| "equal_fold U (a # s) [] = False"
| "equal_fold U (a # s) (b # t) =
     (if \<not> ascii a \<or> \<not> ascii b then u_fold U (a # s) (b # t)
      else if lower_byte a = lower_byte b then equal_fold U s t else False)"

fun index_byte :: "char \<Rightarrow> string \<Rightarrow> nat option" where
  "index_byte c [] = None"
| "index_byte c (x # xs) = (if x = c then Some 0 else map_option Suc (index_byte c xs))"

fun last_index_byte :: "char \<Rightarrow> string \<Rightarrow> nat option" where
  "last_index_byte c [] = None"
| "last_index_byte c (x # xs) =
     (case last_index_byte c xs of
        Some i \<Rightarrow> Some (Suc i)
      | None \<Rightarrow> if x = c then Some 0 else None)"

fun split_byte :: "char \<Rightarrow> string \<Rightarrow> string list" where
  "split_byte c [] = [[]]"
| "split_byte c (x # xs) =
     (if x = c then [] # split_byte c xs
      else (case split_byte c xs of [] \<Rightarrow> [[x]] | y # ys \<Rightarrow> (x # y) # ys))"

fun join_byte :: "char \<Rightarrow> string list \<Rightarrow> string" where
  "join_byte c [] = []"
| "join_byte c [s] = s"
| "join_byte c (s # t # ts) = s @ c # join_byte c (t # ts)"

definition cut_byte :: "char \<Rightarrow> string \<Rightarrow> (string \<times> string) option" where
  "cut_byte c s = map_option (\<lambda>i. (take i s, drop (Suc i) s)) (index_byte c s)"

fun has_prefix :: "string \<Rightarrow> string \<Rightarrow> bool" where
  "has_prefix s [] = True"
| "has_prefix [] (p # ps) = False"
| "has_prefix (x # xs) (p # ps) = (x = p \<and> has_prefix xs ps)"

definition trim_suffix_byte :: "char \<Rightarrow> string \<Rightarrow> string" where
  "trim_suffix_byte c s = (if s \<noteq> [] \<and> last s = c then butlast s else s)"

subsection \<open>Decimal numerals (\<open>strconv\<close>)\<close>

definition digit_char :: "nat \<Rightarrow> char" where
  "digit_char n = char_of (48 + n)"

definition digit_val :: "char \<Rightarrow> nat option" where
  "digit_val c = (if 48 \<le> byte_val c \<and> byte_val c \<le> 57 then Some (byte_val c - 48) else None)"

fun format_uint :: "nat \<Rightarrow> string" where
  "format_uint n = (if n < 10 then [digit_char n] else format_uint (n div 10) @ [digit_char (n mod 10)])"

definition format_int :: "int \<Rightarrow> string" where
  "format_int n = (if n < 0 then CHR ''-'' # format_uint (nat (- n)) else format_uint (nat n))"

fun parse_digits :: "nat \<Rightarrow> string \<Rightarrow> nat option" where
  "parse_digits acc [] = Some acc"
| "parse_digits acc (c # cs) =
     (case digit_val c of None \<Rightarrow> None | Some d \<Rightarrow> parse_digits (10 * acc + d) cs)"

definition parse_uint :: "string \<Rightarrow> nat option" where
  "parse_uint s = (if s = [] then None else parse_digits 0 s)"

text \<open>\<open>strconv.Atoi\<close> on a 64-bit platform; syntax and range errors are both \<^term>\<open>None\<close>.\<close>

definition atoi :: "string \<Rightarrow> int option" where
  "atoi s =
     (case s of
        [] \<Rightarrow> None
      | c # cs \<Rightarrow>
          if c = CHR ''-'' then
            (case parse_uint cs of None \<Rightarrow> None | Some n \<Rightarrow> if n \<le> 2 ^ 63 then Some (- int n) else None)
          else
            (case parse_uint (if c = CHR ''+'' then cs else s) of
               None \<Rightarrow> None
             | Some n \<Rightarrow> if n < 2 ^ 63 then Some (int n) else None))"

subsection \<open>\<open>net.SplitHostPort\<close>\<close>

datatype addr_error = MissingPort | TooManyColons | MissingBracket | UnexpectedOpen | UnexpectedClose

definition split_host_port :: "string \<Rightarrow> addr_error + (string \<times> string)" where
  "split_host_port hp =
     (case last_index_byte CHR '':'' hp of
        None \<Rightarrow> Inl MissingPort
      | Some i \<Rightarrow>
          let tail = (\<lambda>host j k.
            if index_byte CHR ''['' (drop j hp) \<noteq> None then Inl UnexpectedOpen
            else if index_byte CHR '']'' (drop k hp) \<noteq> None then Inl UnexpectedClose
            else Inr (host, drop (Suc i) hp))
          in
          if hd hp = CHR ''['' then
            (case index_byte CHR '']'' hp of
               None \<Rightarrow> Inl MissingBracket
             | Some e \<Rightarrow>
                 if Suc e = length hp then Inl MissingPort
                 else if Suc e = i then tail (take (e - 1) (drop 1 hp)) 1 (Suc e)
                 else if hp ! Suc e = CHR '':'' then Inl TooManyColons
                 else Inl MissingPort)
          else if index_byte CHR '':'' (take i hp) \<noteq> None then Inl TooManyColons
          else tail (take i hp) 0 0)"

subsection \<open>Go maps\<close>

text \<open>
  A Go map is the association list of its entries in the order one \<open>range\<close> loop visits them;
  the language leaves that order open, so a property of such a loop is stated for every order.
\<close>

type_synonym ('k, 'v) gomap = "('k \<times> 'v) list"

definition map_get :: "('k, 'v) gomap \<Rightarrow> 'k \<Rightarrow> 'v option" where
  "map_get m k = map_of m k"

definition map_put :: "'k \<Rightarrow> 'v \<Rightarrow> ('k, 'v) gomap \<Rightarrow> ('k, 'v) gomap" where
  "map_put k v m = AList.update k v m"

definition map_del :: "'k \<Rightarrow> ('k, 'v) gomap \<Rightarrow> ('k, 'v) gomap" where
  "map_del k m = AList.delete k m"

definition map_len :: "('k, 'v) gomap \<Rightarrow> nat" where
  "map_len m = length m"

definition map_wf :: "('k, 'v) gomap \<Rightarrow> bool" where
  "map_wf m \<longleftrightarrow> distinct (map fst m)"

subsection \<open>Buffered channels\<close>

record 'a chan =
  ch_buf :: "'a list"
  ch_cap :: nat

definition chan_make :: "nat \<Rightarrow> 'a chan" where
  "chan_make n = \<lparr>ch_buf = [], ch_cap = n\<rparr>"

definition chan_send_ready :: "'a chan \<Rightarrow> bool" where
  "chan_send_ready c \<longleftrightarrow> length (ch_buf c) < ch_cap c"

definition chan_send :: "'a \<Rightarrow> 'a chan \<Rightarrow> 'a chan" where
  "chan_send x c = c\<lparr>ch_buf := ch_buf c @ [x]\<rparr>"

definition chan_recv :: "'a chan \<Rightarrow> ('a \<times> 'a chan) option" where
  "chan_recv c = (case ch_buf c of [] \<Rightarrow> None | x # xs \<Rightarrow> Some (x, c\<lparr>ch_buf := xs\<rparr>))"

definition chan_wf :: "'a chan \<Rightarrow> bool" where
  "chan_wf c \<longleftrightarrow> length (ch_buf c) \<le> ch_cap c"

text \<open>A property of the elements of a list with distinct keys, after one element was replaced.\<close>

lemma ball_list_update:
  assumes "distinct (map k xs)" "i < length xs" "\<forall>x \<in> set xs. k x \<noteq> k (xs ! i) \<longrightarrow> P x" "P y" "x \<in> set (xs[i := y])"
  shows "P x"
proof -
  from assms(5) obtain j where j: "j < length xs" "x = xs[i := y] ! j" by (metis in_set_conv_nth length_list_update)
  show ?thesis
  proof (cases "j = i")
    case False
    then have "x = xs ! j" using j by simp
    moreover have "k (xs ! j) \<noteq> k (xs ! i)" using assms(1,2) False j(1) by (metis length_map nth_eq_iff_index_eq nth_map)
    ultimately show ?thesis using assms(3) j(1) by simp
  qed (use assms j in simp)
qed

subsection \<open>Transition systems\<close>

inductive reachable :: "('s \<Rightarrow> bool) \<Rightarrow> ('s \<Rightarrow> 's \<Rightarrow> bool) \<Rightarrow> 's \<Rightarrow> bool"
  for init :: "'s \<Rightarrow> bool" and step :: "'s \<Rightarrow> 's \<Rightarrow> bool" where
  reach_init: "init s \<Longrightarrow> reachable init step s"
| reach_step: "reachable init step s \<Longrightarrow> step s t \<Longrightarrow> reachable init step t"

text \<open>
  An invariant is proved once per system by interpreting \<open>invariant_system\<close>; a system whose
  runs must end interprets \<open>terminating_system\<close>, which adds a measure and progress.
\<close>

locale invariant_system =
  fixes init :: "'s \<Rightarrow> bool" and step :: "'s \<Rightarrow> 's \<Rightarrow> bool" and inv :: "'s \<Rightarrow> bool"
  assumes inv_init: "init s \<Longrightarrow> inv s"
    and inv_step: "inv s \<Longrightarrow> step s t \<Longrightarrow> inv t"
begin

lemma reachable_inv: "reachable init step s \<Longrightarrow> inv s"
  by (induction rule: reachable.induct) (auto intro: inv_init inv_step)

lemma steps_inv: "step\<^sup>*\<^sup>* s t \<Longrightarrow> inv s \<Longrightarrow> inv t"
  by (induction rule: rtranclp_induct) (auto intro: inv_step)

end

locale terminating_system = invariant_system init step inv
  for init :: "'s \<Rightarrow> bool" and step :: "'s \<Rightarrow> 's \<Rightarrow> bool" and inv :: "'s \<Rightarrow> bool" +
  fixes final :: "'s \<Rightarrow> bool" and weight :: "'s \<Rightarrow> nat"
  assumes progress: "inv s \<Longrightarrow> \<not> final s \<Longrightarrow> \<exists>t. step s t"
    and decrease: "inv s \<Longrightarrow> step s t \<Longrightarrow> weight t < weight s"
begin

lemma ends_final: "inv s \<Longrightarrow> \<exists>t. step\<^sup>*\<^sup>* s t \<and> final t"
proof (induction "weight s" arbitrary: s rule: less_induct)
  case less
  show ?case
  proof (cases "final s")
    case True
    then show ?thesis by blast
  next
    case False
    then obtain u where u: "step s u" using progress less.prems by blast
    then obtain t where "step\<^sup>*\<^sup>* u t" "final t"
      using less.hyps [of u] decrease inv_step less.prems by blast
    with u show ?thesis by (meson converse_rtranclp_into_rtranclp)
  qed
qed

lemma run_bound: "(step ^^ n) s t \<Longrightarrow> inv s \<Longrightarrow> weight t + n \<le> weight s"
proof (induction n arbitrary: t)
  case 0
  then show ?case by simp
next
  case (Suc n)
  then obtain u where u: "(step ^^ n) s u" "step u t" by auto
  then have "inv u" using Suc.prems(2) steps_inv by (blast dest: relpowp_imp_rtranclp)
  with u Suc.IH [OF u(1) Suc.prems(2)] decrease [OF _ u(2)] show ?case by simp
qed

lemma stuck_final: "inv s \<Longrightarrow> step\<^sup>*\<^sup>* s t \<Longrightarrow> \<not> (\<exists>u. step t u) \<Longrightarrow> final t"
  using progress steps_inv by blast

end

text \<open>
  A system that implements another one: each of its steps is a step of the specification or leaves
  the specification where it is.
\<close>

locale simulation = invariant_system init step inv
  for init :: "'s \<Rightarrow> bool" and step :: "'s \<Rightarrow> 's \<Rightarrow> bool" and inv :: "'s \<Rightarrow> bool" +
  fixes ainit :: "'a \<Rightarrow> bool" and astep :: "'a \<Rightarrow> 'a \<Rightarrow> bool" and abst :: "'s \<Rightarrow> 'a"
  assumes sim_init: "init s \<Longrightarrow> ainit (abst s)"
    and sim_step: "inv s \<Longrightarrow> step s t \<Longrightarrow> abst t = abst s \<or> astep (abst s) (abst t)"
begin

lemma simulated: "reachable init step s \<Longrightarrow> reachable ainit astep (abst s)"
proof (induction rule: reachable.induct)
  case (reach_init s)
  then show ?case by (intro reachable.reach_init sim_init)
next
  case (reach_step s t)
  then show ?case using sim_step [OF reachable_inv [OF reach_step.hyps(1)] reach_step.hyps(2)]
    by (metis reachable.reach_step)
qed

end

subsection \<open>Contract of a map and of a queue\<close>

locale map_contract =
  fixes mt :: 'm and get :: "'m \<Rightarrow> 'k \<Rightarrow> 'v option" and put :: "'k \<Rightarrow> 'v \<Rightarrow> 'm \<Rightarrow> 'm"
    and del :: "'k \<Rightarrow> 'm \<Rightarrow> 'm" and len :: "'m \<Rightarrow> nat" and wf :: "'m \<Rightarrow> bool"
  assumes wf_mt: "wf mt" and wf_put: "wf m \<Longrightarrow> wf (put k v m)" and wf_del: "wf m \<Longrightarrow> wf (del k m)"
    and get_mt: "get mt k = None"
    and get_put: "get (put k v m) k' = (if k' = k then Some v else get m k')"
    and get_del: "get (del k m) k' = (if k' = k then None else get m k')"
    and finite_get: "finite (dom (get m))"
    and len_get: "wf m \<Longrightarrow> len m = card (dom (get m))"
begin

lemma dom_put: "dom (get (put k v m)) = insert k (dom (get m))"
  by (auto simp: get_put split: if_splits)

lemma dom_del: "dom (get (del k m)) = dom (get m) - {k}"
  by (auto simp: get_del split: if_splits)

lemma len_put_new: "wf m \<Longrightarrow> get m k = None \<Longrightarrow> len (put k v m) = Suc (len m)"
  by (simp add: len_get wf_put dom_put card_insert_if finite_get domIff)

lemma len_put_old: "wf m \<Longrightarrow> get m k \<noteq> None \<Longrightarrow> len (put k v m) = len m"
  by (simp add: len_get wf_put dom_put insert_absorb domIff)

lemma len_del_old: "wf m \<Longrightarrow> get m k \<noteq> None \<Longrightarrow> Suc (len (del k m)) = len m"
  using card_Suc_Diff1 [of "dom (get m)" k] by (simp add: len_get wf_del dom_del finite_get domIff)

lemma len_del_new: "wf m \<Longrightarrow> get m k = None \<Longrightarrow> len (del k m) = len m"
  by (simp add: len_get wf_del dom_del domIff)

lemma len_mt: "len mt = 0"
  by (simp add: len_get wf_mt get_mt dom_def)

end

locale queue_contract =
  fixes content :: "'q \<Rightarrow> 'a list" and room :: "'q \<Rightarrow> bool" and enq :: "'a \<Rightarrow> 'q \<Rightarrow> 'q"
    and deq :: "'q \<Rightarrow> ('a \<times> 'q) option" and wf :: "'q \<Rightarrow> bool"
  assumes content_enq: "content (enq x q) = content q @ [x]"
    and deq_None: "deq q = None \<longleftrightarrow> content q = []"
    and deq_Some: "deq q = Some (x, q') \<Longrightarrow> content q = x # content q'"
    and wf_enq: "wf q \<Longrightarrow> room q \<Longrightarrow> wf (enq x q)"
    and wf_deq: "wf q \<Longrightarrow> deq q = Some (x, q') \<Longrightarrow> wf q'"
begin

lemma deq_hd: "content q = x # xs \<Longrightarrow> \<exists>q'. deq q = Some (x, q') \<and> content q' = xs"
  using deq_None [of q] deq_Some [of q] by (cases "deq q") auto

end

subsection \<open>Facts on lists up to order\<close>

lemma distinct_map_mset: "mset xs = mset ys \<Longrightarrow> distinct (map f xs) \<longleftrightarrow> distinct (map f ys)"
  by (metis mset_eq_imp_distinct_iff mset_map)

lemma mset_map_Some: "mset xs = mset (map Some ys) \<Longrightarrow> \<exists>zs. xs = map Some zs \<and> mset zs = mset ys"
proof -
  assume a: "mset xs = mset (map Some ys)"
  then have "set xs = Some ` set ys" by (metis mset_eq_setD set_map)
  then have "map Some (map the xs) = xs" by (auto intro!: map_idI simp: comp_def)
  moreover have "mset (map the xs) = mset (map the (map Some ys))" using a by (metis mset_map)
  then have "mset (map the xs) = mset ys" by (simp add: comp_def)
  ultimately show ?thesis by metis
qed

lemma sum_list_map_update:
  "i < length xs \<Longrightarrow> sum_list (map f (xs[i := y])) = sum_list (map f xs) - f (xs ! i) + (f y :: int)"
  by (induction xs arbitrary: i) (auto split: nat.splits)

text \<open>A position in a list of chunks with an end marker.\<close>

lemma chunks_split:
  assumes "hs @ f # zs = map g cs @ [e]"
  shows "(\<exists>ws c vs. hs = map g ws \<and> f = g c \<and> cs = ws @ c # vs \<and> zs = map g vs @ [e]) \<or>
     (hs = map g cs \<and> f = e \<and> zs = [])"
  using assms
proof (induction cs arbitrary: hs)
  case Nil
  then show ?case by (cases hs) auto
next
  case (Cons c cs)
  show ?case
  proof (cases hs)
    case Nil
    then show ?thesis using Cons.prems by (auto intro!: exI [of _ "[]"])
  next
    case (Cons h hs')
    then have h: "h = g c" and "hs' @ f # zs = map g cs @ [e]" using Cons.prems by auto
    from Cons.IH [OF this(2)] show ?thesis
    proof
      assume "\<exists>ws d vs. hs' = map g ws \<and> f = g d \<and> cs = ws @ d # vs \<and> zs = map g vs @ [e]"
      then obtain ws d vs where "hs' = map g ws" "f = g d" "cs = ws @ d # vs" "zs = map g vs @ [e]" by blast
      with h Cons show ?thesis by (intro disjI1 exI [of _ "c # ws"] exI [of _ d] exI [of _ vs]) simp
    qed (use h Cons in simp)
  qed
qed

subsection \<open>Facts on strings\<close>

lemma byte_val_bound: "byte_val c < 256"
  by (simp add: byte_val_def)

lemma byte_val_char_of: "n < 256 \<Longrightarrow> byte_val (char_of n) = n"
  by (simp add: byte_val_def)

lemma index_byte_None [go_string]: "index_byte c s = None \<longleftrightarrow> c \<notin> set s"
  by (induction s) auto

lemma last_index_byte_None [go_string]: "last_index_byte c s = None \<longleftrightarrow> c \<notin> set s"
  by (induction s) (auto split: option.splits)

lemma index_byte_append: "c \<notin> set s \<Longrightarrow> index_byte c (s @ c # t) = Some (length s)"
  by (induction s) auto

lemma cut_byte_append [go_string]: "c \<notin> set s \<Longrightarrow> cut_byte c (s @ c # t) = Some (s, t)"
  by (simp add: cut_byte_def index_byte_append)

lemma split_byte_neq_Nil [simp]: "split_byte c s \<noteq> []"
  by (induction s) (auto split: list.splits)

lemma split_byte_no_sep [go_string]: "c \<notin> set s \<Longrightarrow> split_byte c s = [s]"
  by (induction s) auto

lemma split_byte_append [go_string]:
  "c \<notin> set s \<Longrightarrow> split_byte c (s @ c # t) = s # split_byte c t"
  by (induction s) auto

lemma split_byte_join [go_string]:
  "ss \<noteq> [] \<Longrightarrow> \<forall>s \<in> set ss. c \<notin> set s \<Longrightarrow> split_byte c (join_byte c ss) = ss"
proof (induction ss rule: induct_list012)
  case (3 s t ts)
  then show ?case by (auto simp: go_string)
qed (auto simp: go_string)

lemma join_byte_ends:
  "ss \<noteq> [] \<Longrightarrow> hd ss \<noteq> [] \<Longrightarrow> join_byte c ss \<noteq> [] \<and> hd (join_byte c ss) = hd (hd ss)"
  "ss \<noteq> [] \<Longrightarrow> last ss \<noteq> [] \<Longrightarrow> join_byte c ss \<noteq> [] \<and> last (join_byte c ss) = last (last ss)"
  by (induction c ss rule: join_byte.induct) auto

lemma join_byte_bytes: "set (join_byte c ss) \<subseteq> insert c (\<Union>s \<in> set ss. set s)"
  by (induction c ss rule: join_byte.induct) auto

lemma split_byte_pieces: "p \<in> set (split_byte c s) \<Longrightarrow> c \<notin> set p"
  by (induction s arbitrary: p) (auto split: if_splits list.splits)

lemma split_byte_bytes: "(\<Union>p \<in> set (split_byte c s). set p) = set s - {c}"
proof (induction s)
  case (Cons a s)
  show ?case
  proof (cases "split_byte c s")
    case (Cons y ys)
    then have "set y \<union> (\<Union>p \<in> set ys. set p) = set s - {c}" using Cons.IH by simp
    then show ?thesis using Cons by auto
  qed (simp add: Cons.IH)
qed simp

lemma trim_space_clean:
  assumes "list_all ascii s" "s = [] \<or> \<not> ascii_space (hd s) \<and> \<not> ascii_space (last s)"
  shows "trim_space U s = s"
proof (cases s)
  case Nil
  then show ?thesis by (simp add: trim_space_def)
next
  case (Cons c cs)
  then have "rev s = last s # rev (butlast s)" by simp
  then have "dropWhile ascii_space (rev s) = rev s"
    using assms Cons by (metis dropWhile_eq_self_iff list.sel(1) list.distinct(1))
  moreover have "ascii (last s)"
    using assms(1) Cons by (metis last_in_set list.distinct(1) list_all_iff)
  ultimately show ?thesis using assms Cons by (simp add: trim_space_def Let_def)
qed

lemma to_lower_clean: "list_all ascii s \<Longrightarrow> list_all (\<lambda>c. lower_byte c = c) s \<Longrightarrow> to_lower U s = s"
  by (simp add: to_lower_def list_all_iff map_idI)

lemma split_host_port_no_colon: "CHR '':'' \<notin> set s \<Longrightarrow> split_host_port s = Inl MissingPort"
  using last_index_byte_None [of "CHR '':''" s] by (simp add: split_host_port_def)

lemma last_index_byte_append: "c \<notin> set t \<Longrightarrow> last_index_byte c (s @ c # t) = Some (length s)"
  using last_index_byte_None [of c t] by (induction s) auto

lemma split_host_port_plain:
  assumes "set h \<inter> {CHR '':'', CHR ''['', CHR '']''} = {}" "set p \<inter> {CHR '':'', CHR ''['', CHR '']''} = {}"
  shows "split_host_port (h @ CHR '':'' # p) = Inr (h, p)"
proof -
  have "hd (h @ CHR '':'' # p) \<noteq> CHR ''[''"
    using assms(1) by (cases h) auto
  moreover have "index_byte CHR '':'' h = None" "index_byte CHR ''['' (h @ CHR '':'' # p) = None"
    "index_byte CHR '']'' (h @ CHR '':'' # p) = None"
    using assms by (auto simp: index_byte_None)
  moreover have "last_index_byte CHR '':'' (h @ CHR '':'' # p) = Some (length h)"
    using assms(2) by (simp add: last_index_byte_append)
  ultimately show ?thesis by (simp add: split_host_port_def)
qed

lemma digit_val_char [simp]: "n < 10 \<Longrightarrow> digit_val (digit_char n) = Some n"
  by (simp add: digit_val_def digit_char_def byte_val_char_of)

declare format_uint.simps [simp del]

lemma parse_digits_append: "parse_digits a (s @ t) = Option.bind (parse_digits a s) (\<lambda>b. parse_digits b t)"
  by (induction s arbitrary: a) (auto split: option.splits)

lemma parse_format: "parse_digits 0 (format_uint n) = Some n"
proof (induction n rule: format_uint.induct)
  case (1 n)
  then show ?case
    by (cases "n < 10") (simp_all add: format_uint.simps [of n] parse_digits_append)
qed

lemma format_uint_inject [simp]: "format_uint m = format_uint n \<longleftrightarrow> m = n"
  by (metis option.inject parse_format)

subsection \<open>The association-list map and the list channel meet their contracts\<close>

interpretation gm: map_contract "[] :: ('k, 'v) gomap" map_get map_put map_del map_len map_wf
proof
  show "map_wf (map_put k v m)" if "map_wf m" for k v and m :: "('k, 'v) gomap"
    using that by (simp add: map_wf_def map_put_def distinct_update)
  show "map_wf (map_del k m)" if "map_wf m" for k and m :: "('k, 'v) gomap"
    using that by (simp add: map_wf_def map_del_def distinct_delete)
  show "map_len m = card (dom (map_get m))" if "map_wf m" for m :: "('k, 'v) gomap"
  proof -
    have "dom (map_get m) = set (map fst m)"
      by (simp add: map_get_def [abs_def] dom_map_of_conv_image_fst)
    moreover have "card (set (map fst m)) = length (map fst m)"
      using that unfolding map_wf_def by (rule distinct_card)
    ultimately show ?thesis by (simp add: map_len_def)
  qed
  show "finite (dom (map_get m))" for m :: "('k, 'v) gomap"
    by (simp add: map_get_def [abs_def] finite_dom_map_of)
qed (auto simp: map_wf_def map_get_def map_put_def map_del_def update_conv delete_conv)

lemmas [go_map] = gm.wf_mt gm.wf_put gm.wf_del gm.get_put gm.get_del gm.len_put_new gm.len_put_old
  gm.len_del_old gm.len_del_new

lemma map_get_Cons [go_map]: "map_get ((k, v) # m) k' = (if k' = k then Some v else map_get m k')"
  by (simp add: map_get_def)

lemma set_map_put: "set (map_put k v m) \<subseteq> insert (k, v) (set m)"
  by (induction m) (auto simp: map_put_def)

lemma set_map_del: "set (map_del k m) \<subseteq> set m"
  by (induction m) (auto simp: map_del_def AList.delete_simps split: if_splits)

interpretation fifo: queue_contract ch_buf chan_send_ready chan_send chan_recv chan_wf
  by unfold_locales
    (auto simp: chan_send_def chan_recv_def chan_wf_def chan_send_ready_def split: list.splits)

end
