(* ===== verification/Tunnelpb.thy ===== *)
theory Tunnelpb
  imports Prelude
begin

text \<open>
  The messages of \<open>proto/tunnel.proto\<close> as the Go structs of \<open>gen/tunnelpb/tunnel.pb.go\<close>: one
  record per message, one datatype constructor per alternative of a \<open>oneof\<close>.  A frame whose
  \<open>oneof\<close> is unset is \<^term>\<open>None\<close>, and a repeated message field is a list of optional messages,
  since the Go field is a slice of pointers.  An \<open>int32\<close> or \<open>int64\<close> field keeps its width.
\<close>

record Header =
  Header_Key :: string
  Header_Values :: "string list"

record Register =
  Register_TunnelId :: string
  Register_Token :: string

record Ping =
  Ping_UnixNano :: "64 word"

record Pong =
  Pong_UnixNano :: "64 word"

record RequestStart =
  RequestStart_RequestId :: string
  RequestStart_Method :: string
  RequestStart_Scheme :: string
  RequestStart_Host :: string
  RequestStart_Path :: string
  RequestStart_RawQuery :: string
  RequestStart_Headers :: "Header option list"
  RequestStart_RemoteAddr :: string
  RequestStart_RawPath :: string

record RequestBody =
  RequestBody_RequestId :: string
  RequestBody_Chunk :: bytes

record RequestEnd =
  RequestEnd_RequestId :: string

record CancelRequest =
  CancelRequest_RequestId :: string

record WebSocketData =
  WebSocketData_RequestId :: string
  WebSocketData_Payload :: bytes

record WebSocketClose =
  WebSocketClose_RequestId :: string

record ResponseStart =
  ResponseStart_RequestId :: string
  ResponseStart_StatusCode :: "32 word"
  ResponseStart_Headers :: "Header option list"

record ResponseBody =
  ResponseBody_RequestId :: string
  ResponseBody_Chunk :: bytes

record ResponseEnd =
  ResponseEnd_RequestId :: string

record ResponseError =
  ResponseError_RequestId :: string
  ResponseError_Message :: string

datatype ClientFrame_Msg =
    ClientFrame_Register Register
  | ClientFrame_Pong Pong
  | ClientFrame_ResponseStart ResponseStart
  | ClientFrame_ResponseBody ResponseBody
  | ClientFrame_ResponseEnd ResponseEnd
  | ClientFrame_ResponseError ResponseError
  | ClientFrame_WsData WebSocketData
  | ClientFrame_WsClose WebSocketClose

datatype ServerFrame_Msg =
    ServerFrame_RequestStart RequestStart
  | ServerFrame_RequestBody RequestBody
  | ServerFrame_RequestEnd RequestEnd
  | ServerFrame_CancelRequest CancelRequest
  | ServerFrame_Ping Ping
  | ServerFrame_WsData WebSocketData
  | ServerFrame_WsClose WebSocketClose

type_synonym ClientFrame = "ClientFrame_Msg option"
type_synonym ServerFrame = "ServerFrame_Msg option"

definition GetRegister :: "ClientFrame \<Rightarrow> Register option" where
  "GetRegister f = (case f of Some (ClientFrame_Register r) \<Rightarrow> Some r | _ \<Rightarrow> None)"

definition response_body :: "string \<Rightarrow> bytes \<Rightarrow> ClientFrame_Msg" where
  "response_body rid c = ClientFrame_ResponseBody \<lparr>ResponseBody_RequestId = rid, ResponseBody_Chunk = c\<rparr>"

definition response_end :: "string \<Rightarrow> ClientFrame_Msg" where
  "response_end rid = ClientFrame_ResponseEnd \<lparr>ResponseEnd_RequestId = rid\<rparr>"

text \<open>A complete response: status and headers, the body in chunks, the end.\<close>

definition response_frames :: "string \<Rightarrow> ResponseStart \<Rightarrow> bytes list \<Rightarrow> ClientFrame_Msg list" where
  "response_frames rid st cs =
     ClientFrame_ResponseStart st # map (response_body rid) cs @ [response_end rid]"


subsection \<open>The frames of a complete response\<close>

lemma frame_distinct [simp]:
  "response_body rid c \<noteq> ClientFrame_ResponseStart st" "ClientFrame_ResponseStart st \<noteq> response_body rid c"
  "response_body rid c \<noteq> response_end rid" "response_end rid \<noteq> response_body rid c"
  "response_end rid \<noteq> ClientFrame_ResponseStart st" "ClientFrame_ResponseStart st \<noteq> response_end rid"
  "response_body rid c = response_body rid d \<longleftrightarrow> c = d"
  by (auto simp: response_body_def response_end_def)

lemma map_response_body_eq [simp]:
  "map (response_body rid) cs = map (response_body rid) ds \<longleftrightarrow> cs = ds"
  by (rule inj_map_eq_map) (simp add: inj_on_def)

lemma bodies_no_end [simp]:
  "map (response_body rid) cs @ [response_end rid] \<noteq> map (response_body rid) ws"
proof
  assume "map (response_body rid) cs @ [response_end rid] = map (response_body rid) ws"
  then have "response_end rid \<in> set (map (response_body rid) ws)" by (metis in_set_conv_decomp)
  then show False by auto
qed

lemmas bodies_no_end_sym [simp] = bodies_no_end [THEN not_sym]

lemma bodies_split:
  "hs @ f # zs = map (response_body rid) cs @ [response_end rid] \<Longrightarrow>
     (\<exists>ws c vs. hs = map (response_body rid) ws \<and> f = response_body rid c \<and> cs = ws @ c # vs \<and>
        zs = map (response_body rid) vs @ [response_end rid]) \<or>
     (hs = map (response_body rid) cs \<and> f = response_end rid \<and> zs = [])"
  by (rule chunks_split)

lemma frames_split:
  assumes "hs @ f # zs = response_frames rid st cs"
  obtains (start) "hs = []" "f = ClientFrame_ResponseStart st"
      "zs = map (response_body rid) cs @ [response_end rid]"
    | (body) ws c vs where "hs = ClientFrame_ResponseStart st # map (response_body rid) ws"
      "f = response_body rid c" "cs = ws @ c # vs" "zs = map (response_body rid) vs @ [response_end rid]"
    | (fin) "hs = ClientFrame_ResponseStart st # map (response_body rid) cs" "f = response_end rid" "zs = []"
proof (cases hs)
  case Nil
  then show thesis using assms start by (simp add: response_frames_def)
next
  case (Cons h hs')
  then have h: "h = ClientFrame_ResponseStart st"
    and "hs' @ f # zs = map (response_body rid) cs @ [response_end rid]"
    using assms by (simp_all add: response_frames_def)
  from bodies_split [OF this(2)] show thesis using h Cons body fin by auto
qed

lemma frames_prefix:
  assumes "(ClientFrame_ResponseStart st # map (response_body rid) ws) @ zs = response_frames rid st cs"
  shows "\<exists>vs. cs = ws @ vs"
proof (cases zs)
  case Nil
  with assms show ?thesis by (simp add: response_frames_def)
next
  case (Cons f zs')
  with assms have "(ClientFrame_ResponseStart st # map (response_body rid) ws) @ f # zs' = response_frames rid st cs"
    by simp
  then show ?thesis by (cases rule: frames_split) auto
qed

end
