(* ===== verification/Hostnames.thy ===== *)
theory Hostnames
  imports Prelude
begin

text \<open>
  \<open>internal/hostnames/hostnames.go\<close>: normal form of hosts and labels, and their validation.
  An \<open>error\<close> result is an option whose \<^term>\<open>None\<close> is Go's \<open>nil\<close>; the constructors of the error
  types are the branches that build an error, with the values they format.
\<close>

datatype label_error = LabelEmpty | LabelTooLong string | LabelBadChar string char

datatype domain_error = DomainRequired | DomainTooFewLabels string | DomainBadLabel string label_error

definition NormalizeHost :: "go_unicode \<Rightarrow> string \<Rightarrow> string" where
  "NormalizeHost U host =
     (let host = trim_space U (to_lower U host);
          host = (case split_host_port host of Inr (parsedHost, _) \<Rightarrow> parsedHost | Inl _ \<Rightarrow> host)
      in trim_suffix_byte CHR ''.'' host)"

definition NormalizeDomain :: "go_unicode \<Rightarrow> string \<Rightarrow> string" where
  "NormalizeDomain U domain = NormalizeHost U domain"

definition NormalizeLabel :: "go_unicode \<Rightarrow> string \<Rightarrow> string" where
  "NormalizeLabel U label = trim_space U (to_lower U label)"

definition Subdomain :: "go_unicode \<Rightarrow> string \<Rightarrow> string \<Rightarrow> string" where
  "Subdomain U label domain = NormalizeHost U (label @ ''.'' @ domain)"

text \<open>
  The loop of \<open>ValidateLabel\<close>: the first byte that no case accepts.  A rune above 127 is never
  accepted, so scanning bytes rejects the same labels as scanning runes.
\<close>

fun label_scan :: "nat \<Rightarrow> nat \<Rightarrow> string \<Rightarrow> char option" where
  "label_scan n i [] = None"
| "label_scan n i (r # rs) =
     (if 97 \<le> byte_val r \<and> byte_val r \<le> 122 then label_scan n (Suc i) rs
      else if 48 \<le> byte_val r \<and> byte_val r \<le> 57 then label_scan n (Suc i) rs
      else if byte_val r = 45 \<and> i > 0 \<and> i < n - 1 then label_scan n (Suc i) rs
      else Some r)"

definition ValidateLabel :: "string \<Rightarrow> label_error option" where
  "ValidateLabel label =
     (if label = [] then Some LabelEmpty
      else if length label > 63 then Some (LabelTooLong label)
      else map_option (LabelBadChar label) (label_scan (length label) 0 label))"

fun first_label_error :: "string list \<Rightarrow> label_error option" where
  "first_label_error [] = None"
| "first_label_error (l # ls) =
     (case ValidateLabel l of Some e \<Rightarrow> Some e | None \<Rightarrow> first_label_error ls)"

definition ValidateDomain :: "go_unicode \<Rightarrow> string \<Rightarrow> domain_error option" where
  "ValidateDomain U domain =
     (let domain = NormalizeDomain U domain in
      if domain = [] then Some DomainRequired
      else let labels = split_byte CHR ''.'' domain in
        if length labels < 2 then Some (DomainTooFewLabels domain)
        else map_option (DomainBadLabel domain) (first_label_error labels))"

text \<open>Specification vocabulary: the letters a label may use, and a dotted name of valid labels.\<close>

definition label_char :: "char \<Rightarrow> bool" where
  "label_char c \<longleftrightarrow> 97 \<le> byte_val c \<and> byte_val c \<le> 122 \<or> 48 \<le> byte_val c \<and> byte_val c \<le> 57 \<or> byte_val c = 45"

definition ldh_label :: "string \<Rightarrow> bool" where
  "ldh_label l \<longleftrightarrow> l \<noteq> [] \<and> length l \<le> 63 \<and> list_all label_char l
     \<and> byte_val (hd l) \<noteq> 45 \<and> byte_val (last l) \<noteq> 45"

definition dns_name :: "string \<Rightarrow> bool" where
  "dns_name s \<longleftrightarrow> list_all ldh_label (split_byte CHR ''.'' s)"

subsection \<open>Labels\<close>

lemma label_scan_None:
  "label_scan n i s = None \<longleftrightarrow>
     list_all label_char s \<and> (\<forall>j < length s. byte_val (s ! j) = 45 \<longrightarrow> 0 < i + j \<and> i + j < n - 1)"
proof (induction s arbitrary: i)
  case (Cons r rs)
  have split: "(\<forall>j < length (r # rs). byte_val ((r # rs) ! j) = 45 \<longrightarrow> 0 < i + j \<and> i + j < n - 1) \<longleftrightarrow>
      (byte_val r = 45 \<longrightarrow> 0 < i \<and> i < n - 1) \<and>
      (\<forall>j < length rs. byte_val (rs ! j) = 45 \<longrightarrow> 0 < Suc i + j \<and> Suc i + j < n - 1)"
    by (simp add: All_less_Suc2)
  show ?case unfolding split by (auto simp: Cons.IH label_char_def)
qed simp

lemma ValidateLabel_None: "ValidateLabel l = None \<longleftrightarrow> ldh_label l"
proof (cases "l = []")
  case False
  have ends: "byte_val (hd l) \<noteq> 45 \<and> byte_val (last l) \<noteq> 45"
    if "\<forall>j < length l. byte_val (l ! j) = 45 \<longrightarrow> 0 < j \<and> j < length l - 1"
    using False that [rule_format, of 0] that [rule_format, of "length l - 1"]
    by (auto simp: hd_conv_nth last_conv_nth)
  have inner: "byte_val (hd l) \<noteq> 45 \<and> byte_val (last l) \<noteq> 45 \<Longrightarrow>
      j < length l \<Longrightarrow> byte_val (l ! j) = 45 \<Longrightarrow> 0 < j \<and> j < length l - 1" for j
    using False by (cases "j = 0"; cases "j = length l - 1") (auto simp: hd_conv_nth last_conv_nth)
  have hyphens: "(\<forall>j < length l. byte_val (l ! j) = 45 \<longrightarrow> 0 < j \<and> j < length l - 1) \<longleftrightarrow>
      byte_val (hd l) \<noteq> 45 \<and> byte_val (last l) \<noteq> 45"
    using ends inner by blast
  show ?thesis
    using False hyphens by (simp add: ValidateLabel_def ldh_label_def label_scan_None)
qed (simp add: ValidateLabel_def ldh_label_def)

lemma first_label_error_None: "first_label_error ls = None \<longleftrightarrow> list_all ldh_label ls"
proof (induction ls)
  case (Cons l ls)
  then show ?case using ValidateLabel_None [of l] by (cases "ValidateLabel l") auto
qed simp

lemma label_char_facts:
  assumes "label_char c"
  shows "ascii c" "lower_byte c = c" "\<not> ascii_space c" "c \<noteq> CHR '':''" "c \<noteq> CHR ''.''"
    "c \<noteq> CHR ''=''" "c \<noteq> CHR '',''"
  using assms by (auto simp: label_char_def ascii_def lower_byte_def ascii_space_def byte_val_def)

lemma dot_facts:
  "ascii CHR ''.''" "lower_byte CHR ''.'' = CHR ''.''" "\<not> ascii_space CHR ''.''"
  by (simp_all add: ascii_def lower_byte_def ascii_space_def byte_val_def)

subsection \<open>Dotted names\<close>

lemma split_byte_single_Nil: "split_byte c s = [[]] \<longleftrightarrow> s = []"
  by (cases s) (auto split: list.splits)

lemma split_hd: "hd (split_byte c s) \<noteq> [] \<Longrightarrow> s \<noteq> [] \<and> hd s = hd (hd (split_byte c s))"
  by (cases s) (auto split: list.splits if_splits)

lemma split_last: "last (split_byte c s) \<noteq> [] \<Longrightarrow> s \<noteq> [] \<and> last s = last (last (split_byte c s))"
proof (induction s)
  case (Cons a s)
  then show ?case
    by (cases "split_byte c s") (auto simp: split_byte_single_Nil split: if_splits)
qed simp

lemma dns_name_chars: "dns_name s \<Longrightarrow> x \<in> set s \<Longrightarrow> label_char x \<or> x = CHR ''.''"
proof -
  assume s: "dns_name s" and x: "x \<in> set s"
  show ?thesis
  proof (cases "x = CHR ''.''")
    case False
    with x obtain p where p: "p \<in> set (split_byte CHR ''.'' s)" "x \<in> set p"
      using split_byte_bytes [of "CHR ''.''" s] by blast
    with s have "ldh_label p" by (simp add: dns_name_def list_all_iff)
    with p(2) show ?thesis by (simp add: ldh_label_def list_all_iff)
  qed simp
qed

lemma dns_name_ends:
  assumes "dns_name s"
  shows "s \<noteq> []" "label_char (hd s)" "label_char (last s)"
proof -
  have h: "ldh_label (hd (split_byte CHR ''.'' s))" and l: "ldh_label (last (split_byte CHR ''.'' s))"
    using assms by (simp_all add: dns_name_def list_all_iff)
  then show "s \<noteq> []" using split_hd by (auto simp: ldh_label_def)
  show "label_char (hd s)" using h split_hd [of "CHR ''.''" s] by (auto simp: ldh_label_def list_all_iff)
  show "label_char (last s)" using l split_last [of "CHR ''.''" s] by (auto simp: ldh_label_def list_all_iff)
qed

lemma dns_name_bytes:
  assumes "dns_name s"
  shows "list_all ascii s" "list_all (\<lambda>c. lower_byte c = c) s" "CHR '':'' \<notin> set s"
  using dns_name_chars [OF assms] label_char_facts dot_facts by (auto simp: list_all_iff) blast+

lemma NormalizeHost_dns_name:
  assumes "dns_name s"
  shows "NormalizeHost U s = s"
proof -
  have "trim_space U s = s"
    by (rule trim_space_clean) (use dns_name_ends [OF assms] dns_name_bytes [OF assms] label_char_facts in auto)
  moreover have "trim_suffix_byte CHR ''.'' s = s"
    using dns_name_ends(3) [OF assms] label_char_facts(5) by (auto simp: trim_suffix_byte_def)
  ultimately show ?thesis
    using dns_name_bytes [OF assms]
    by (simp add: NormalizeHost_def to_lower_clean split_host_port_no_colon)
qed

lemma NormalizeLabel_ldh: "ldh_label l \<Longrightarrow> NormalizeLabel U l = l"
proof -
  assume l: "ldh_label l"
  then have c: "label_char c" if "c \<in> set l" for c using that by (simp add: ldh_label_def list_all_iff)
  have "l \<noteq> []" using l by (simp add: ldh_label_def)
  then have "trim_space U l = l"
    by (intro trim_space_clean) (auto simp: list_all_iff label_char_facts c)
  moreover have "to_lower U l = l"
    by (rule to_lower_clean) (auto simp: list_all_iff label_char_facts c)
  ultimately show ?thesis by (simp add: NormalizeLabel_def)
qed

lemma ValidateDomain_None:
  "ValidateDomain U d = None \<longleftrightarrow>
     dns_name (NormalizeDomain U d) \<and> 2 \<le> length (split_byte CHR ''.'' (NormalizeDomain U d))"
  by (auto simp: ValidateDomain_def Let_def first_label_error_None dns_name_def ldh_label_def)

lemma dns_name_subdomain: "ldh_label l \<Longrightarrow> dns_name d \<Longrightarrow> dns_name (l @ CHR ''.'' # d)"
proof -
  assume l: "ldh_label l" and d: "dns_name d"
  then have "CHR ''.'' \<notin> set l" using label_char_facts(5) by (auto simp: ldh_label_def list_all_iff)
  then show ?thesis using l d by (simp add: dns_name_def split_byte_append)
qed

lemma Subdomain_eq: "ldh_label l \<Longrightarrow> dns_name d \<Longrightarrow> Subdomain U l d = l @ CHR ''.'' # d"
  using NormalizeHost_dns_name [OF dns_name_subdomain] by (simp add: Subdomain_def)

lemma Subdomain_inject:
  "ldh_label l \<Longrightarrow> ldh_label l' \<Longrightarrow> dns_name d \<Longrightarrow> Subdomain U l d = Subdomain U l' d \<longleftrightarrow> l = l'"
  by (simp add: Subdomain_eq)

lemma Subdomain_neq_domain: "ldh_label l \<Longrightarrow> dns_name d \<Longrightarrow> Subdomain U l d \<noteq> d"
proof -
  assume "ldh_label l" "dns_name d"
  then have "length (Subdomain U l d) = Suc (length l + length d)" by (simp add: Subdomain_eq)
  then show ?thesis by auto
qed

subsection \<open>Spelling of a host\<close>

lemma digit_facts:
  assumes "digit_val c \<noteq> None"
  shows "ascii c" "lower_byte c = c" "\<not> ascii_space c" "c \<notin> {CHR '':'', CHR ''['', CHR '']''}"
  using assms
  by (auto simp: digit_val_def ascii_def lower_byte_def ascii_space_def byte_val_def split: if_splits)

lemma NormalizeHost_lowered:
  assumes "list_all ascii h" "map lower_byte h = s" "s \<noteq> []" "\<not> ascii_space (hd s)" "\<not> ascii_space (last s)"
  shows "NormalizeHost U h =
    trim_suffix_byte CHR ''.'' (case split_host_port s of Inr (ph, _) \<Rightarrow> ph | Inl _ \<Rightarrow> s)"
proof -
  have "ascii (lower_byte c)" if "ascii c" for c
    using that by (auto simp: ascii_def lower_byte_def byte_val_char_of)
  then have "list_all ascii s" using assms(1,2) by (auto simp: list_all_iff)
  then have "trim_space U s = s" by (intro trim_space_clean) (use assms in auto)
  then show ?thesis using assms(1,2) by (simp add: NormalizeHost_def to_lower_def)
qed

lemma dns_name_not_brackets:
  assumes "dns_name d"
  shows "set d \<inter> {CHR '':'', CHR ''['', CHR '']''} = {}"
  using dns_name_chars [OF assms, of "CHR '':''"] dns_name_chars [OF assms, of "CHR ''[''"]
    dns_name_chars [OF assms, of "CHR '']''"] by (auto simp: label_char_def byte_val_def)

lemma dns_name_trim_dot:
  assumes "dns_name d"
  shows "trim_suffix_byte CHR ''.'' d = d" "trim_suffix_byte CHR ''.'' (d @ ''.'') = d"
  using dns_name_ends(3) [OF assms] label_char_facts(5) by (auto simp: trim_suffix_byte_def)

lemma NormalizeHost_port:
  assumes d: "dns_name d" and h: "list_all ascii h" "map lower_byte h = d"
    and p: "list_all (\<lambda>c. digit_val c \<noteq> None) p" and dot: "dot = [] \<or> dot = ''.''"
  shows "NormalizeHost U (h @ dot @ CHR '':'' # p) = d"
proof -
  let ?s = "(d @ dot) @ CHR '':'' # p"
  have pc: "digit_val c \<noteq> None" if "c \<in> set p" for c using that p by (simp add: list_all_iff)
  have colon: "ascii CHR '':''" "lower_byte CHR '':'' = CHR '':''" "\<not> ascii_space CHR '':''"
    by (simp_all add: ascii_def lower_byte_def ascii_space_def byte_val_def)
  have lp: "map lower_byte p = p" using digit_facts(2) [OF pc] by (simp add: map_idI)
  have m: "map lower_byte (h @ dot @ CHR '':'' # p) = ?s"
    using h(2) dot lp colon(2) dot_facts(2) by auto
  have a: "list_all ascii (h @ dot @ CHR '':'' # p)"
    using h(1) dot colon(1) dot_facts(1) digit_facts(1) [OF pc] by (auto simp: list_all_iff)
  have "\<not> ascii_space (hd ?s)"
    using dns_name_ends [OF d] label_char_facts(3) by simp
  moreover have "\<not> ascii_space (last ?s)"
    using colon(3) digit_facts(3) [OF pc] by (cases "p = []") auto
  moreover have "split_host_port ?s = Inr (d @ dot, p)"
    by (rule split_host_port_plain)
      (use dns_name_not_brackets [OF d] dot digit_facts(4) [OF pc] in auto)
  ultimately show ?thesis
    using NormalizeHost_lowered [OF a m] dot dns_name_trim_dot [OF d] by auto
qed

lemma NormalizeHost_spelling:
  assumes d: "dns_name d" and h: "list_all ascii h" "map lower_byte h = d"
  shows "NormalizeHost U h = d" "NormalizeHost U (h @ ''.'') = d"
proof -
  have hd: "\<not> ascii_space (hd d)" "d \<noteq> []" "\<not> ascii_space (last d)" "CHR '':'' \<notin> set d"
    using dns_name_ends [OF d] dns_name_bytes [OF d] label_char_facts(3) by auto
  show "NormalizeHost U h = d"
    using NormalizeHost_lowered [OF h] hd dns_name_trim_dot [OF d] by (simp add: split_host_port_no_colon)
  have "NormalizeHost U (h @ ''.'') = trim_suffix_byte CHR ''.''
      (case split_host_port (d @ ''.'') of Inr (ph, _) \<Rightarrow> ph | Inl _ \<Rightarrow> d @ ''.'')"
    by (rule NormalizeHost_lowered) (use h hd dot_facts in auto)
  then show "NormalizeHost U (h @ ''.'') = d"
    using hd dns_name_trim_dot [OF d] by (simp add: split_host_port_no_colon)
qed

subsection \<open>Properties\<close>

text \<open>
  \<open>ValidateLabel\<close> accepts exactly the DNS labels of at most 63 lowercase letters, digits and
  interior hyphens.
\<close>
lemma ValidateLabel_exact: "ValidateLabel l = None \<longleftrightarrow> ldh_label l"
  by (rule ValidateLabel_None)

text \<open>
  Every spelling of a host that differs from a valid name in letter case, in a trailing dot
  or in a port suffix normalises to that name, whatever the Unicode tables are.
\<close>
lemma NormalizeHost_canonical:
  assumes "dns_name d" "list_all ascii h" "map lower_byte h = d" "list_all (\<lambda>c. digit_val c \<noteq> None) p"
  shows "NormalizeHost U h = d \<and> NormalizeHost U (h @ ''.'') = d
    \<and> NormalizeHost U (h @ '':'' @ p) = d \<and> NormalizeHost U (h @ ''.:'' @ p) = d"
  using NormalizeHost_spelling [OF assms(1-3), of U] NormalizeHost_port [OF assms, of "[]" U]
    NormalizeHost_port [OF assms, of "''.''" U] by simp

theorem NormalizeHost_canonical_witness:
  "NormalizeHost no_tables ''Demo.Example.COM.:443'' = ''demo.example.com''"
proof -
  have "dns_name ''demo.example.com''" "list_all ascii ''Demo.Example.COM''"
    "map lower_byte ''Demo.Example.COM'' = ''demo.example.com''"
    "list_all (\<lambda>c. digit_val c \<noteq> None) ''443''" by code_simp+
  from NormalizeHost_canonical [OF this, of no_tables] show ?thesis by simp
qed

text \<open>
  For a valid label and a valid public domain, \<open>Subdomain\<close> is the dotted concatenation, it
  is itself a valid domain in normal form, it differs from the public domain, and distinct
  labels get distinct hosts.
\<close>
lemma Subdomain_valid:
  assumes "ValidateLabel l = None" "ValidateDomain U d = None"
  shows "Subdomain U l (NormalizeDomain U d) = l @ ''.'' @ NormalizeDomain U d
    \<and> ValidateDomain U (Subdomain U l (NormalizeDomain U d)) = None
    \<and> NormalizeHost U (Subdomain U l (NormalizeDomain U d)) = Subdomain U l (NormalizeDomain U d)
    \<and> Subdomain U l (NormalizeDomain U d) \<noteq> NormalizeDomain U d
    \<and> (\<forall>l'. ValidateLabel l' = None \<longrightarrow>
        Subdomain U l' (NormalizeDomain U d) = Subdomain U l (NormalizeDomain U d) \<longrightarrow> l' = l)"
proof -
  let ?d = "NormalizeDomain U d"
  have l: "ldh_label l" and d: "dns_name ?d" "2 \<le> length (split_byte CHR ''.'' ?d)"
    using assms by (simp_all add: ValidateLabel_None ValidateDomain_None)
  have eq: "Subdomain U l ?d = l @ CHR ''.'' # ?d" and n: "dns_name (l @ CHR ''.'' # ?d)"
    using l d(1) by (simp_all add: Subdomain_eq dns_name_subdomain)
  have "CHR ''.'' \<notin> set l" using l label_char_facts(5) by (auto simp: ldh_label_def list_all_iff)
  then have "ValidateDomain U (l @ CHR ''.'' # ?d) = None"
    using n NormalizeHost_dns_name [OF n] d(2)
    by (simp add: ValidateDomain_None NormalizeDomain_def split_byte_append)
  moreover have "Subdomain U l ?d \<noteq> ?d" using l d(1) by (rule Subdomain_neq_domain)
  moreover have "l' = l" if "ldh_label l'" "Subdomain U l' ?d = Subdomain U l ?d" for l'
    using that Subdomain_inject [OF that(1) l d(1)] by simp
  ultimately show ?thesis
    using eq NormalizeHost_dns_name [OF n] unfolding ValidateLabel_None by auto
qed

theorem Subdomain_valid_witness:
  "Subdomain no_tables ''demo'' (NormalizeDomain no_tables ''Example.com'') = ''demo.example.com''"
proof -
  have "ValidateLabel ''demo'' = None" "ValidateDomain no_tables ''Example.com'' = None" by code_simp+
  note S = Subdomain_valid [OF this]
  have "NormalizeDomain no_tables ''Example.com'' = ''example.com''" by code_simp
  then show ?thesis using S by simp
qed

end
