(* ===== verification/Headers.thy ===== *)
theory Headers
  imports Tunnelpb
begin

text \<open>
  \<open>internal/headers/headers.go\<close>: conversion between \<open>http.Header\<close> and the wire headers with the
  hop-by-hop headers removed.  An \<open>http.Header\<close> is a Go map from names to value lists; the
  order of its entries is the order in which a \<open>range\<close> loop happens to visit them.
\<close>

type_synonym http_header = "(string, string list) gomap"

text \<open>\<open>http.Header.Values\<close>, \<open>Get\<close> and \<open>Add\<close> of the standard library.\<close>

definition header_values :: "http_header \<Rightarrow> string \<Rightarrow> string list" where
  "header_values h k = (case map_get h k of None \<Rightarrow> [] | Some vs \<Rightarrow> vs)"

definition header_get :: "http_header \<Rightarrow> string \<Rightarrow> string" where
  "header_get h k = (case header_values h k of [] \<Rightarrow> [] | v # _ \<Rightarrow> v)"

definition valid_header_field_byte :: "char \<Rightarrow> bool" where
  "valid_header_field_byte c \<longleftrightarrow>
     48 \<le> byte_val c \<and> byte_val c \<le> 57 \<or> 65 \<le> byte_val c \<and> byte_val c \<le> 90 \<or>
     97 \<le> byte_val c \<and> byte_val c \<le> 122 \<or>
     byte_val c \<in> {33, 35, 36, 37, 38, 39, 42, 43, 45, 46, 94, 95, 96, 124, 126}"

definition upper_byte :: "char \<Rightarrow> char" where
  "upper_byte c = (if 97 \<le> byte_val c \<and> byte_val c \<le> 122 then char_of (byte_val c - 32) else c)"

fun canonical_bytes :: "bool \<Rightarrow> string \<Rightarrow> string" where
  "canonical_bytes upper [] = []"
| "canonical_bytes upper (c # cs) =
     (let c' = (if upper then upper_byte c else lower_byte c)
      in c' # canonical_bytes (c' = CHR ''-'') cs)"

definition canonical_mime_key :: "string \<Rightarrow> string" where
  "canonical_mime_key s = (if list_all valid_header_field_byte s then canonical_bytes True s else s)"

definition header_add :: "string \<Rightarrow> string \<Rightarrow> http_header \<Rightarrow> http_header" where
  "header_add k v h = (let k = canonical_mime_key k in map_put k (header_values h k @ [v]) h)"

text \<open>The package.\<close>

definition hopByHopHeaders :: "string list" where
  "hopByHopHeaders =
     [''keep-alive'', ''proxy-authenticate'', ''proxy-authorization'', ''te'', ''trailer'',
      ''transfer-encoding'']"

definition isHopByHop :: "go_unicode \<Rightarrow> string \<Rightarrow> string list option \<Rightarrow> bool" where
  "isHopByHop U key connTokens =
     (let lower = to_lower U key in
      if lower \<in> set hopByHopHeaders then True
      else case connTokens of Some toks \<Rightarrow> lower \<in> set toks | None \<Rightarrow> False)"

definition connectionTokens :: "go_unicode \<Rightarrow> http_header \<Rightarrow> string list option" where
  "connectionTokens U h =
     (let values = header_values h ''Connection'' in
      if values = [] then None
      else Some (filter (\<lambda>tok. tok \<noteq> [] \<and> tok \<noteq> ''upgrade'')
        (map (\<lambda>tok. to_lower U (trim_space U tok)) (concat (map (split_byte CHR '','') values)))))"

definition hasUpgrade :: "http_header \<Rightarrow> bool" where
  "hasUpgrade h \<longleftrightarrow> header_get h ''Upgrade'' \<noteq> []"

definition shouldStrip :: "go_unicode \<Rightarrow> string \<Rightarrow> string list option \<Rightarrow> bool \<Rightarrow> bool" where
  "shouldStrip U key connTokens upgrading =
     (let lower = to_lower U key in
      if lower = ''connection'' \<or> lower = ''upgrade'' then \<not> upgrading
      else isHopByHop U lower connTokens)"

definition ToProto :: "go_unicode \<Rightarrow> http_header \<Rightarrow> Header option list" where
  "ToProto U h =
     (let connTokens = connectionTokens U h; upgrading = hasUpgrade h in
      map (\<lambda>(k, v). Some \<lparr>Header_Key = k, Header_Values = v\<rparr>)
        (filter (\<lambda>(k, v). \<not> shouldStrip U k connTokens upgrading) h))"

fun from_proto_entries :: "Header option list \<Rightarrow> http_header \<Rightarrow> http_header" where
  "from_proto_entries [] h = h"
| "from_proto_entries (None # kvs) h = from_proto_entries kvs h"
| "from_proto_entries (Some kv # kvs) h =
     from_proto_entries kvs (map_put (Header_Key kv) (Header_Values kv) h)"

definition FromProto :: "go_unicode \<Rightarrow> Header option list \<Rightarrow> http_header" where
  "FromProto U kvs =
     (let h = from_proto_entries kvs [];
          connTokens = connectionTokens U h; upgrading = hasUpgrade h
      in filter (\<lambda>(k, v). \<not> shouldStrip U k connTokens upgrading) h)"

definition Copy :: "http_header \<Rightarrow> http_header \<Rightarrow> http_header" where
  "Copy dst src = fold (\<lambda>(k, v). fold (header_add k) v) src dst"

subsection \<open>Lookup after filtering\<close>

lemma map_get_filter:
  "map_wf h \<Longrightarrow> map_get (filter (\<lambda>(k, v). P k) h) k = (if P k then map_get h k else None)"
  by (induction h) (auto simp: map_get_def map_wf_def map_of_eq_None_iff image_iff)

lemma map_wf_filter: "map_wf h \<Longrightarrow> map_wf (filter P h)"
  by (simp add: map_wf_def distinct_map_filter)

lemma filter_key_fst: "(\<lambda>(k, v). P k) = P \<circ> fst"
  by (auto simp: fun_eq_iff)

lemma connection_kept [simp]:
  "shouldStrip U ''Connection'' t up = (\<not> up)" "shouldStrip U ''Upgrade'' t up = (\<not> up)"
proof -
  have "list_all ascii ''Connection''" "map lower_byte ''Connection'' = ''connection''"
    "list_all ascii ''Upgrade''" "map lower_byte ''Upgrade'' = ''upgrade''" by code_simp+
  then have "to_lower U ''Connection'' = ''connection''" "to_lower U ''Upgrade'' = ''upgrade''"
    unfolding to_lower_def by simp_all
  then show "shouldStrip U ''Connection'' t up = (\<not> up)" "shouldStrip U ''Upgrade'' t up = (\<not> up)"
    by (simp_all add: shouldStrip_def)
qed

lemma shouldStrip_mono: "shouldStrip U k None up \<Longrightarrow> shouldStrip U k t up"
  by (auto simp: shouldStrip_def isHopByHop_def Let_def split: option.splits if_splits)

lemma header_values_cong: "map_get h k = map_get h' k \<Longrightarrow> header_values h k = header_values h' k"
  by (simp add: header_values_def)

text \<open>Stripping twice is stripping once: what the first pass keeps, the second keeps.\<close>

lemma strip_stable:
  assumes "map_wf h"
    and g: "\<And>k. map_get g k = (if shouldStrip U k (connectionTokens U h) (hasUpgrade h) then None else map_get h k)"
    and k: "\<not> shouldStrip U k (connectionTokens U h) (hasUpgrade h)"
  shows "\<not> shouldStrip U k (connectionTokens U g) (hasUpgrade g)"
proof (cases "hasUpgrade h")
  case True
  then have "header_values g ''Connection'' = header_values h ''Connection''"
    "header_values g ''Upgrade'' = header_values h ''Upgrade''"
    by (auto intro!: header_values_cong simp: g)
  then show ?thesis using k by (simp add: connectionTokens_def hasUpgrade_def header_get_def)
next
  case False
  then have n: "map_get g ''Connection'' = None" "map_get g ''Upgrade'' = None" by (simp_all add: g)
  then have "connectionTokens U g = None" "\<not> hasUpgrade g"
    by (simp_all add: connectionTokens_def hasUpgrade_def header_get_def header_values_def)
  then show ?thesis using k False shouldStrip_mono by auto
qed

subsection \<open>The wire list and the map it came from\<close>

lemma from_proto_entries_wf: "map_wf h \<Longrightarrow> map_wf (from_proto_entries kvs h)"
  by (induction kvs h rule: from_proto_entries.induct) (auto simp: go_map)

lemma from_proto_entries_get:
  assumes "distinct (map Header_Key kvs)" "map_wf h"
  shows "map_get (from_proto_entries (map Some kvs) h) k =
    (case find (\<lambda>kv. Header_Key kv = k) kvs of Some kv \<Rightarrow> Some (Header_Values kv) | None \<Rightarrow> map_get h k)"
  using assms
proof (induction kvs arbitrary: h)
  case (Cons kv kvs)
  have "find (\<lambda>x. Header_Key x = Header_Key kv) kvs = None"
    unfolding find_None_iff using Cons.prems(1) by (auto simp: image_iff)
  then show ?case
    using Cons by (auto simp: gm.get_put gm.wf_put split: option.splits)
qed simp

lemma find_unique:
  assumes "distinct (map Header_Key kvs)" "mset kvs = mset kvs'"
  shows "find (\<lambda>kv. Header_Key kv = k) kvs = find (\<lambda>kv. Header_Key kv = k) kvs'"
proof -
  have d': "distinct (map Header_Key kvs')"
    using assms distinct_map_mset by blast
  have s: "set kvs = set kvs'" using assms(2) by (rule mset_eq_setD)
  show ?thesis
  proof (cases "find (\<lambda>kv. Header_Key kv = k) kvs")
    case None
    then have "find (\<lambda>kv. Header_Key kv = k) kvs' = None" using s by (simp add: find_None_iff)
    with None show ?thesis by simp
  next
    case (Some a)
    then have a: "a \<in> set kvs'" "Header_Key a = k" using s by (auto simp: find_Some_iff)
    then obtain b where b: "find (\<lambda>kv. Header_Key kv = k) kvs' = Some b"
      by (cases "find (\<lambda>kv. Header_Key kv = k) kvs'") (auto simp: find_None_iff)
    then have "b \<in> set kvs'" "Header_Key b = k" by (auto simp: find_Some_iff)
    with a d' have "b = a" by (auto simp: distinct_map inj_on_def)
    with b Some show ?thesis by simp
  qed
qed

lemma find_entries:
  "find (\<lambda>kv. Header_Key kv = k) (map (\<lambda>(k, v). \<lparr>Header_Key = k, Header_Values = v\<rparr>) h) =
     map_option (\<lambda>v. \<lparr>Header_Key = k, Header_Values = v\<rparr>) (map_get h k)"
  by (induction h) (auto simp: map_get_def)


lemma ToProto_entries:
  "ToProto U h = map Some (map (\<lambda>(k, v). \<lparr>Header_Key = k, Header_Values = v\<rparr>)
     (filter (\<lambda>(k, v). \<not> shouldStrip U k (connectionTokens U h) (hasUpgrade h)) h))"
  by (simp add: ToProto_def Let_def case_prod_beta comp_def)

lemma FromProto_get:
  "map_get (FromProto U kvs) k =
    (let h = from_proto_entries kvs [] in
     if shouldStrip U k (connectionTokens U h) (hasUpgrade h) then None else map_get h k)"
  using from_proto_entries_wf [OF gm.wf_mt, of kvs]
  by (simp add: FromProto_def Let_def map_get_filter)

lemma FromProto_ToProto_get:
  assumes wf: "map_wf h" and xs: "mset xs = mset (ToProto U h)"
  shows "map_get (FromProto U xs) k =
    (if shouldStrip U k (connectionTokens U h) (hasUpgrade h) then None else map_get h k)"
proof -
  let ?strip = "\<lambda>k. shouldStrip U k (connectionTokens U h) (hasUpgrade h)"
  let ?h = "filter (\<lambda>(k, v). \<not> ?strip k) h"
  let ?es = "map (\<lambda>(k, v). \<lparr>Header_Key = k, Header_Values = v\<rparr>) ?h"
  obtain zs where zs: "xs = map Some zs" "mset zs = mset ?es"
    using mset_map_Some [of xs ?es] xs by (auto simp: ToProto_entries)
  have keys: "map Header_Key ?es = map fst ?h" by (simp add: comp_def case_prod_beta)
  have "distinct (map Header_Key ?es)"
    unfolding keys using map_wf_filter [OF wf] by (simp add: map_wf_def)
  then have d: "distinct (map Header_Key zs)"
    using distinct_map_mset [OF zs(2)] by blast
  let ?g = "from_proto_entries xs []"
  have g: "map_get ?g k = (if ?strip k then None else map_get h k)" for k
    unfolding zs(1) from_proto_entries_get [OF d gm.wf_mt] find_unique [OF d zs(2)] find_entries
    using map_get_filter [OF wf, of "\<lambda>k. \<not> ?strip k" k]
    by (simp add: gm.get_mt split: option.splits)
  show ?thesis
    using strip_stable [OF wf g, of k] by (auto simp: FromProto_get Let_def g)
qed

lemma stripped_names:
  assumes "\<not> shouldStrip U k t up" "list_all ascii k"
  shows "map lower_byte k \<notin> set hopByHopHeaders"
    "\<not> up \<Longrightarrow> map lower_byte k \<noteq> ''connection'' \<and> map lower_byte k \<noteq> ''upgrade''"
    "t = Some toks \<Longrightarrow> map lower_byte k \<in> set toks \<Longrightarrow> map lower_byte k \<in> {''connection'', ''upgrade''}"
proof -
  have idem: "lower_byte (lower_byte c) = lower_byte c" for c
    by (auto simp: lower_byte_def byte_val_char_of)
  have "list_all ascii (map lower_byte k)"
    using assms(2) by (auto simp: list_all_iff ascii_def lower_byte_def byte_val_char_of)
  then have l: "to_lower U k = map lower_byte k" "to_lower U (map lower_byte k) = map lower_byte k"
    using assms(2) by (simp_all add: to_lower_def idem comp_def)
  have hops: "''connection'' \<notin> set hopByHopHeaders" "''upgrade'' \<notin> set hopByHopHeaders"
    by (simp_all add: hopByHopHeaders_def)
  show "map lower_byte k \<notin> set hopByHopHeaders"
    using assms(1) l hops by (auto simp: shouldStrip_def isHopByHop_def Let_def split: if_splits)
  show "map lower_byte k \<noteq> ''connection'' \<and> map lower_byte k \<noteq> ''upgrade''" if "\<not> up"
    using assms(1) l that by (auto simp: shouldStrip_def Let_def split: if_splits)
  show "map lower_byte k \<in> {''connection'', ''upgrade''}" if "t = Some toks" "map lower_byte k \<in> set toks"
    using assms(1) l that by (auto simp: shouldStrip_def isHopByHop_def Let_def split: if_splits)
qed

subsection \<open>\<open>Copy\<close>\<close>

lemma header_values_add:
  "header_values (header_add k v h) k' =
     (if k' = canonical_mime_key k then header_values h k' @ [v] else header_values h k')"
  by (simp add: header_add_def header_values_def Let_def gm.get_put)

lemma header_values_fold_add:
  "header_values (fold (header_add k) vs h) k' =
     (if k' = canonical_mime_key k then header_values h k' @ vs else header_values h k')"
  by (induction vs arbitrary: h) (auto simp: header_values_add)

subsection \<open>Properties\<close>

text \<open>
  C14: headers survive the tunnel.  Whatever order the map iteration puts the wire headers in,
  \<open>FromProto\<close> of \<open>ToProto\<close> returns every header that must not be stripped with its values
  unchanged, and no other; stripping on both sides strips no more than stripping once.
\<close>
theorem FromProto_ToProto:
  assumes "map_wf h" "mset xs = mset (ToProto U h)"
  shows "map_get (FromProto U xs) = (\<lambda>k.
    if shouldStrip U k (connectionTokens U h) (hasUpgrade h) then None else map_get h k)"
  using FromProto_ToProto_get [OF assms] by (rule ext)

theorem FromProto_ToProto_witness:
  "map_get (FromProto no_tables (rev (ToProto no_tables
     [(''Connection'', [''X-Drop'']), (''X-Drop'', [''1'']), (''X-Keep'', [''a'', ''b''])])))
     ''X-Keep'' = Some [''a'', ''b'']"
proof -
  let ?h = "[(''Connection'', [''X-Drop'']), (''X-Drop'', [''1'']), (''X-Keep'', [''a'', ''b''])]"
  have "map_wf ?h" by (simp add: map_wf_def)
  moreover have "mset (rev (ToProto no_tables ?h)) = mset (ToProto no_tables ?h)" by simp
  ultimately have "map_get (FromProto no_tables (rev (ToProto no_tables ?h))) = (\<lambda>k.
    if shouldStrip no_tables k (connectionTokens no_tables ?h) (hasUpgrade ?h) then None else map_get ?h k)"
    by (rule FromProto_ToProto)
  moreover have "\<not> shouldStrip no_tables ''X-Keep'' (connectionTokens no_tables ?h) (hasUpgrade ?h)"
    by code_simp
  ultimately show ?thesis by (simp add: map_get_def)
qed

text \<open>
  C15: no hop-by-hop header leaves \<open>FromProto\<close>, even for wire headers a misbehaving peer made up:
  a surviving ASCII name is none of the connection-level headers in any letter case, it is
  \<open>Connection\<close> or \<open>Upgrade\<close> only while an upgrade is negotiated, and it is not named by the
  \<open>Connection\<close> header it was received with.
\<close>
theorem FromProto_strips:
  assumes "map_get (FromProto U kvs) k = Some vs" "list_all ascii k"
  shows "map lower_byte k \<notin> set hopByHopHeaders
    \<and> (map lower_byte k \<in> {''connection'', ''upgrade''} \<longrightarrow> hasUpgrade (from_proto_entries kvs []))
    \<and> (\<forall>toks. connectionTokens U (from_proto_entries kvs []) = Some toks \<longrightarrow>
         map lower_byte k \<in> set toks \<longrightarrow> map lower_byte k \<in> {''connection'', ''upgrade''})"
proof -
  have "\<not> shouldStrip U k (connectionTokens U (from_proto_entries kvs [])) (hasUpgrade (from_proto_entries kvs []))"
    using assms(1) by (auto simp: FromProto_get Let_def split: if_splits)
  note names = stripped_names [OF this assms(2)]
  show ?thesis
  proof (intro conjI impI allI)
    show "hasUpgrade (from_proto_entries kvs [])" if "map lower_byte k \<in> {''connection'', ''upgrade''}"
      using names(2) that by (cases "hasUpgrade (from_proto_entries kvs [])") (simp, metis insertE singletonD)
  qed (use names(1,3) in metis)+
qed

theorem FromProto_strips_witness:
  "map lower_byte ''X-A'' \<notin> set hopByHopHeaders"
proof -
  have "map_get (FromProto no_tables [Some \<lparr>Header_Key = ''X-A'', Header_Values = [''1'']\<rparr>,
      Some \<lparr>Header_Key = ''TE'', Header_Values = [''trailers'']\<rparr>, None]) ''X-A'' = Some [''1'']"
    "list_all ascii ''X-A''"
    by code_simp+
  from FromProto_strips [OF this] show ?thesis by blast
qed

text \<open>
  \<open>Copy\<close> appends, under the canonical spelling of each name, all values of the source in
  iteration order after the values the destination already had, and touches no other name.
\<close>
lemma Copy_values:
  "header_values (Copy dst src) k =
     header_values dst k @ concat (map snd (filter (\<lambda>(k', v). canonical_mime_key k' = k) src))"
  by (induction src arbitrary: dst) (auto simp: Copy_def header_values_fold_add)

end
