(* ===== verification/ServerState.thy ===== *)
theory ServerState
  imports Tunnelpb Hostnames
begin

text \<open>
  The state of the edge (\<open>server/server.go\<close>) and the operations on it: \<open>New\<close>, the session
  registry, the in-flight tables, the global slot counter and the delivery of frames between
  queues.  Objects the Go code shares by pointer (sessions, response states, WebSocket states)
  live in three lists of the server record, and a pointer is an index into its list.

  A \<open>select\<close> picks any ready case.  An operation that contains one returns the list of its
  possible results; the empty list means that the goroutine blocks there.  Channels that the
  code only ever closes are booleans.  Logging is not modelled.
\<close>

named_theorems srv_simps \<open>rewriting of server state updates\<close>

datatype go_error =
    ErrSessionClosed | ErrSessionReplaced | ErrCanceled | ErrDeadlineExceeded | ErrEOF | ErrNew string

definition sessionOutboundQueueDepth :: nat where [simp]: "sessionOutboundQueueDepth = 16"
definition responseBodyQueueDepth :: nat where [simp]: "responseBodyQueueDepth = 4"
definition wsInboundQueueDepth :: nat where [simp]: "wsInboundQueueDepth = 4"

definition defaultMaxInflightPerSession :: int where "defaultMaxInflightPerSession = 128"
definition defaultMaxTotalInflight :: int where "defaultMaxTotalInflight = 512"

datatype inflightLimit = inflightLimitNone | inflightLimitPerSession | inflightLimitTotal

record server_Config =
  cfg_PublicDomain :: string
  cfg_TokenUsers :: "(string, string) gomap"
  cfg_HeartbeatInterval :: int
  cfg_MaxInflightPerSession :: int
  cfg_MaxTotalInflight :: int

record responseState =
  rs_start :: "ResponseStart chan"
  rs_body :: "bytes chan"
  rs_done :: bool
  rs_err :: "go_error chan"
  rs_once :: bool

record wsState =
  ws_fromClient :: "bytes chan"
  ws_done :: bool
  ws_once :: bool

record session =
  sess_id :: "64 word"
  sess_publicHost :: string
  sess_username :: string
  sess_outbound :: "ServerFrame chan"
  sess_done :: bool
  sess_once :: bool
  sess_inflight :: "(string, nat) gomap"
  sess_wsMap :: "(string, nat) gomap"

record Server =
  srv_publicDomain :: string
  srv_tokenUsers :: "(string, string) gomap"
  srv_publicHosts :: "(string, unit) gomap"
  srv_heartbeat :: int
  srv_maxInflight :: int
  srv_maxTotalInflight :: int
  srv_totalInflight :: int
  srv_sessions :: "(string, nat) gomap"
  srv_nextSessionID :: "64 word"
  srv_nextRequestID :: "64 word"
  heap_sess :: "session list"
  heap_rs :: "responseState list"
  heap_ws :: "wsState list"

subsection \<open>Access through pointers\<close>

definition upd_sess :: "nat \<Rightarrow> (session \<Rightarrow> session) \<Rightarrow> Server \<Rightarrow> Server" where
  "upd_sess a f s = s\<lparr>heap_sess := (heap_sess s)[a := f (heap_sess s ! a)]\<rparr>"

definition upd_rs :: "nat \<Rightarrow> (responseState \<Rightarrow> responseState) \<Rightarrow> Server \<Rightarrow> Server" where
  "upd_rs a f s = s\<lparr>heap_rs := (heap_rs s)[a := f (heap_rs s ! a)]\<rparr>"

definition upd_ws :: "nat \<Rightarrow> (wsState \<Rightarrow> wsState) \<Rightarrow> Server \<Rightarrow> Server" where
  "upd_ws a f s = s\<lparr>heap_ws := (heap_ws s)[a := f (heap_ws s ! a)]\<rparr>"

subsection \<open>Response and WebSocket states\<close>

definition newResponseState :: responseState where
  "newResponseState =
     \<lparr>rs_start = chan_make 1, rs_body = chan_make responseBodyQueueDepth, rs_done = False,
      rs_err = chan_make 1, rs_once = False\<rparr>"

definition rs_finish :: "responseState \<Rightarrow> responseState" where
  "rs_finish r = (if rs_once r then r else r\<lparr>rs_once := True, rs_done := True\<rparr>)"

definition rs_fail :: "go_error option \<Rightarrow> responseState \<Rightarrow> responseState" where
  "rs_fail err r =
     (if rs_once r then r
      else (case err of
              Some e \<Rightarrow> if chan_send_ready (rs_err r) then r\<lparr>rs_err := chan_send e (rs_err r)\<rparr> else r
            | None \<Rightarrow> r)\<lparr>rs_once := True, rs_done := True\<rparr>)"

definition consumeErr :: "responseState \<Rightarrow> go_error option \<times> responseState" where
  "consumeErr r = (case chan_recv (rs_err r) of
     Some (e, c) \<Rightarrow> (Some e, r\<lparr>rs_err := c\<rparr>) | None \<Rightarrow> (None, r))"

definition consumeStart :: "responseState \<Rightarrow> ResponseStart option \<times> responseState" where
  "consumeStart r = (case chan_recv (rs_start r) of
     Some (st, c) \<Rightarrow> (Some st, r\<lparr>rs_start := c\<rparr>) | None \<Rightarrow> (None, r))"

definition consumeBody :: "responseState \<Rightarrow> bytes option \<times> responseState" where
  "consumeBody r = (case chan_recv (rs_body r) of
     Some (chunk, c) \<Rightarrow> (Some chunk, r\<lparr>rs_body := c\<rparr>) | None \<Rightarrow> (None, r))"

definition newWsState :: wsState where
  "newWsState = \<lparr>ws_fromClient = chan_make wsInboundQueueDepth, ws_done = False, ws_once = False\<rparr>"

definition ws_close :: "wsState \<Rightarrow> wsState" where
  "ws_close w = (if ws_once w then w else w\<lparr>ws_once := True, ws_done := True\<rparr>)"

subsection \<open>The session's tables\<close>

definition sess_put :: "nat \<Rightarrow> string \<Rightarrow> nat \<Rightarrow> Server \<Rightarrow> Server" where
  "sess_put sa rid ra s = upd_sess sa (\<lambda>x. x\<lparr>sess_inflight := map_put rid ra (sess_inflight x)\<rparr>) s"

definition tryStart :: "nat \<Rightarrow> string \<Rightarrow> int \<Rightarrow> Server \<Rightarrow> nat option \<times> Server" where
  "tryStart sa rid maxInflight s =
     (if maxInflight > 0 \<and> int (map_len (sess_inflight (heap_sess s ! sa))) \<ge> maxInflight then (None, s)
      else let ra = length (heap_rs s) in
        (Some ra, sess_put sa rid ra (s\<lparr>heap_rs := heap_rs s @ [newResponseState]\<rparr>)))"

definition sess_get :: "nat \<Rightarrow> string \<Rightarrow> Server \<Rightarrow> nat option" where
  "sess_get sa rid s = map_get (sess_inflight (heap_sess s ! sa)) rid"

definition sess_del :: "nat \<Rightarrow> string \<Rightarrow> Server \<Rightarrow> bool \<times> Server" where
  "sess_del sa rid s =
     (case map_get (sess_inflight (heap_sess s ! sa)) rid of
        None \<Rightarrow> (False, s)
      | Some _ \<Rightarrow> (True, upd_sess sa (\<lambda>x. x\<lparr>sess_inflight := map_del rid (sess_inflight x)\<rparr>) s))"

definition putWS :: "nat \<Rightarrow> string \<Rightarrow> nat \<Rightarrow> Server \<Rightarrow> Server" where
  "putWS sa rid wa s = upd_sess sa (\<lambda>x. x\<lparr>sess_wsMap := map_put rid wa (sess_wsMap x)\<rparr>) s"

definition getWS :: "nat \<Rightarrow> string \<Rightarrow> Server \<Rightarrow> nat option" where
  "getWS sa rid s = map_get (sess_wsMap (heap_sess s ! sa)) rid"

definition delWS :: "nat \<Rightarrow> string \<Rightarrow> Server \<Rightarrow> Server" where
  "delWS sa rid s = upd_sess sa (\<lambda>x. x\<lparr>sess_wsMap := map_del rid (sess_wsMap x)\<rparr>) s"

definition failAll :: "nat \<Rightarrow> go_error option \<Rightarrow> Server \<Rightarrow> nat \<times> Server" where
  "failAll sa err s =
     (let x = heap_sess s ! sa;
          released = map_len (sess_inflight x);
          s1 = fold (\<lambda>(rid, ra). upd_rs ra (rs_fail err)) (sess_inflight x) s;
          s2 = fold (\<lambda>(rid, wa). upd_ws wa ws_close) (sess_wsMap x) s1
      in (released, upd_sess sa (\<lambda>x. x\<lparr>sess_inflight := [], sess_wsMap := []\<rparr>) s2))"

definition shutdown_enter :: "nat \<Rightarrow> Server \<Rightarrow> Server" where
  "shutdown_enter sa s = upd_sess sa (\<lambda>x. x\<lparr>sess_once := True, sess_done := True\<rparr>) s"

definition shutdown :: "nat \<Rightarrow> go_error option \<Rightarrow> Server \<Rightarrow> nat \<times> Server" where
  "shutdown sa err s =
     (if sess_once (heap_sess s ! sa) then (0, s) else failAll sa err (shutdown_enter sa s))"

subsection \<open>Global slots and requests\<close>

definition tryReserveGlobalSlot :: "Server \<Rightarrow> bool \<times> Server" where
  "tryReserveGlobalSlot s =
     (if srv_maxTotalInflight s \<le> 0 then (True, s\<lparr>srv_totalInflight := srv_totalInflight s + 1\<rparr>)
      else if srv_totalInflight s \<ge> srv_maxTotalInflight s then (False, s)
      else (True, s\<lparr>srv_totalInflight := srv_totalInflight s + 1\<rparr>))"

definition releaseGlobalSlots :: "int \<Rightarrow> Server \<Rightarrow> Server" where
  "releaseGlobalSlots n s =
     (if n \<le> 0 then s else s\<lparr>srv_totalInflight := srv_totalInflight s - n\<rparr>)"

definition TotalInflight :: "Server \<Rightarrow> int" where
  "TotalInflight s = srv_totalInflight s"

definition MaxTotalInflight :: "Server \<Rightarrow> int" where
  "MaxTotalInflight s = srv_maxTotalInflight s"

definition tryStartRequest :: "nat \<Rightarrow> string \<Rightarrow> Server \<Rightarrow> (nat option \<times> inflightLimit) \<times> Server" where
  "tryStartRequest sa rid s =
     (let (ok, s1) = tryReserveGlobalSlot s in
      if \<not> ok then ((None, inflightLimitTotal), s1)
      else (case tryStart sa rid (srv_maxInflight s1) s1 of
              (None, s2) \<Rightarrow> ((None, inflightLimitPerSession), releaseGlobalSlots 1 s2)
            | (Some ra, s2) \<Rightarrow> ((Some ra, inflightLimitNone), s2)))"

definition finishRequest :: "nat \<Rightarrow> string \<Rightarrow> Server \<Rightarrow> Server" where
  "finishRequest sa rid s = (let (ok, s1) = sess_del sa rid s in if ok then releaseGlobalSlots 1 s1 else s1)"

definition inflightLimitMessage :: "inflightLimit \<Rightarrow> string" where
  "inflightLimitMessage limit =
     (case limit of
        inflightLimitTotal \<Rightarrow> ''too many total in-flight requests on edge''
      | _ \<Rightarrow> ''too many in-flight requests for tunnel session'')"

subsection \<open>The session registry\<close>

definition HasPublicHost :: "go_unicode \<Rightarrow> string \<Rightarrow> Server \<Rightarrow> bool" where
  "HasPublicHost U host s \<longleftrightarrow> map_get (srv_publicHosts s) (NormalizeHost U host) \<noteq> None"

definition PublicHosts :: "Server \<Rightarrow> string list" where
  "PublicHosts s = sort (map fst (srv_publicHosts s))"

definition getSession :: "string \<Rightarrow> Server \<Rightarrow> nat option" where
  "getSession publicHost s = map_get (srv_sessions s) publicHost"

definition putSession_swap :: "nat \<Rightarrow> Server \<Rightarrow> nat option \<times> Server" where
  "putSession_swap sa s =
     (let host = sess_publicHost (heap_sess s ! sa) in
      (map_get (srv_sessions s) host, s\<lparr>srv_sessions := map_put host sa (srv_sessions s)\<rparr>))"

definition putSession :: "nat \<Rightarrow> Server \<Rightarrow> Server" where
  "putSession sa s =
     (let (replaced, s1) = putSession_swap sa s in
      case replaced of
        Some old \<Rightarrow>
          if old \<noteq> sa then (let (n, s2) = shutdown old (Some ErrSessionReplaced) s1 in releaseGlobalSlots (int n) s2)
          else s1
      | None \<Rightarrow> s1)"

definition removeSession :: "string \<Rightarrow> nat \<Rightarrow> Server \<Rightarrow> Server" where
  "removeSession publicHost current s =
     (if map_get (srv_sessions s) publicHost = Some current
      then s\<lparr>srv_sessions := map_del publicHost (srv_sessions s)\<rparr> else s)"

subsection \<open>Construction\<close>

datatype new_error =
    InvalidPublicDomain domain_error | EmptyToken | InvalidUsername string label_error
  | ReservedUsername | DuplicateUsername string string string

text \<open>
  The loop of \<open>New\<close> over \<open>cfg.TokenUsers\<close>, with the three maps it fills: token to user, public
  hosts, and user to token.
\<close>

fun new_users ::
  "go_unicode \<Rightarrow> string \<Rightarrow> (string \<times> string) list \<Rightarrow>
   (string, string) gomap \<Rightarrow> (string, unit) gomap \<Rightarrow> (string, string) gomap \<Rightarrow>
   new_error + ((string, string) gomap \<times> (string, unit) gomap)" where
  "new_users U domain [] tokenUsers publicHosts userToToken = Inr (tokenUsers, publicHosts)"
| "new_users U domain ((token, username) # rest) tokenUsers publicHosts userToToken =
     (if token = [] then Inl EmptyToken
      else let username = NormalizeLabel U username in
        case ValidateLabel username of
          Some e \<Rightarrow> Inl (InvalidUsername username e)
        | None \<Rightarrow>
            if username = ''edge'' then Inl ReservedUsername
            else case map_get userToToken username of
              Some previousToken \<Rightarrow> Inl (DuplicateUsername username previousToken token)
            | None \<Rightarrow> new_users U domain rest (map_put token username tokenUsers)
                (map_put (Subdomain U username domain) () publicHosts) (map_put username token userToToken))"

definition positive_or :: "int \<Rightarrow> int \<Rightarrow> int" where
  "positive_or v d = (if v \<le> 0 then d else v)"

definition New :: "go_unicode \<Rightarrow> server_Config \<Rightarrow> new_error + Server" where
  "New U cfg =
     (let publicDomain = NormalizeDomain U (cfg_PublicDomain cfg) in
      case ValidateDomain U publicDomain of
        Some e \<Rightarrow> Inl (InvalidPublicDomain e)
      | None \<Rightarrow>
          case new_users U publicDomain (cfg_TokenUsers cfg) [] [] [] of
            Inl e \<Rightarrow> Inl e
          | Inr (tokenUsers, publicHosts) \<Rightarrow> Inr
              \<lparr>srv_publicDomain = publicDomain, srv_tokenUsers = tokenUsers, srv_publicHosts = publicHosts,
               srv_heartbeat = positive_or (cfg_HeartbeatInterval cfg) (10 * 10 ^ 9),
               srv_maxInflight = positive_or (cfg_MaxInflightPerSession cfg) defaultMaxInflightPerSession,
               srv_maxTotalInflight = positive_or (cfg_MaxTotalInflight cfg) defaultMaxTotalInflight,
               srv_totalInflight = 0, srv_sessions = [], srv_nextSessionID = 0, srv_nextRequestID = 0,
               heap_sess = [], heap_rs = [], heap_ws = []\<rparr>)"

subsection \<open>Frames\<close>

text \<open>Sends on a session's outbound queue: blocking, blocking with a context, and best effort.\<close>

definition push_outbound :: "nat \<Rightarrow> ServerFrame \<Rightarrow> Server \<Rightarrow> Server" where
  "push_outbound sa f s = upd_sess sa (\<lambda>x. x\<lparr>sess_outbound := chan_send f (sess_outbound x)\<rparr>) s"

definition sendFrame :: "nat \<Rightarrow> ServerFrame \<Rightarrow> Server \<Rightarrow> (go_error option \<times> Server) list" where
  "sendFrame sa f s =
     (if sess_done (heap_sess s ! sa) then [(Some ErrSessionClosed, s)] else []) @
     (if chan_send_ready (sess_outbound (heap_sess s ! sa)) then [(None, push_outbound sa f s)] else [])"

definition sendFrameCtx ::
  "go_error option \<Rightarrow> nat \<Rightarrow> ServerFrame \<Rightarrow> Server \<Rightarrow> (go_error option \<times> Server) list" where
  "sendFrameCtx ctxErr sa f s =
     (if sess_done (heap_sess s ! sa) then [(Some ErrSessionClosed, s)] else []) @
     (case ctxErr of Some e \<Rightarrow> [(Some e, s)] | None \<Rightarrow> []) @
     (if chan_send_ready (sess_outbound (heap_sess s ! sa)) then [(None, push_outbound sa f s)] else [])"

definition cancelRequest :: "nat \<Rightarrow> string \<Rightarrow> Server \<Rightarrow> Server list" where
  "cancelRequest sa rid s =
     (let f = Some (ServerFrame_CancelRequest \<lparr>CancelRequest_RequestId = rid\<rparr>);
          ready = (if sess_done (heap_sess s ! sa) then [s] else []) @
            (if chan_send_ready (sess_outbound (heap_sess s ! sa)) then [push_outbound sa f s] else [])
      in if ready = [] then [s] else ready)"

text \<open>
  \<open>handleClientFrame\<close>, split into what a frame does to the response state or the WebSocket state
  it addresses and the lookup of that state.
\<close>

definition deliver_start :: "ResponseStart \<Rightarrow> responseState \<Rightarrow> responseState list" where
  "deliver_start m r =
     (if chan_send_ready (rs_start r) then [r\<lparr>rs_start := chan_send m (rs_start r)\<rparr>] else []) @
     (if rs_done r then [r] else [])"

definition deliver_body :: "bytes \<Rightarrow> responseState \<Rightarrow> responseState list" where
  "deliver_body chunk r =
     (if chan_send_ready (rs_body r) then [r\<lparr>rs_body := chan_send chunk (rs_body r)\<rparr>] else []) @
     (if rs_done r then [r] else [])"

definition deliver_ws :: "bytes \<Rightarrow> wsState \<Rightarrow> wsState list" where
  "deliver_ws payload w =
     (if chan_send_ready (ws_fromClient w) then [w\<lparr>ws_fromClient := chan_send payload (ws_fromClient w)\<rparr>] else []) @
     (if ws_done w then [w] else [])"

definition with_rs :: "nat \<Rightarrow> string \<Rightarrow> (responseState \<Rightarrow> responseState list) \<Rightarrow> Server \<Rightarrow> Server list" where
  "with_rs sa rid g s =
     (case sess_get sa rid s of
        None \<Rightarrow> [s]
      | Some ra \<Rightarrow> map (\<lambda>r. upd_rs ra (\<lambda>_. r) s) (g (heap_rs s ! ra)))"

definition with_ws :: "nat \<Rightarrow> string \<Rightarrow> (wsState \<Rightarrow> wsState list) \<Rightarrow> Server \<Rightarrow> Server list" where
  "with_ws sa rid g s =
     (case getWS sa rid s of
        None \<Rightarrow> [s]
      | Some wa \<Rightarrow> map (\<lambda>w. upd_ws wa (\<lambda>_. w) s) (g (heap_ws s ! wa)))"

definition handleClientFrame :: "nat \<Rightarrow> ClientFrame \<Rightarrow> Server \<Rightarrow> Server list" where
  "handleClientFrame sa frame s =
     (case frame of
        Some (ClientFrame_ResponseStart m) \<Rightarrow> with_rs sa (ResponseStart_RequestId m) (deliver_start m) s
      | Some (ClientFrame_ResponseBody m) \<Rightarrow>
          with_rs sa (ResponseBody_RequestId m) (deliver_body (ResponseBody_Chunk m)) s
      | Some (ClientFrame_ResponseEnd m) \<Rightarrow> with_rs sa (ResponseEnd_RequestId m) (\<lambda>r. [rs_finish r]) s
      | Some (ClientFrame_ResponseError m) \<Rightarrow>
          with_rs sa (ResponseError_RequestId m)
            (\<lambda>r. [rs_fail (Some (ErrNew (ResponseError_Message m))) r]) s
      | Some (ClientFrame_WsData m) \<Rightarrow> with_ws sa (WebSocketData_RequestId m) (deliver_ws (WebSocketData_Payload m)) s
      | Some (ClientFrame_WsClose m) \<Rightarrow> with_ws sa (WebSocketClose_RequestId m) (\<lambda>w. [ws_close w]) s
      | Some (ClientFrame_Pong m) \<Rightarrow> [s]
      | Some (ClientFrame_Register m) \<Rightarrow> [s]
      | None \<Rightarrow> [s])"

subsection \<open>\<open>Connect\<close>: registration and end of a session\<close>

datatype connect_error = NotRegister | MissingToken | InvalidToken

definition new_session :: "string \<Rightarrow> string \<Rightarrow> Server \<Rightarrow> nat \<times> Server" where
  "new_session publicHost username s =
     (let n = srv_nextSessionID s + 1;
          x = \<lparr>sess_id = n, sess_publicHost = publicHost, sess_username = username,
               sess_outbound = chan_make sessionOutboundQueueDepth, sess_done = False, sess_once = False,
               sess_inflight = [], sess_wsMap = []\<rparr>
      in (length (heap_sess s), s\<lparr>srv_nextSessionID := n, heap_sess := heap_sess s @ [x]\<rparr>))"

definition Connect_authenticate :: "ClientFrame \<Rightarrow> Server \<Rightarrow> connect_error + string" where
  "Connect_authenticate first s =
     (case GetRegister first of
        None \<Rightarrow> Inl NotRegister
      | Some reg \<Rightarrow>
          if Register_Token reg = [] then Inl MissingToken
          else case map_get (srv_tokenUsers s) (Register_Token reg) of
            None \<Rightarrow> Inl InvalidToken
          | Some username \<Rightarrow> Inr username)"

definition Connect_open :: "go_unicode \<Rightarrow> ClientFrame \<Rightarrow> Server \<Rightarrow> connect_error + (nat \<times> Server)" where
  "Connect_open U first s =
     (case Connect_authenticate first s of
        Inl e \<Rightarrow> Inl e
      | Inr username \<Rightarrow>
          let (sa, s1) = new_session (Subdomain U username (srv_publicDomain s)) username s
          in Inr (sa, putSession sa s1))"

definition Connect_close :: "nat \<Rightarrow> go_error option \<Rightarrow> Server \<Rightarrow> Server" where
  "Connect_close sa recvErr s =
     (let shutdownErr = (case recvErr of Some e \<Rightarrow> e | None \<Rightarrow> ErrSessionClosed);
          (n, s1) = shutdown sa (Some shutdownErr) s;
          s2 = releaseGlobalSlots (int n) s1
      in removeSession (sess_publicHost (heap_sess s2 ! sa)) sa s2)"

text \<open>Well-formed response states: queue bounds, and \<open>done\<close> is closed exactly when the once ran.\<close>

definition rs_wf :: "responseState \<Rightarrow> bool" where
  "rs_wf r \<longleftrightarrow> chan_wf (rs_start r) \<and> ch_cap (rs_start r) = 1 \<and> chan_wf (rs_body r) \<and>
     ch_cap (rs_body r) = responseBodyQueueDepth \<and> chan_wf (rs_err r) \<and> ch_cap (rs_err r) = 1 \<and>
     rs_done r = rs_once r \<and> (ch_buf (rs_err r) \<noteq> [] \<longrightarrow> rs_done r)"

subsection \<open>Rewriting state updates\<close>

lemma upd_sess_simps [simp, srv_simps]:
  "heap_rs (upd_sess a f s) = heap_rs s" "heap_ws (upd_sess a f s) = heap_ws s"
  "srv_totalInflight (upd_sess a f s) = srv_totalInflight s"
  "srv_sessions (upd_sess a f s) = srv_sessions s"
  "srv_maxInflight (upd_sess a f s) = srv_maxInflight s"
  "srv_maxTotalInflight (upd_sess a f s) = srv_maxTotalInflight s"
  "srv_nextRequestID (upd_sess a f s) = srv_nextRequestID s"
  "srv_tokenUsers (upd_sess a f s) = srv_tokenUsers s"
  "srv_publicHosts (upd_sess a f s) = srv_publicHosts s"
  "srv_publicDomain (upd_sess a f s) = srv_publicDomain s"
  "length (heap_sess (upd_sess a f s)) = length (heap_sess s)"
  by (simp_all add: upd_sess_def)

lemma upd_rs_simps [simp, srv_simps]:
  "heap_sess (upd_rs a g s) = heap_sess s" "heap_ws (upd_rs a g s) = heap_ws s"
  "srv_totalInflight (upd_rs a g s) = srv_totalInflight s"
  "srv_sessions (upd_rs a g s) = srv_sessions s"
  "srv_maxInflight (upd_rs a g s) = srv_maxInflight s"
  "srv_maxTotalInflight (upd_rs a g s) = srv_maxTotalInflight s"
  "srv_nextRequestID (upd_rs a g s) = srv_nextRequestID s"
  "srv_tokenUsers (upd_rs a g s) = srv_tokenUsers s"
  "srv_publicDomain (upd_rs a g s) = srv_publicDomain s"
  by (simp_all add: upd_rs_def)

lemma upd_ws_simps [simp, srv_simps]:
  "heap_sess (upd_ws a h s) = heap_sess s" "heap_rs (upd_ws a h s) = heap_rs s"
  "srv_totalInflight (upd_ws a h s) = srv_totalInflight s"
  "srv_sessions (upd_ws a h s) = srv_sessions s"
  "srv_maxInflight (upd_ws a h s) = srv_maxInflight s"
  "srv_maxTotalInflight (upd_ws a h s) = srv_maxTotalInflight s"
  "srv_nextRequestID (upd_ws a h s) = srv_nextRequestID s"
  "srv_tokenUsers (upd_ws a h s) = srv_tokenUsers s"
  "srv_publicDomain (upd_ws a h s) = srv_publicDomain s"
  by (simp_all add: upd_ws_def)

lemma heap_sess_upd [simp]:
  "a < length (heap_sess s) \<Longrightarrow> heap_sess (upd_sess a f s) ! a = f (heap_sess s ! a)"
  "a \<noteq> b \<Longrightarrow> heap_sess (upd_sess a f s) ! b = heap_sess s ! b"
  by (simp_all add: upd_sess_def)

lemma fold_upd_rs:
  "fold (\<lambda>(i, ra). upd_rs ra f) xs s =
     s\<lparr>heap_rs := fold (\<lambda>(i, ra) h. h[ra := f (h ! ra)]) xs (heap_rs s)\<rparr>"
  by (induction xs arbitrary: s) (auto simp: upd_rs_def)

lemma fold_upd_ws:
  "fold (\<lambda>(i, wa). upd_ws wa f) xs s =
     s\<lparr>heap_ws := fold (\<lambda>(i, wa) h. h[wa := f (h ! wa)]) xs (heap_ws s)\<rparr>"
  by (induction xs arbitrary: s) (auto simp: upd_ws_def)

lemma failAll_eq:
  "failAll sa err s =
     (map_len (sess_inflight (heap_sess s ! sa)),
      s\<lparr>heap_rs := fold (\<lambda>(i, ra) h. h[ra := rs_fail err (h ! ra)]) (sess_inflight (heap_sess s ! sa)) (heap_rs s),
        heap_ws := fold (\<lambda>(i, wa) h. h[wa := ws_close (h ! wa)]) (sess_wsMap (heap_sess s ! sa)) (heap_ws s),
        heap_sess := (heap_sess s)[sa := (heap_sess s ! sa)\<lparr>sess_inflight := [], sess_wsMap := []\<rparr>]\<rparr>)"
  by (simp add: failAll_def Let_def fold_upd_rs fold_upd_ws upd_sess_def)

lemma releaseGlobalSlots_simps [simp, srv_simps]:
  "heap_sess (releaseGlobalSlots n s) = heap_sess s" "heap_rs (releaseGlobalSlots n s) = heap_rs s"
  "heap_ws (releaseGlobalSlots n s) = heap_ws s"
  "srv_sessions (releaseGlobalSlots n s) = srv_sessions s"
  "srv_maxInflight (releaseGlobalSlots n s) = srv_maxInflight s"
  "srv_maxTotalInflight (releaseGlobalSlots n s) = srv_maxTotalInflight s"
  "srv_nextRequestID (releaseGlobalSlots n s) = srv_nextRequestID s"
  "0 \<le> n \<Longrightarrow> srv_totalInflight (releaseGlobalSlots n s) = srv_totalInflight s - n"
  by (simp_all add: releaseGlobalSlots_def)

subsection \<open>Response states\<close>

lemma rs_wf_new: "rs_wf newResponseState"
  by (simp add: rs_wf_def newResponseState_def chan_make_def chan_wf_def)

lemma rs_wf_finish: "rs_wf r \<Longrightarrow> rs_wf (rs_finish r)"
  by (simp add: rs_wf_def rs_finish_def)

lemma rs_wf_fail: "rs_wf r \<Longrightarrow> rs_wf (rs_fail e r)"
  by (auto simp: rs_wf_def rs_fail_def chan_wf_def chan_send_def chan_send_ready_def split: option.splits)

lemma rs_wf_deliver:
  "rs_wf r \<Longrightarrow> r' \<in> set (deliver_start m r) \<Longrightarrow> rs_wf r'"
  "rs_wf r \<Longrightarrow> r' \<in> set (deliver_body c r) \<Longrightarrow> rs_wf r'"
  by (auto simp: rs_wf_def deliver_start_def deliver_body_def chan_wf_def chan_send_def chan_send_ready_def
      split: if_splits)

lemma rs_wf_consume:
  "rs_wf r \<Longrightarrow> rs_wf (snd (consumeErr r))" "rs_wf r \<Longrightarrow> rs_wf (snd (consumeStart r))"
  "rs_wf r \<Longrightarrow> rs_wf (snd (consumeBody r))"
  by (auto simp: rs_wf_def consumeErr_def consumeStart_def consumeBody_def chan_recv_def chan_wf_def
      split: list.splits)

lemma rs_fail_done: "rs_wf r \<Longrightarrow> rs_done (rs_fail e r)"
  by (auto simp: rs_fail_def rs_wf_def split: option.splits)

lemma rs_fail_keeps_done: "rs_done r \<Longrightarrow> rs_done (rs_fail e r)"
  by (auto simp: rs_fail_def split: option.splits)

lemma fold_fail_wf:
  "\<forall>r \<in> set h. rs_wf r \<Longrightarrow> \<forall>(i, ra) \<in> set xs. ra < length h \<Longrightarrow>
     \<forall>r \<in> set (fold (\<lambda>(i, ra) h. h[ra := rs_fail e (h ! ra)]) xs h). rs_wf r"
proof (induction xs arbitrary: h)
  case (Cons x xs)
  obtain i ra where x: "x = (i, ra)" by (cases x)
  have "\<forall>r \<in> set (h[ra := rs_fail e (h ! ra)]). rs_wf r"
    using Cons.prems x by (auto dest!: set_update_subset_insert [THEN subsetD] intro: rs_wf_fail)
  then show ?case using Cons x by auto
qed simp

lemma fold_fail_keeps:
  "ra < length h \<Longrightarrow> rs_done (h ! ra) \<Longrightarrow>
     rs_done (fold (\<lambda>(i, ra) h. h[ra := rs_fail e (h ! ra)]) xs h ! ra)"
proof (induction xs arbitrary: h)
  case (Cons x xs)
  obtain i rb where x: "x = (i, rb)" by (cases x)
  have "rs_done (h[rb := rs_fail e (h ! rb)] ! ra)"
    using Cons.prems by (cases "rb = ra") (simp_all add: rs_fail_keeps_done)
  then show ?case using Cons x by simp
qed simp

lemma fold_fail_done:
  "\<forall>r \<in> set h. rs_wf r \<Longrightarrow> \<forall>(i, ra) \<in> set xs. ra < length h \<Longrightarrow> (i, ra) \<in> set xs \<Longrightarrow>
     rs_done (fold (\<lambda>(i, ra) h. h[ra := rs_fail e (h ! ra)]) xs h ! ra)"
proof (induction xs arbitrary: h)
  case (Cons x xs)
  obtain j rb where x: "x = (j, rb)" by (cases x)
  let ?h = "h[rb := rs_fail e (h ! rb)]"
  have wf: "\<forall>r \<in> set ?h. rs_wf r"
    using Cons.prems(1,2) x by (auto dest!: set_update_subset_insert [THEN subsetD] intro: rs_wf_fail)
  show ?case
  proof (cases "rb = ra")
    case True
    then have "rs_done (?h ! ra)" "ra < length ?h"
      using Cons.prems(1,2) x by (auto simp: rs_fail_done)
    then show ?thesis using x True fold_fail_keeps [of ra ?h] by simp
  next
    case False
    then show ?thesis using Cons.IH [OF wf] Cons.prems x by auto
  qed
qed simp

subsection \<open>Requests\<close>

lemma tryStartRequest_eq:
  "tryStartRequest sa rid s =
     (if srv_maxTotalInflight s > 0 \<and> srv_totalInflight s \<ge> srv_maxTotalInflight s
      then ((None, inflightLimitTotal), s)
      else if srv_maxInflight s > 0 \<and> int (map_len (sess_inflight (heap_sess s ! sa))) \<ge> srv_maxInflight s
      then ((None, inflightLimitPerSession), s)
      else ((Some (length (heap_rs s)), inflightLimitNone),
        sess_put sa rid (length (heap_rs s))
          (s\<lparr>srv_totalInflight := srv_totalInflight s + 1, heap_rs := heap_rs s @ [newResponseState]\<rparr>)))"
  by (auto simp: tryStartRequest_def tryReserveGlobalSlot_def tryStart_def releaseGlobalSlots_def Let_def)

lemma sess_put_inflight:
  "sa < length (heap_sess s) \<Longrightarrow>
     sess_inflight (heap_sess (sess_put sa rid ra s) ! sa) = map_put rid ra (sess_inflight (heap_sess s ! sa))"
  by (simp add: sess_put_def)

subsection \<open>Construction and authentication\<close>

lemma new_users_ok:
  "new_users U d us tu ph ut = Inr (tu', ph') \<Longrightarrow>
     (\<forall>(t, u) \<in> set us. t \<noteq> [] \<and> ldh_label (NormalizeLabel U u) \<and> NormalizeLabel U u \<noteq> ''edge''
        \<and> map_get ut (NormalizeLabel U u) = None)
     \<and> distinct (map (NormalizeLabel U \<circ> snd) us)"
proof (induction U d us tu ph ut rule: new_users.induct)
  case (2 U d t u rest tu ph ut)
  let ?n = "NormalizeLabel U u"
  have ok: "t \<noteq> []" "ValidateLabel ?n = None" "?n \<noteq> ''edge''" "map_get ut ?n = None"
    and rest: "new_users U d rest (map_put t ?n tu) (map_put (Subdomain U ?n d) () ph) (map_put ?n t ut) = Inr (tu', ph')"
    using "2.prems" by (auto simp: Let_def split: if_splits option.splits)
  note IH = "2.IH" [OF ok(1) refl ok(2,3,4) rest]
  have "?n \<noteq> NormalizeLabel U u' \<and> map_get ut (NormalizeLabel U u') = None" if "(t', u') \<in> set rest" for t' u'
    using IH that by (auto simp: gm.get_put split: if_splits)
  then show ?case using IH ok by (fastforce simp: ValidateLabel_None)
qed simp

lemma new_users_accepts:
  assumes "\<forall>(t, u) \<in> set us. t \<noteq> [] \<and> ldh_label (NormalizeLabel U u) \<and> NormalizeLabel U u \<noteq> ''edge''
      \<and> map_get ut (NormalizeLabel U u) = None"
    and "distinct (map (NormalizeLabel U \<circ> snd) us)"
  shows "\<exists>r. new_users U d us tu ph ut = Inr r"
  using assms
proof (induction us arbitrary: tu ph ut)
  case (Cons x us)
  obtain t u where x: "x = (t, u)" by (cases x)
  have "map_get (map_put (NormalizeLabel U u) t ut) (NormalizeLabel U u') = None" if "(t', u') \<in> set us" for t' u'
    using Cons.prems that x by (force simp: gm.get_put)
  then have "\<exists>r. new_users U d us (map_put t (NormalizeLabel U u) tu)
      (map_put (Subdomain U (NormalizeLabel U u) d) () ph) (map_put (NormalizeLabel U u) t ut) = Inr r"
    by (intro Cons.IH) (use Cons.prems in auto)
  then show ?case using Cons.prems x ValidateLabel_None [of "NormalizeLabel U u"] by auto
qed simp

lemma new_users_maps:
  "new_users U d us tu ph ut = Inr (tu', ph') \<Longrightarrow> map_wf us \<Longrightarrow>
     map_get tu' t = (case map_get us t of Some u \<Rightarrow> Some (NormalizeLabel U u) | None \<Rightarrow> map_get tu t)
     \<and> (map_get ph' h \<noteq> None \<longleftrightarrow>
          map_get ph h \<noteq> None \<or> (\<exists>(t, u) \<in> set us. h = Subdomain U (NormalizeLabel U u) d))"
proof (induction U d us tu ph ut rule: new_users.induct)
  case (1 U d tu ph ut)
  then show ?case by (simp add: map_get_def)
next
  case (2 U d t' u rest tu ph ut)
  let ?n = "NormalizeLabel U u"
  have ok: "t' \<noteq> []" "ValidateLabel ?n = None" "?n \<noteq> ''edge''" "map_get ut ?n = None"
    and rest: "new_users U d rest (map_put t' ?n tu) (map_put (Subdomain U ?n d) () ph) (map_put ?n t' ut) = Inr (tu', ph')"
    using "2.prems" by (auto simp: Let_def split: if_splits option.splits)
  have "map_wf rest" "map_get rest t' = None"
    using "2.prems"(2) by (auto simp: map_wf_def map_get_def map_of_eq_None_iff)
  then show ?case
    using "2.IH" [OF ok(1) refl ok(2,3,4) rest \<open>map_wf rest\<close>]
    by (simp add: gm.get_put map_get_Cons split: option.split)
qed

lemma New_Inr:
  assumes "New U cfg = Inr s"
  shows "ValidateDomain U (NormalizeDomain U (cfg_PublicDomain cfg)) = None"
    "srv_publicDomain s = NormalizeDomain U (cfg_PublicDomain cfg)"
    "new_users U (srv_publicDomain s) (cfg_TokenUsers cfg) [] [] [] = Inr (srv_tokenUsers s, srv_publicHosts s)"
    "srv_maxInflight s > 0" "srv_maxTotalInflight s > 0" "srv_heartbeat s > 0"
    "srv_totalInflight s = 0" "srv_sessions s = []" "heap_sess s = []" "srv_nextRequestID s = 0"
  using assms
  by (auto simp: New_def Let_def positive_or_def defaultMaxInflightPerSession_def defaultMaxTotalInflight_def
      split: option.splits sum.splits)

subsection \<open>Sessions\<close>

definition server_wf :: "Server \<Rightarrow> bool" where
  "server_wf s \<longleftrightarrow>
     (\<forall>r \<in> set (heap_rs s). rs_wf r)
     \<and> (\<forall>x \<in> set (heap_sess s). map_wf (sess_inflight x)
          \<and> (\<forall>(i, ra) \<in> set (sess_inflight x). ra < length (heap_rs s)))
     \<and> (\<forall>(h, sa) \<in> set (srv_sessions s). sa < length (heap_sess s) \<and> sess_publicHost (heap_sess s ! sa) = h)"

lemma shutdown_fresh:
  assumes "\<not> sess_once (heap_sess s ! sa)" "sa < length (heap_sess s)" "server_wf s"
    and "shutdown sa err s = (n, s')"
  shows "n = map_len (sess_inflight (heap_sess s ! sa))"
    and "heap_sess s' = (heap_sess s)[sa := (heap_sess s ! sa)
      \<lparr>sess_once := True, sess_done := True, sess_inflight := [], sess_wsMap := []\<rparr>]"
    and "srv_totalInflight s' = srv_totalInflight s" "srv_sessions s' = srv_sessions s"
    and "map_get (sess_inflight (heap_sess s ! sa)) rid = Some ra \<Longrightarrow> rs_done (heap_rs s' ! ra)"
proof -
  let ?x = "heap_sess s ! sa"
  have eq: "shutdown sa err s = failAll sa err (shutdown_enter sa s)" using assms(1) by (simp add: shutdown_def)
  show "n = map_len (sess_inflight ?x)"
    "heap_sess s' = (heap_sess s)[sa := ?x\<lparr>sess_once := True, sess_done := True, sess_inflight := [], sess_wsMap := []\<rparr>]"
    "srv_totalInflight s' = srv_totalInflight s" "srv_sessions s' = srv_sessions s"
    using assms(2,4) unfolding eq failAll_eq by (auto simp: shutdown_enter_def upd_sess_def)
  have h: "heap_rs s' = fold (\<lambda>(i, ra) h. h[ra := rs_fail err (h ! ra)]) (sess_inflight ?x) (heap_rs s)"
    using assms(2,4) unfolding eq failAll_eq by (auto simp: shutdown_enter_def)
  have wf: "\<forall>r \<in> set (heap_rs s). rs_wf r" "\<forall>(i, ra) \<in> set (sess_inflight ?x). ra < length (heap_rs s)"
    using assms(2,3) by (auto simp: server_wf_def)
  show "rs_done (heap_rs s' ! ra)" if "map_get (sess_inflight ?x) rid = Some ra"
    unfolding h using fold_fail_done [OF wf, of rid ra] that by (auto simp: map_get_def dest: map_of_SomeD)
qed

lemma putSession_replaced:
  assumes "getSession (sess_publicHost (heap_sess s ! sa)) s = Some old" "old \<noteq> sa"
    and "shutdown old (Some ErrSessionReplaced)
      (s\<lparr>srv_sessions := map_put (sess_publicHost (heap_sess s ! sa)) sa (srv_sessions s)\<rparr>) = (n, s2)"
  shows "putSession sa s = releaseGlobalSlots (int n) s2"
  using assms by (simp add: putSession_def putSession_swap_def getSession_def Let_def)

lemma shutdown_again: "sess_once (heap_sess s ! sa) \<Longrightarrow> shutdown sa err s = (0, s)"
  by (simp add: shutdown_def)

subsection \<open>Properties\<close>

text \<open>
  C16: \<open>New\<close> accepts a configuration exactly when the public domain is valid, no token is empty,
  every normalised username is a valid label other than \<open>edge\<close>, and no two tokens share a
  username.  The verdict does not depend on the order in which the token map is visited.
\<close>
theorem New_accepts:
  "(\<exists>s. New U cfg = Inr s) \<longleftrightarrow>
     ValidateDomain U (NormalizeDomain U (cfg_PublicDomain cfg)) = None
     \<and> list_all (\<lambda>(t, u). t \<noteq> [] \<and> ldh_label (NormalizeLabel U u) \<and> NormalizeLabel U u \<noteq> ''edge'') (cfg_TokenUsers cfg)
     \<and> distinct (map (NormalizeLabel U \<circ> snd) (cfg_TokenUsers cfg))"
  (is "?L \<longleftrightarrow> ?R")
proof
  assume ?L
  then obtain s where "New U cfg = Inr s" by blast
  from New_Inr [OF this] new_users_ok [OF New_Inr(3) [OF this]]
  show ?R by (auto simp: list_all_iff)
next
  assume r: ?R
  then obtain tu ph where
    "new_users U (NormalizeDomain U (cfg_PublicDomain cfg)) (cfg_TokenUsers cfg) [] [] [] = Inr (tu, ph)"
    using new_users_accepts [of "cfg_TokenUsers cfg" U "[]"] by (force simp: list_all_iff gm.get_mt)
  with r show ?L by (simp add: New_def Let_def)
qed

text \<open>
  The server \<open>New\<close> returns authenticates exactly the configured tokens, each as its
  normalised username; it publishes exactly the hosts of these users; it starts with no session
  and no slot in use, and both in-flight limits are positive, so that the branches that would
  leave them unlimited are never taken.
\<close>
lemma New_server:
  assumes "New U cfg = Inr s" "map_wf (cfg_TokenUsers cfg)"
  shows "map_get (srv_tokenUsers s) t = map_option (NormalizeLabel U) (map_get (cfg_TokenUsers cfg) t)
    \<and> (map_get (srv_publicHosts s) h \<noteq> None \<longleftrightarrow>
         h \<in> (\<lambda>(t, u). Subdomain U (NormalizeLabel U u) (srv_publicDomain s)) ` set (cfg_TokenUsers cfg))
    \<and> srv_sessions s = [] \<and> srv_totalInflight s = 0
    \<and> 0 < srv_maxInflight s \<and> 0 < srv_maxTotalInflight s \<and> 0 < srv_heartbeat s"
  using new_users_maps [OF New_Inr(3) [OF assms(1)] assms(2), of t h] New_Inr [OF assms(1)]
  by (auto simp: gm.get_mt split: option.splits)

definition demo_config :: server_Config where
  "demo_config = \<lparr>cfg_PublicDomain = ''Example.com'', cfg_TokenUsers = [(''tok'', ''Demo'')],
     cfg_HeartbeatInterval = 0, cfg_MaxInflightPerSession = 1, cfg_MaxTotalInflight = 2\<rparr>"

definition demo_server :: Server where
  "demo_server =
     \<lparr>srv_publicDomain = ''example.com'', srv_tokenUsers = [(''tok'', ''demo'')],
      srv_publicHosts = [(''demo.example.com'', ())], srv_heartbeat = 10000000000,
      srv_maxInflight = 1, srv_maxTotalInflight = 2, srv_totalInflight = 0, srv_sessions = [],
      srv_nextSessionID = 0, srv_nextRequestID = 0, heap_sess = [], heap_rs = [], heap_ws = []\<rparr>"

lemma New_demo: "New no_tables demo_config = Inr demo_server"
  by code_simp

theorem New_server_witness: "map_get (srv_tokenUsers demo_server) ''tok'' = Some ''demo''"
proof -
  have "map_wf (cfg_TokenUsers demo_config)" "NormalizeLabel no_tables ''Demo'' = ''demo''" by code_simp+
  then show ?thesis
    using New_server [OF New_demo, of "''tok''"] by (simp add: demo_config_def map_get_def)
qed

text \<open>
  \<open>tryStartRequest\<close> on every branch: a full edge or a full session refuses the request and
  leaves the whole server state as it was, the tentative global slot included; otherwise the
  request takes one slot and is registered with a fresh response state.
\<close>
lemma tryStartRequest_cases:
  "tryStartRequest sa rid s =
     (if srv_maxTotalInflight s > 0 \<and> srv_totalInflight s \<ge> srv_maxTotalInflight s
      then ((None, inflightLimitTotal), s)
      else if srv_maxInflight s > 0 \<and> int (map_len (sess_inflight (heap_sess s ! sa))) \<ge> srv_maxInflight s
      then ((None, inflightLimitPerSession), s)
      else ((Some (length (heap_rs s)), inflightLimitNone),
        sess_put sa rid (length (heap_rs s))
          (s\<lparr>srv_totalInflight := srv_totalInflight s + 1, heap_rs := heap_rs s @ [newResponseState]\<rparr>)))"
  by (rule tryStartRequest_eq)

text \<open>
  \<open>finishRequest\<close> undoes \<open>tryStartRequest\<close>: for a new request identifier the global counter
  and the session's table are back to what they were, and a second \<open>finishRequest\<close>, or one that
  comes after a shutdown emptied the table, releases nothing.
\<close>
lemma finishRequest_undoes:
  assumes "tryStartRequest sa rid s = ((Some ra, limit), s1)" "sa < length (heap_sess s)"
    and "sess_get sa rid s = None"
  shows "srv_totalInflight s1 = srv_totalInflight s + 1
    \<and> sess_get sa rid s1 = Some ra
    \<and> srv_totalInflight (finishRequest sa rid s1) = srv_totalInflight s
    \<and> map_get (sess_inflight (heap_sess (finishRequest sa rid s1) ! sa)) = map_get (sess_inflight (heap_sess s ! sa))
    \<and> finishRequest sa rid (finishRequest sa rid s1) = finishRequest sa rid s1"
proof -
  let ?s = "s\<lparr>srv_totalInflight := srv_totalInflight s + 1, heap_rs := heap_rs s @ [newResponseState]\<rparr>"
  have s1: "s1 = sess_put sa rid (length (heap_rs s)) ?s" and ra: "ra = length (heap_rs s)"
    using assms(1) by (auto simp: tryStartRequest_eq split: if_splits)
  have i1: "sess_inflight (heap_sess s1 ! sa) = map_put rid ra (sess_inflight (heap_sess s ! sa))"
    using assms(2) by (simp add: s1 ra sess_put_inflight)
  have len: "sa < length (heap_sess s1)" using assms(2) by (simp add: s1 sess_put_def)
  let ?f = "finishRequest sa rid s1"
  have f: "?f = releaseGlobalSlots 1 (upd_sess sa (\<lambda>x. x\<lparr>sess_inflight := map_del rid (sess_inflight x)\<rparr>) s1)"
    by (simp add: finishRequest_def sess_del_def i1 gm.get_put)
  have fi: "sess_inflight (heap_sess ?f ! sa) = map_del rid (map_put rid ra (sess_inflight (heap_sess s ! sa)))"
    using len i1 by (simp add: f)
  have get: "map_get (sess_inflight (heap_sess ?f ! sa)) = map_get (sess_inflight (heap_sess s ! sa))"
    using assms(3) by (auto simp: fi gm.get_del gm.get_put sess_get_def fun_eq_iff)
  moreover have "finishRequest sa rid ?f = ?f"
    using assms(3) by (simp add: finishRequest_def [of _ _ ?f] sess_del_def get sess_get_def)
  moreover have "srv_totalInflight s1 = srv_totalInflight s + 1" by (simp add: s1 sess_put_def)
  ultimately show ?thesis by (simp add: f sess_get_def i1 gm.get_put)
qed

definition demo_session :: Server where
  "demo_session = snd (new_session ''demo.example.com'' ''demo'' demo_server)"

theorem finishRequest_undoes_witness:
  "srv_totalInflight (finishRequest 0 ''1'' (snd (tryStartRequest 0 ''1'' demo_session))) = 0"
proof -
  have "fst (tryStartRequest 0 ''1'' demo_session) = (Some 0, inflightLimitNone)"
    "0 < length (heap_sess demo_session)" "sess_get 0 ''1'' demo_session = None"
    "srv_totalInflight demo_session = 0" by code_simp+
  then show ?thesis
    using finishRequest_undoes [of 0 "''1''" demo_session 0 inflightLimitNone] by (metis prod.collapse)
qed

text \<open>
  C13: the newest connection of a user replaces the old one.  The registry maps the host to the new
  session; the old session is closed and its tables are empty, every request it carried sees its
  \<open>done\<close> channel closed, and exactly its slots are given back.  When the old connection ends
  later, it neither releases slots again nor unregisters the new session.
\<close>
theorem putSession_newest_wins:
  assumes "server_wf s" "sa < length (heap_sess s)"
    and "host = sess_publicHost (heap_sess s ! sa)"
    and "getSession host s = Some old" "old \<noteq> sa" "\<not> sess_once (heap_sess s ! old)"
    and "s' = putSession sa s"
  shows "getSession host s' = Some sa
    \<and> sess_done (heap_sess s' ! old) \<and> sess_inflight (heap_sess s' ! old) = [] \<and> sess_wsMap (heap_sess s' ! old) = []
    \<and> heap_sess s' ! sa = heap_sess s ! sa
    \<and> (\<forall>rid ra. sess_get old rid s = Some ra \<longrightarrow> rs_done (heap_rs s' ! ra))
    \<and> srv_totalInflight s' = srv_totalInflight s - int (map_len (sess_inflight (heap_sess s ! old)))
    \<and> getSession host (Connect_close old e s') = Some sa
    \<and> srv_totalInflight (Connect_close old e s') = srv_totalInflight s'"
proof -
  let ?s = "s\<lparr>srv_sessions := map_put host sa (srv_sessions s)\<rparr>"
  obtain n s2 where sd: "shutdown old (Some ErrSessionReplaced) ?s = (n, s2)" by fastforce
  have "(host, old) \<in> set (srv_sessions s)"
    using assms(4) by (simp add: getSession_def map_get_def map_of_SomeD)
  then have old: "old < length (heap_sess s)" "sess_publicHost (heap_sess s ! old) = host"
    using assms(1) by (auto simp: server_wf_def)
  have wf: "server_wf ?s"
    unfolding server_wf_def
  proof (intro conjI)
    show "\<forall>(h, sa') \<in> set (srv_sessions ?s). sa' < length (heap_sess ?s) \<and> sess_publicHost (heap_sess ?s ! sa') = h"
      using assms(1-3) set_map_put [of host sa "srv_sessions s"] by (fastforce simp: server_wf_def)
  qed (use assms(1) in \<open>auto simp: server_wf_def\<close>)
  have s': "s' = releaseGlobalSlots (int n) s2"
    using assms(3-5,7) putSession_replaced [OF _ _ sd [unfolded assms(3)]] by simp
  have hs: "heap_sess s' = (heap_sess s)[old := (heap_sess s ! old)
      \<lparr>sess_once := True, sess_done := True, sess_inflight := [], sess_wsMap := []\<rparr>]"
    using shutdown_fresh(2) [OF _ _ wf sd] assms(6) old(1) by (simp add: s')
  have close: "Connect_close old e s' = removeSession host old s'"
    using hs old by (simp add: Connect_close_def shutdown_again releaseGlobalSlots_def)
  have "srv_sessions s' = map_put host sa (srv_sessions s)"
    using shutdown_fresh(4) [OF _ _ wf sd] assms(6) old(1) by (simp add: s')
  then have g: "getSession host s' = Some sa" by (simp add: getSession_def gm.get_put)
  moreover have "removeSession host old s' = s'"
    using g assms(5) by (simp add: removeSession_def getSession_def)
  moreover have "rs_done (heap_rs s' ! ra)" if "sess_get old rid s = Some ra" for rid ra
    using shutdown_fresh(5) [OF _ _ wf sd] assms(6) old(1) that by (simp add: s' sess_get_def)
  ultimately show ?thesis
    using hs old assms(5) close shutdown_fresh(1,3) [OF _ _ wf sd] assms(6) by (simp add: s')
qed

definition demo_two_sessions :: Server where
  "demo_two_sessions =
     snd (new_session ''demo.example.com'' ''demo''
       (snd (tryStartRequest 0 ''1'' (putSession 0 demo_session))))"

theorem putSession_newest_wins_witness:
  "getSession ''demo.example.com'' (putSession 1 demo_two_sessions) = Some 1"
proof -
  have "server_wf demo_two_sessions" "1 < length (heap_sess demo_two_sessions)"
    "''demo.example.com'' = sess_publicHost (heap_sess demo_two_sessions ! 1)"
    "getSession ''demo.example.com'' demo_two_sessions = Some 0" "(0::nat) \<noteq> 1"
    "\<not> sess_once (heap_sess demo_two_sessions ! 0)" by code_simp+
  from putSession_newest_wins [OF this refl] show ?thesis by blast
qed

end
