(* ===== verification/ServerSlots.thy ===== *)
theory ServerSlots
  imports ServerState
begin

text \<open>
  The edge as a concurrent system: request handlers and \<open>Connect\<close> calls as goroutines that
  interleave at every mutex section and atomic operation of \<open>server/server.go\<close>.  A handler is
  described by where it stands between \<open>tryStartRequest\<close> and \<open>finishRequest\<close>, the load and
  compare-and-swap of the counter included; a connection by where it stands in \<open>putSession\<close>, in
  the receive loop or in its shutdown.  Finished goroutines stay in the lists, so that the index
  of a handler is the number of the request it serves.
\<close>

datatype handler_pc =
    H_Load nat string
  | H_Cas nat string int
  | H_TryStart nat string
  | H_Undo
  | H_Serving nat string nat
  | H_Release
  | H_Returned

datatype conn_pc =
    C_Shutdown nat nat
  | C_FailAll nat nat
  | C_ReleaseOld nat nat
  | C_Recv nat
  | C_Closing nat go_error
  | C_CloseFailAll nat go_error
  | C_CloseRelease nat nat
  | C_Remove nat
  | C_Returned

record edge =
  e_srv :: Server
  e_handlers :: "handler_pc list"
  e_conns :: "conn_pc list"

definition set_handler :: "nat \<Rightarrow> handler_pc \<Rightarrow> Server \<Rightarrow> edge \<Rightarrow> edge" where
  "set_handler i h s e = e\<lparr>e_srv := s, e_handlers := (e_handlers e)[i := h]\<rparr>"

definition set_conn :: "nat \<Rightarrow> conn_pc \<Rightarrow> Server \<Rightarrow> edge \<Rightarrow> edge" where
  "set_conn j c s e = e\<lparr>e_srv := s, e_conns := (e_conns e)[j := c]\<rparr>"

definition add_slots :: "int \<Rightarrow> Server \<Rightarrow> Server" where
  "add_slots n s = s\<lparr>srv_totalInflight := srv_totalInflight s + n\<rparr>"

inductive edge_step :: "go_unicode \<Rightarrow> edge \<Rightarrow> edge \<Rightarrow> bool" for U :: go_unicode where
  request:
    "HasPublicHost U (NormalizeHost U rhost) (e_srv e) \<Longrightarrow>
     getSession (NormalizeHost U rhost) (e_srv e) = Some sa \<Longrightarrow> n = srv_nextRequestID (e_srv e) + 1 \<Longrightarrow>
     edge_step U e (e\<lparr>e_srv := (e_srv e)\<lparr>srv_nextRequestID := n\<rparr>,
       e_handlers := e_handlers e @ [H_Load sa (format_uint (unat n))]\<rparr>)"
| reserve_unlimited:
    "i < length (e_handlers e) \<Longrightarrow> e_handlers e ! i = H_Load sa rid \<Longrightarrow>
     srv_maxTotalInflight (e_srv e) \<le> 0 \<Longrightarrow>
     edge_step U e (set_handler i (H_TryStart sa rid) (add_slots 1 (e_srv e)) e)"
| load_full:
    "i < length (e_handlers e) \<Longrightarrow> e_handlers e ! i = H_Load sa rid \<Longrightarrow>
     0 < srv_maxTotalInflight (e_srv e) \<Longrightarrow> srv_totalInflight (e_srv e) \<ge> srv_maxTotalInflight (e_srv e) \<Longrightarrow>
     edge_step U e (set_handler i H_Returned (e_srv e) e)"
| load_room:
    "i < length (e_handlers e) \<Longrightarrow> e_handlers e ! i = H_Load sa rid \<Longrightarrow>
     0 < srv_maxTotalInflight (e_srv e) \<Longrightarrow> srv_totalInflight (e_srv e) < srv_maxTotalInflight (e_srv e) \<Longrightarrow>
     edge_step U e (set_handler i (H_Cas sa rid (srv_totalInflight (e_srv e))) (e_srv e) e)"
| cas_fail:
    "i < length (e_handlers e) \<Longrightarrow> e_handlers e ! i = H_Cas sa rid current \<Longrightarrow>
     srv_totalInflight (e_srv e) \<noteq> current \<Longrightarrow>
     edge_step U e (set_handler i (H_Load sa rid) (e_srv e) e)"
| cas_ok:
    "i < length (e_handlers e) \<Longrightarrow> e_handlers e ! i = H_Cas sa rid current \<Longrightarrow>
     srv_totalInflight (e_srv e) = current \<Longrightarrow>
     edge_step U e (set_handler i (H_TryStart sa rid) (add_slots 1 (e_srv e)) e)"
| try_start_ok:
    "i < length (e_handlers e) \<Longrightarrow> e_handlers e ! i = H_TryStart sa rid \<Longrightarrow>
     tryStart sa rid (srv_maxInflight (e_srv e)) (e_srv e) = (Some ra, s) \<Longrightarrow>
     edge_step U e (set_handler i (H_Serving sa rid ra) s e)"
| try_start_full:
    "i < length (e_handlers e) \<Longrightarrow> e_handlers e ! i = H_TryStart sa rid \<Longrightarrow>
     tryStart sa rid (srv_maxInflight (e_srv e)) (e_srv e) = (None, s) \<Longrightarrow>
     edge_step U e (set_handler i H_Undo s e)"
| undo:
    "i < length (e_handlers e) \<Longrightarrow> e_handlers e ! i = H_Undo \<Longrightarrow>
     edge_step U e (set_handler i H_Returned (releaseGlobalSlots 1 (e_srv e)) e)"
| serve_send:
    "i < length (e_handlers e) \<Longrightarrow> e_handlers e ! i = H_Serving sa rid ra \<Longrightarrow>
     (err, s) \<in> set (sendFrameCtx ctxErr sa f (e_srv e)) \<Longrightarrow>
     edge_step U e (set_handler i (H_Serving sa rid ra) s e)"
| serve_cancel:
    "i < length (e_handlers e) \<Longrightarrow> e_handlers e ! i = H_Serving sa rid ra \<Longrightarrow>
     s \<in> set (cancelRequest sa rid (e_srv e)) \<Longrightarrow>
     edge_step U e (set_handler i (H_Serving sa rid ra) s e)"
| serve_consume:
    "i < length (e_handlers e) \<Longrightarrow> e_handlers e ! i = H_Serving sa rid ra \<Longrightarrow>
     take_one \<in> {snd \<circ> consumeStart, snd \<circ> consumeBody, snd \<circ> consumeErr} \<Longrightarrow>
     edge_step U e (set_handler i (H_Serving sa rid ra) (upd_rs ra take_one (e_srv e)) e)"
| serve_putWS:
    "i < length (e_handlers e) \<Longrightarrow> e_handlers e ! i = H_Serving sa rid ra \<Longrightarrow>
     edge_step U e (set_handler i (H_Serving sa rid ra)
       (putWS sa rid (length (heap_ws (e_srv e))) ((e_srv e)\<lparr>heap_ws := heap_ws (e_srv e) @ [newWsState]\<rparr>)) e)"
| serve_delWS:
    "i < length (e_handlers e) \<Longrightarrow> e_handlers e ! i = H_Serving sa rid ra \<Longrightarrow>
     edge_step U e (set_handler i (H_Serving sa rid ra) (delWS sa rid (e_srv e)) e)"
| finish_del:
    "i < length (e_handlers e) \<Longrightarrow> e_handlers e ! i = H_Serving sa rid ra \<Longrightarrow>
     sess_del sa rid (e_srv e) = (True, s) \<Longrightarrow>
     edge_step U e (set_handler i H_Release s e)"
| finish_gone:
    "i < length (e_handlers e) \<Longrightarrow> e_handlers e ! i = H_Serving sa rid ra \<Longrightarrow>
     sess_del sa rid (e_srv e) = (False, s) \<Longrightarrow>
     edge_step U e (set_handler i H_Returned s e)"
| release:
    "i < length (e_handlers e) \<Longrightarrow> e_handlers e ! i = H_Release \<Longrightarrow>
     edge_step U e (set_handler i H_Returned (releaseGlobalSlots 1 (e_srv e)) e)"
| connect_new:
    "Connect_authenticate first (e_srv e) = Inr username \<Longrightarrow>
     new_session (Subdomain U username (srv_publicDomain (e_srv e))) username (e_srv e) = (sa, s1) \<Longrightarrow>
     putSession_swap sa s1 = (replaced, s2) \<Longrightarrow> replaced = None \<or> replaced = Some sa \<Longrightarrow>
     edge_step U e (e\<lparr>e_srv := s2, e_conns := e_conns e @ [C_Recv sa]\<rparr>)"
| connect_replace:
    "Connect_authenticate first (e_srv e) = Inr username \<Longrightarrow>
     new_session (Subdomain U username (srv_publicDomain (e_srv e))) username (e_srv e) = (sa, s1) \<Longrightarrow>
     putSession_swap sa s1 = (Some old, s2) \<Longrightarrow> old \<noteq> sa \<Longrightarrow>
     edge_step U e (e\<lparr>e_srv := s2, e_conns := e_conns e @ [C_Shutdown sa old]\<rparr>)"
| replace_again:
    "j < length (e_conns e) \<Longrightarrow> e_conns e ! j = C_Shutdown sa old \<Longrightarrow>
     sess_once (heap_sess (e_srv e) ! old) \<Longrightarrow> edge_step U e (set_conn j (C_Recv sa) (e_srv e) e)"
| replace_enter:
    "j < length (e_conns e) \<Longrightarrow> e_conns e ! j = C_Shutdown sa old \<Longrightarrow>
     \<not> sess_once (heap_sess (e_srv e) ! old) \<Longrightarrow>
     edge_step U e (set_conn j (C_FailAll sa old) (shutdown_enter old (e_srv e)) e)"
| replace_failAll:
    "j < length (e_conns e) \<Longrightarrow> e_conns e ! j = C_FailAll sa old \<Longrightarrow>
     failAll old (Some ErrSessionReplaced) (e_srv e) = (n, s) \<Longrightarrow>
     edge_step U e (set_conn j (C_ReleaseOld sa n) s e)"
| replace_release:
    "j < length (e_conns e) \<Longrightarrow> e_conns e ! j = C_ReleaseOld sa n \<Longrightarrow>
     edge_step U e (set_conn j (C_Recv sa) (releaseGlobalSlots (int n) (e_srv e)) e)"
| recv_frame:
    "j < length (e_conns e) \<Longrightarrow> e_conns e ! j = C_Recv sa \<Longrightarrow>
     s \<in> set (handleClientFrame sa frame (e_srv e)) \<Longrightarrow> edge_step U e (set_conn j (C_Recv sa) s e)"
| send_outbound:
    "a < length (heap_sess (e_srv e)) \<Longrightarrow>
     chan_recv (sess_outbound (heap_sess (e_srv e) ! a)) = Some (frame, q) \<Longrightarrow>
     edge_step U e (e\<lparr>e_srv := upd_sess a (\<lambda>x. x\<lparr>sess_outbound := q\<rparr>) (e_srv e)\<rparr>)"
| heartbeat:
    "a < length (heap_sess (e_srv e)) \<Longrightarrow> chan_send_ready (sess_outbound (heap_sess (e_srv e) ! a)) \<Longrightarrow>
     edge_step U e (e\<lparr>e_srv := push_outbound a (Some (ServerFrame_Ping \<lparr>Ping_UnixNano = t\<rparr>)) (e_srv e)\<rparr>)"
| recv_end:
    "j < length (e_conns e) \<Longrightarrow> e_conns e ! j = C_Recv sa \<Longrightarrow>
     edge_step U e (set_conn j (C_Closing sa err) (e_srv e) e)"
| close_again:
    "j < length (e_conns e) \<Longrightarrow> e_conns e ! j = C_Closing sa err \<Longrightarrow>
     sess_once (heap_sess (e_srv e) ! sa) \<Longrightarrow> edge_step U e (set_conn j (C_Remove sa) (e_srv e) e)"
| close_enter:
    "j < length (e_conns e) \<Longrightarrow> e_conns e ! j = C_Closing sa err \<Longrightarrow>
     \<not> sess_once (heap_sess (e_srv e) ! sa) \<Longrightarrow>
     edge_step U e (set_conn j (C_CloseFailAll sa err) (shutdown_enter sa (e_srv e)) e)"
| close_failAll:
    "j < length (e_conns e) \<Longrightarrow> e_conns e ! j = C_CloseFailAll sa err \<Longrightarrow>
     failAll sa (Some err) (e_srv e) = (n, s) \<Longrightarrow>
     edge_step U e (set_conn j (C_CloseRelease sa n) s e)"
| close_release:
    "j < length (e_conns e) \<Longrightarrow> e_conns e ! j = C_CloseRelease sa n \<Longrightarrow>
     edge_step U e (set_conn j (C_Remove sa) (releaseGlobalSlots (int n) (e_srv e)) e)"
| close_remove:
    "j < length (e_conns e) \<Longrightarrow> e_conns e ! j = C_Remove sa \<Longrightarrow>
     edge_step U e (set_conn j C_Returned
       (removeSession (sess_publicHost (heap_sess (e_srv e) ! sa)) sa (e_srv e)) e)"

definition edge_init :: "go_unicode \<Rightarrow> edge \<Rightarrow> bool" where
  "edge_init U e \<longleftrightarrow> (\<exists>cfg. New U cfg = Inr (e_srv e)) \<and> e_handlers e = [] \<and> e_conns e = []"

subsection \<open>Slots held by tables and by goroutines\<close>

fun h_slots :: "handler_pc \<Rightarrow> int" where
  "h_slots (H_TryStart sa rid) = 1"
| "h_slots H_Undo = 1"
| "h_slots H_Release = 1"
| "h_slots _ = 0"

fun c_slots :: "conn_pc \<Rightarrow> int" where
  "c_slots (C_ReleaseOld sa n) = int n"
| "c_slots (C_CloseRelease sa n) = int n"
| "c_slots _ = 0"

fun h_addr :: "handler_pc \<Rightarrow> nat option" where
  "h_addr (H_Load sa rid) = Some sa"
| "h_addr (H_Cas sa rid cur) = Some sa"
| "h_addr (H_TryStart sa rid) = Some sa"
| "h_addr (H_Serving sa rid ra) = Some sa"
| "h_addr _ = None"

fun h_rid :: "handler_pc \<Rightarrow> string option" where
  "h_rid (H_Load sa rid) = Some rid"
| "h_rid (H_Cas sa rid cur) = Some rid"
| "h_rid (H_TryStart sa rid) = Some rid"
| "h_rid (H_Serving sa rid ra) = Some rid"
| "h_rid _ = None"

fun c_addrs :: "conn_pc \<Rightarrow> nat set" where
  "c_addrs (C_Shutdown sa old) = {sa, old}"
| "c_addrs (C_FailAll sa old) = {sa, old}"
| "c_addrs (C_ReleaseOld sa n) = {sa}"
| "c_addrs (C_Recv sa) = {sa}"
| "c_addrs (C_Closing sa err) = {sa}"
| "c_addrs (C_CloseFailAll sa err) = {sa}"
| "c_addrs (C_CloseRelease sa n) = {sa}"
| "c_addrs (C_Remove sa) = {sa}"
| "c_addrs C_Returned = {}"

definition tables :: "Server \<Rightarrow> (string, nat) gomap list" where
  "tables s = map sess_inflight (heap_sess s)"

definition slots_in_tables :: "Server \<Rightarrow> int" where
  "slots_in_tables s = sum_list (map (int \<circ> map_len) (tables s))"

definition slots_in_hand :: "edge \<Rightarrow> int" where
  "slots_in_hand e = sum_list (map h_slots (e_handlers e)) + sum_list (map c_slots (e_conns e))"

text \<open>
  The invariant, over the parts of the state it reads: the counter, the two limits, the in-flight
  tables, the registered sessions and the goroutines.
\<close>

definition handlers_ok :: "int \<Rightarrow> nat \<Rightarrow> handler_pc list \<Rightarrow> bool" where
  "handlers_ok mt n hs \<longleftrightarrow>
     (\<forall>i < length hs. (\<forall>a. h_addr (hs ! i) = Some a \<longrightarrow> a < n)
       \<and> (\<forall>rid. h_rid (hs ! i) = Some rid \<longrightarrow> rid = format_uint (Suc i))
       \<and> (\<forall>sa rid cur. hs ! i = H_Cas sa rid cur \<longrightarrow> cur < mt))"

definition tables_ok :: "int \<Rightarrow> (string, nat) gomap list \<Rightarrow> handler_pc list \<Rightarrow> bool" where
  "tables_ok mi tabs hs \<longleftrightarrow>
     (\<forall>a < length tabs. map_wf (tabs ! a) \<and> (mi > 0 \<longrightarrow> int (map_len (tabs ! a)) \<le> mi)
       \<and> (\<forall>rid. map_get (tabs ! a) rid \<noteq> None \<longrightarrow> (\<exists>i < length hs. \<exists>ra. hs ! i = H_Serving a rid ra)))"

definition slots_ok ::
  "int \<Rightarrow> int \<Rightarrow> int \<Rightarrow> (string, nat) gomap list \<Rightarrow> nat set \<Rightarrow> handler_pc list \<Rightarrow> conn_pc list \<Rightarrow> bool" where
  "slots_ok tot mt mi tabs regs hs cs \<longleftrightarrow>
     tot = sum_list (map (int \<circ> map_len) tabs) + (sum_list (map h_slots hs) + sum_list (map c_slots cs))
     \<and> (mt > 0 \<longrightarrow> tot \<le> mt) \<and> handlers_ok mt (length tabs) hs \<and> tables_ok mi tabs hs
     \<and> (\<forall>c \<in> set cs. \<forall>a \<in> c_addrs c. a < length tabs) \<and> (\<forall>a \<in> regs. a < length tabs)"

definition regs :: "Server \<Rightarrow> nat set" where
  "regs s = snd ` set (srv_sessions s)"

definition edge_ok :: "edge \<Rightarrow> bool" where
  "edge_ok e \<longleftrightarrow>
     srv_nextRequestID (e_srv e) = of_nat (length (e_handlers e))
     \<and> slots_ok (srv_totalInflight (e_srv e)) (srv_maxTotalInflight (e_srv e)) (srv_maxInflight (e_srv e))
         (tables (e_srv e)) (regs (e_srv e)) (e_handlers e) (e_conns e)"

text \<open>Two server states that the invariant cannot tell apart.\<close>

definition same_slots :: "Server \<Rightarrow> Server \<Rightarrow> bool" where
  "same_slots s s' \<longleftrightarrow>
     srv_totalInflight s' = srv_totalInflight s \<and> srv_maxTotalInflight s' = srv_maxTotalInflight s
     \<and> srv_maxInflight s' = srv_maxInflight s \<and> tables s' = tables s \<and> srv_sessions s' = srv_sessions s
     \<and> srv_nextRequestID s' = srv_nextRequestID s"

lemma tables_upd_sess:
  "(\<And>x. sess_inflight (f x) = sess_inflight x) \<Longrightarrow> tables (upd_sess a f s) = tables s"
  by (simp add: tables_def upd_sess_def map_update list_update_same_conv)
    (metis length_map list_update_beyond list_update_id not_le nth_map)

lemma same_slots_upd:
  "(\<And>x. sess_inflight (f x) = sess_inflight x) \<Longrightarrow> same_slots s (upd_sess a f s)"
  "same_slots s (upd_rs b g s)" "same_slots s (upd_ws d h s)" "same_slots s s"
  by (simp_all add: same_slots_def tables_upd_sess) (simp_all add: tables_def)

lemma same_slots_push: "same_slots s (push_outbound sa f s)"
  by (simp add: push_outbound_def same_slots_upd)

lemma same_slots_send: "(err, s') \<in> set (sendFrameCtx c sa f s) \<Longrightarrow> same_slots s s'"
  by (auto simp: sendFrameCtx_def same_slots_upd same_slots_push split: option.splits if_splits)

lemma same_slots_cancel: "s' \<in> set (cancelRequest sa rid s) \<Longrightarrow> same_slots s s'"
  by (auto simp: cancelRequest_def Let_def same_slots_upd same_slots_push split: if_splits)

lemma same_slots_with: "s' \<in> set (with_rs sa rid g s) \<Longrightarrow> same_slots s s'" "s' \<in> set (with_ws sa rid k s) \<Longrightarrow> same_slots s s'"
  by (auto simp: with_rs_def with_ws_def same_slots_upd split: option.splits)

lemma same_slots_handle: "s' \<in> set (handleClientFrame sa frame s) \<Longrightarrow> same_slots s s'"
  by (auto simp: handleClientFrame_def same_slots_upd same_slots_with split: option.splits ClientFrame_Msg.splits)

lemma edge_ok_same:
  "edge_ok e \<Longrightarrow> same_slots (e_srv e) s \<Longrightarrow> edge_ok (e\<lparr>e_srv := s\<rparr>)"
  by (simp add: edge_ok_def same_slots_def regs_def)

lemma set_handler_same: "i < length (e_handlers e) \<Longrightarrow> e_handlers e ! i = h \<Longrightarrow> set_handler i h s e = e\<lparr>e_srv := s\<rparr>"
  by (auto simp: set_handler_def)

lemma set_conn_same: "j < length (e_conns e) \<Longrightarrow> e_conns e ! j = c \<Longrightarrow> set_conn j c s e = e\<lparr>e_srv := s\<rparr>"
  by (auto simp: set_conn_def)

subsection \<open>Each kind of step keeps the invariant\<close>

lemma handlers_ok_update:
  assumes "handlers_ok mt n hs" "i < length hs" "h_addr h = None \<or> h_addr h = h_addr (hs ! i)"
    "h_rid h = None \<or> h_rid h = h_rid (hs ! i)" "\<And>sa rid cur. h = H_Cas sa rid cur \<Longrightarrow> cur < mt"
  shows "handlers_ok mt n (hs[i := h])"
  using assms by (auto simp: handlers_ok_def nth_list_update)

lemma tables_ok_update:
  assumes "tables_ok mi tabs hs" "i < length hs"
    and "\<And>a rid ra. hs ! i = H_Serving a rid ra \<Longrightarrow> a < length tabs \<Longrightarrow> map_get (tabs ! a) rid = None"
  shows "tables_ok mi tabs (hs[i := h])"
  using assms unfolding tables_ok_def by (metis length_list_update nth_list_update_neq)

text \<open>A handler moves and the counter changes by the slots it takes or gives back.\<close>

lemma slots_ok_handler:
  assumes "slots_ok tot mt mi tabs rg hs cs" "i < length hs"
    and "h_addr h = None \<or> h_addr h = h_addr (hs ! i)" "h_rid h = None \<or> h_rid h = h_rid (hs ! i)"
    and "\<And>sa rid cur. h = H_Cas sa rid cur \<Longrightarrow> cur < mt"
    and "\<And>a rid ra. hs ! i = H_Serving a rid ra \<Longrightarrow> a < length tabs \<Longrightarrow> map_get (tabs ! a) rid = None"
    and "d = h_slots h - h_slots (hs ! i)" "d \<le> 0 \<or> mt \<le> 0 \<or> tot + d \<le> mt"
  shows "slots_ok (tot + d) mt mi tabs rg (hs[i := h]) cs"
  using assms handlers_ok_update [of mt "length tabs" hs i h] tables_ok_update [of mi tabs hs i h]
  by (auto simp: slots_ok_def sum_list_map_update)

text \<open>A connection moves and the counter drops by the slots it gives back.\<close>

lemma slots_ok_conn:
  assumes "slots_ok tot mt mi tabs rg hs cs" "j < length cs" "c_addrs c \<subseteq> c_addrs (cs ! j)"
    and "d = c_slots c - c_slots (cs ! j)" "d \<le> 0"
  shows "slots_ok (tot + d) mt mi tabs rg hs (cs[j := c])"
proof -
  have "\<forall>c' \<in> set (cs[j := c]). \<forall>a \<in> c_addrs c'. a < length tabs"
    using assms(1-3) set_update_subset_insert [of cs j c] nth_mem [of j cs]
    unfolding slots_ok_def by blast
  then show ?thesis using assms by (auto simp: slots_ok_def sum_list_map_update)
qed

lemma slots_ok_owner:
  "slots_ok tot mt mi tabs rg hs cs \<Longrightarrow> a < length tabs \<Longrightarrow> map_get (tabs ! a) rid \<noteq> None \<Longrightarrow>
     \<exists>k < length hs. \<exists>ra. hs ! k = H_Serving a rid ra"
  unfolding slots_ok_def tables_ok_def by blast

lemma slots_ok_table:
  "slots_ok tot mt mi tabs rg hs cs \<Longrightarrow> a < length tabs \<Longrightarrow>
     map_wf (tabs ! a) \<and> (mi > 0 \<longrightarrow> int (map_len (tabs ! a)) \<le> mi)"
  unfolding slots_ok_def tables_ok_def by blast

lemma slots_ok_pc:
  "slots_ok tot mt mi tabs rg hs cs \<Longrightarrow> i < length hs \<Longrightarrow> h_addr (hs ! i) = Some a \<Longrightarrow> a < length tabs"
  "slots_ok tot mt mi tabs rg hs cs \<Longrightarrow> i < length hs \<Longrightarrow> h_rid (hs ! i) = Some rid \<Longrightarrow> rid = format_uint (Suc i)"
  unfolding slots_ok_def handlers_ok_def by blast+

text \<open>A request enters a table.\<close>

lemma slots_ok_start:
  assumes "slots_ok tot mt mi tabs rg hs cs" "i < length hs" "hs ! i = H_TryStart sa rid"
    and "\<not> (mi > 0 \<and> int (map_len (tabs ! sa)) \<ge> mi)"
  shows "slots_ok tot mt mi (tabs[sa := map_put rid ra (tabs ! sa)]) rg (hs[i := H_Serving sa rid ra]) cs"
proof -
  let ?tabs = "tabs[sa := map_put rid ra (tabs ! sa)]" and ?hs = "hs[i := H_Serving sa rid ra]"
  have sa: "sa < length tabs" and rid: "rid = format_uint (Suc i)"
    using slots_ok_pc [OF assms(1,2)] assms(3) by auto
  note wf = slots_ok_table [OF assms(1) sa, THEN conjunct1]
  have new: "map_get (tabs ! sa) rid = None"
  proof (rule ccontr)
    assume "map_get (tabs ! sa) rid \<noteq> None"
    then obtain k rb where k: "k < length hs" "hs ! k = H_Serving sa rid rb"
      using slots_ok_owner [OF assms(1) sa] by blast
    with slots_ok_pc(2) [OF assms(1) k(1)] rid assms(3) show False by simp
  qed
  have len: "map_len (map_put rid ra (tabs ! sa)) = Suc (map_len (tabs ! sa))"
    using wf new by (rule gm.len_put_new)
  have serve: "\<exists>k < length ?hs. \<exists>rb. ?hs ! k = H_Serving a r rb"
    if "a < length tabs" "map_get (?tabs ! a) r \<noteq> None" for a r
  proof (cases "a = sa \<and> r = rid")
    case True
    then show ?thesis using assms(2) by (intro exI [of _ i]) simp
  next
    case False
    then have "map_get (tabs ! a) r \<noteq> None" using that sa by (auto simp: nth_list_update gm.get_put split: if_splits)
    then obtain k rb where "k < length hs" "hs ! k = H_Serving a r rb"
      using slots_ok_owner [OF assms(1) \<open>a < length tabs\<close>] by blast
    moreover from this have "k \<noteq> i" using assms(3) by auto
    ultimately show ?thesis by (intro exI [of _ k]) simp
  qed
  have "tables_ok mi ?tabs ?hs"
    unfolding tables_ok_def
  proof (intro allI impI conjI)
    fix a assume a: "a < length ?tabs"
    show "map_wf (?tabs ! a)" "mi > 0 \<Longrightarrow> int (map_len (?tabs ! a)) \<le> mi"
      using a sa wf len assms(4) slots_ok_table [OF assms(1), of a] by (auto simp: nth_list_update gm.wf_put)
  qed (use serve in auto)
  moreover have "handlers_ok mt (length ?tabs) ?hs"
    using assms(1-3) handlers_ok_update [of mt "length tabs" hs i "H_Serving sa rid ra"] by (simp add: slots_ok_def)
  ultimately show ?thesis
    using assms(1-3) sa len by (auto simp: slots_ok_def sum_list_map_update)
qed

text \<open>A request leaves a table, and a table is emptied by a shutdown.\<close>

lemma slots_ok_del:
  assumes "slots_ok tot mt mi tabs rg hs cs" "i < length hs" "hs ! i = H_Serving sa rid ra"
    and "map_get (tabs ! sa) rid \<noteq> None"
  shows "slots_ok tot mt mi (tabs[sa := map_del rid (tabs ! sa)]) rg (hs[i := H_Release]) cs"
proof -
  let ?tabs = "tabs[sa := map_del rid (tabs ! sa)]" and ?hs = "hs[i := H_Release]"
  have sa: "sa < length tabs" and rid: "rid = format_uint (Suc i)"
    using slots_ok_pc [OF assms(1,2)] assms(3) by auto
  note wf = slots_ok_table [OF assms(1) sa, THEN conjunct1]
  have len: "Suc (map_len (map_del rid (tabs ! sa))) = map_len (tabs ! sa)"
    using wf assms(4) by (rule gm.len_del_old)
  have serve: "\<exists>k < length ?hs. \<exists>rb. ?hs ! k = H_Serving a r rb"
    if "a < length tabs" "map_get (?tabs ! a) r \<noteq> None" for a r
  proof -
    have "map_get (tabs ! a) r \<noteq> None" and not: "\<not> (a = sa \<and> r = rid)"
      using that sa by (auto simp: nth_list_update gm.get_del split: if_splits)
    then obtain k rb where "k < length hs" "hs ! k = H_Serving a r rb"
      using slots_ok_owner [OF assms(1) \<open>a < length tabs\<close>] by blast
    moreover from this have "k \<noteq> i" using assms(3) not by auto
    ultimately show ?thesis by (intro exI [of _ k]) simp
  qed
  have "tables_ok mi ?tabs ?hs"
    unfolding tables_ok_def
  proof (intro allI impI conjI)
    fix a assume a: "a < length ?tabs"
    show "map_wf (?tabs ! a)" "mi > 0 \<Longrightarrow> int (map_len (?tabs ! a)) \<le> mi"
      using a sa wf len slots_ok_table [OF assms(1), of a] by (auto simp: nth_list_update gm.wf_del)
  qed (use serve in auto)
  moreover have "handlers_ok mt (length ?tabs) ?hs"
    using assms(1-3) handlers_ok_update [of mt "length tabs" hs i H_Release] by (simp add: slots_ok_def)
  ultimately show ?thesis
    using assms(1-3) sa len by (auto simp: slots_ok_def sum_list_map_update)
qed

lemma slots_ok_clear:
  assumes "slots_ok tot mt mi tabs rg hs cs" "j < length cs" "a \<in> c_addrs (cs ! j)"
    and "c_addrs c \<subseteq> c_addrs (cs ! j)" "c_slots (cs ! j) = 0" "c_slots c = int (map_len (tabs ! a))"
  shows "slots_ok tot mt mi (tabs[a := []]) rg hs (cs[j := c])"
proof -
  have a: "a < length tabs" using assms(1-3) nth_mem [of j cs] unfolding slots_ok_def by blast
  have cs: "\<forall>c' \<in> set (cs[j := c]). \<forall>a \<in> c_addrs c'. a < length tabs"
    using assms(1,2,4) set_update_subset_insert [of cs j c] nth_mem [of j cs]
    unfolding slots_ok_def by blast
  have "tables_ok mi (tabs[a := []]) hs"
    unfolding tables_ok_def
  proof (intro allI impI conjI)
    fix b assume b: "b < length (tabs[a := []])"
    then have b': "b < length tabs" by simp
    note tab = slots_ok_table [OF assms(1) b'] slots_ok_owner [OF assms(1) b']
    show "map_wf (tabs[a := []] ! b)" "mi > 0 \<Longrightarrow> int (map_len (tabs[a := []] ! b)) \<le> mi"
      using a tab(1) by (auto simp: nth_list_update gm.wf_mt gm.len_mt)
    show "map_get (tabs[a := []] ! b) rid \<noteq> None \<Longrightarrow> \<exists>i < length hs. \<exists>ra. hs ! i = H_Serving b rid ra" for rid
      using a tab(2) by (auto simp: nth_list_update gm.get_mt split: if_splits)
  qed
  then show ?thesis
    using assms a cs by (auto simp: slots_ok_def sum_list_map_update gm.len_mt)
qed

text \<open>A session is created, and a request arrives.\<close>

lemma slots_ok_session:
  assumes "slots_ok tot mt mi tabs rg hs cs" "\<forall>a \<in> rg'. a \<le> length tabs" "\<forall>a \<in> c_addrs c. a \<le> length tabs" "c_slots c = 0"
  shows "slots_ok tot mt mi (tabs @ [[]]) rg' hs (cs @ [c])"
proof -
  have "handlers_ok mt (length (tabs @ [[]])) hs"
    using assms(1) unfolding slots_ok_def handlers_ok_def by fastforce
  moreover have "tables_ok mi (tabs @ [[]]) hs"
    unfolding tables_ok_def
  proof (intro allI impI conjI)
    fix b assume b: "b < length (tabs @ [[]])"
    show "map_wf ((tabs @ [[]]) ! b)" "mi > 0 \<Longrightarrow> int (map_len ((tabs @ [[]]) ! b)) \<le> mi"
      using b slots_ok_table [OF assms(1), of b] by (auto simp: nth_append gm.wf_mt gm.len_mt)
    show "map_get ((tabs @ [[]]) ! b) rid \<noteq> None \<Longrightarrow> \<exists>i < length hs. \<exists>ra. hs ! i = H_Serving b rid ra" for rid
      using b slots_ok_owner [OF assms(1), of b rid] by (auto simp: nth_append gm.get_mt split: if_splits)
  qed
  ultimately show ?thesis
    using assms by (auto simp: slots_ok_def gm.len_mt less_Suc_eq_le less_imp_le)
qed

lemma slots_ok_request:
  assumes "slots_ok tot mt mi tabs rg hs cs" "a < length tabs"
  shows "slots_ok tot mt mi tabs rg (hs @ [H_Load a (format_uint (Suc (length hs)))]) cs"
proof -
  have "handlers_ok mt (length tabs) (hs @ [H_Load a (format_uint (Suc (length hs)))])"
    using assms unfolding slots_ok_def handlers_ok_def by (auto simp: nth_append less_Suc_eq)
  moreover have "tables_ok mi tabs (hs @ [H_Load a (format_uint (Suc (length hs)))])"
    using assms(1) unfolding slots_ok_def tables_ok_def
    by (metis append_same_eq butlast_snoc length_append_singleton less_SucI nth_butlast)
  ultimately show ?thesis using assms by (auto simp: slots_ok_def)
qed

lemma tables_sess_put:
  "sa < length (heap_sess s) \<Longrightarrow> tables (sess_put sa rid ra s) = (tables s)[sa := map_put rid ra (tables s ! sa)]"
  by (simp add: tables_def sess_put_def upd_sess_def map_update)

lemma tables_nth: "sa < length (heap_sess s) \<Longrightarrow> sess_inflight (heap_sess s ! sa) = tables s ! sa"
  by (simp add: tables_def)

lemma length_tables [simp]: "length (tables s) = length (heap_sess s)"
  by (simp add: tables_def)

lemma add_slots_same:
  "same_slots (add_slots 0 s) s" "same_slots (add_slots d s) (add_slots d s)"
  "0 \<le> n \<Longrightarrow> same_slots (add_slots (- n) s) (releaseGlobalSlots n s)"
  by (simp_all add: same_slots_def add_slots_def tables_def)

lemma handler_move:
  assumes "edge_ok e" "i < length (e_handlers e)" "same_slots (add_slots d (e_srv e)) s"
    and "h_addr h = None \<or> h_addr h = h_addr (e_handlers e ! i)" "h_rid h = None \<or> h_rid h = h_rid (e_handlers e ! i)"
    and "\<And>sa rid cur. h = H_Cas sa rid cur \<Longrightarrow> cur < srv_maxTotalInflight (e_srv e)"
    and "\<And>a rid ra. e_handlers e ! i = H_Serving a rid ra \<Longrightarrow> sess_get a rid (e_srv e) = None"
    and "d = h_slots h - h_slots (e_handlers e ! i)"
    and "d \<le> 0 \<or> srv_maxTotalInflight (e_srv e) \<le> 0 \<or> srv_totalInflight (e_srv e) + d \<le> srv_maxTotalInflight (e_srv e)"
  shows "edge_ok (set_handler i h s e)"
proof -
  have "slots_ok (srv_totalInflight (e_srv e) + d) (srv_maxTotalInflight (e_srv e)) (srv_maxInflight (e_srv e))
      (tables (e_srv e)) (regs (e_srv e)) ((e_handlers e)[i := h]) (e_conns e)"
    by (rule slots_ok_handler) (use assms in \<open>auto simp: edge_ok_def sess_get_def tables_nth\<close>)
  then show ?thesis
    using assms(1,3) by (simp add: edge_ok_def set_handler_def same_slots_def regs_def add_slots_def tables_def)
qed

lemma conn_move:
  assumes "edge_ok e" "j < length (e_conns e)" "same_slots (add_slots d (e_srv e)) s"
    and "c_addrs c \<subseteq> c_addrs (e_conns e ! j)" "d = c_slots c - c_slots (e_conns e ! j)" "d \<le> 0"
  shows "edge_ok (set_conn j c s e)"
proof -
  have "slots_ok (srv_totalInflight (e_srv e) + d) (srv_maxTotalInflight (e_srv e)) (srv_maxInflight (e_srv e))
      (tables (e_srv e)) (regs (e_srv e)) (e_handlers e) ((e_conns e)[j := c])"
    by (rule slots_ok_conn) (use assms in \<open>auto simp: edge_ok_def\<close>)
  then show ?thesis
    using assms(1,3) by (simp add: edge_ok_def set_conn_def same_slots_def regs_def add_slots_def tables_def)
qed

lemma conn_clear:
  assumes "edge_ok e" "j < length (e_conns e)" "a \<in> c_addrs (e_conns e ! j)" "failAll a err (e_srv e) = (n, s)"
    and "c_addrs c \<subseteq> c_addrs (e_conns e ! j)" "c_slots (e_conns e ! j) = 0" "c_slots c = int n"
  shows "edge_ok (set_conn j c s e)"
proof -
  have a: "a < length (heap_sess (e_srv e))"
    using assms(1-3) nth_mem [of j "e_conns e"] unfolding edge_ok_def slots_ok_def by auto
  have n: "n = map_len (tables (e_srv e) ! a)" and t: "tables s = (tables (e_srv e))[a := []]"
    and rest: "srv_totalInflight s = srv_totalInflight (e_srv e)" "srv_maxTotalInflight s = srv_maxTotalInflight (e_srv e)"
      "srv_maxInflight s = srv_maxInflight (e_srv e)" "regs s = regs (e_srv e)"
      "srv_nextRequestID s = srv_nextRequestID (e_srv e)"
    using assms(4) a by (auto simp: failAll_eq tables_def map_update regs_def)
  have "slots_ok (srv_totalInflight (e_srv e)) (srv_maxTotalInflight (e_srv e)) (srv_maxInflight (e_srv e))
      ((tables (e_srv e))[a := []]) (regs (e_srv e)) (e_handlers e) ((e_conns e)[j := c])"
    by (rule slots_ok_clear) (use assms n in \<open>auto simp: edge_ok_def\<close>)
  then show ?thesis using assms(1) t rest by (simp add: edge_ok_def set_conn_def)
qed

lemma handler_start:
  assumes "edge_ok e" "i < length (e_handlers e)" "e_handlers e ! i = H_TryStart sa rid"
    and "tryStart sa rid (srv_maxInflight (e_srv e)) (e_srv e) = (Some ra, s)"
  shows "edge_ok (set_handler i (H_Serving sa rid ra) s e)"
proof -
  let ?s = "e_srv e"
  have ok: "slots_ok (srv_totalInflight ?s) (srv_maxTotalInflight ?s) (srv_maxInflight ?s)
      (tables ?s) (regs ?s) (e_handlers e) (e_conns e)" using assms(1) by (simp add: edge_ok_def)
  have sa: "sa < length (heap_sess ?s)" using slots_ok_pc(1) [OF ok assms(2)] assms(3) by simp
  have full: "\<not> (srv_maxInflight ?s > 0 \<and> int (map_len (tables ?s ! sa)) \<ge> srv_maxInflight ?s)"
    and s: "s = sess_put sa rid ra (?s\<lparr>heap_rs := heap_rs ?s @ [newResponseState]\<rparr>)"
    using assms(4) sa by (auto simp: tryStart_def Let_def tables_nth split: if_splits)
  have "tables s = (tables ?s)[sa := map_put rid ra (tables ?s ! sa)]"
    using sa by (simp add: s tables_sess_put) (simp add: tables_def)
  then show ?thesis
    using slots_ok_start [OF ok assms(2,3) full, of ra] assms(1)
    by (simp add: edge_ok_def set_handler_def s sess_put_def regs_def)
qed

lemma handler_del:
  assumes "edge_ok e" "i < length (e_handlers e)" "e_handlers e ! i = H_Serving sa rid ra"
    and "sess_del sa rid (e_srv e) = (True, s)"
  shows "edge_ok (set_handler i H_Release s e)"
proof -
  let ?s = "e_srv e"
  have ok: "slots_ok (srv_totalInflight ?s) (srv_maxTotalInflight ?s) (srv_maxInflight ?s)
      (tables ?s) (regs ?s) (e_handlers e) (e_conns e)" using assms(1) by (simp add: edge_ok_def)
  have sa: "sa < length (heap_sess ?s)" using slots_ok_pc(1) [OF ok assms(2)] assms(3) by simp
  have del: "map_get (tables ?s ! sa) rid \<noteq> None"
    and s: "s = upd_sess sa (\<lambda>x. x\<lparr>sess_inflight := map_del rid (sess_inflight x)\<rparr>) ?s"
    using assms(4) sa by (auto simp: sess_del_def tables_nth split: option.splits)
  have "tables s = (tables ?s)[sa := map_del rid (tables ?s ! sa)]"
    using sa by (simp add: s tables_def upd_sess_def map_update)
  then show ?thesis
    using slots_ok_del [OF ok assms(2,3) del] assms(1)
    by (simp add: edge_ok_def set_handler_def s regs_def)
qed

lemma conn_open:
  assumes "edge_ok e" "new_session h u (e_srv e) = (sa, s1)" "putSession_swap sa s1 = (replaced, s2)"
    and "c_slots c = 0" "c_addrs c \<subseteq> insert sa (set_option replaced)"
  shows "edge_ok (e\<lparr>e_srv := s2, e_conns := e_conns e @ [c]\<rparr>)"
proof -
  let ?s = "e_srv e"
  have sa: "sa = length (heap_sess ?s)" and s1: "srv_sessions s1 = srv_sessions ?s" "tables s1 = tables ?s @ [[]]"
    using assms(2) by (auto simp: new_session_def Let_def tables_def)
  have s2: "srv_sessions s2 = map_put (sess_publicHost (heap_sess s1 ! sa)) sa (srv_sessions ?s)"
    "replaced = map_get (srv_sessions ?s) (sess_publicHost (heap_sess s1 ! sa))" "tables s2 = tables s1"
    using assms(3) s1 by (auto simp: putSession_swap_def Let_def tables_def)
  have keep: "srv_totalInflight s2 = srv_totalInflight ?s" "srv_maxTotalInflight s2 = srv_maxTotalInflight ?s"
    "srv_maxInflight s2 = srv_maxInflight ?s" "srv_nextRequestID s2 = srv_nextRequestID ?s"
    using assms(2,3) by (auto simp: new_session_def putSession_swap_def Let_def)
  have rg: "\<forall>a \<in> regs ?s. a < length (tables ?s)"
    using assms(1) unfolding edge_ok_def slots_ok_def by blast
  have "set_option replaced \<subseteq> regs ?s"
    by (force simp: s2(2) regs_def map_get_def dest: map_of_SomeD)
  then have c: "\<forall>a \<in> c_addrs c. a \<le> length (tables ?s)"
    using assms(5) rg sa by fastforce
  have "regs s2 \<subseteq> insert sa (regs ?s)"
    using set_map_put [of _ sa "srv_sessions ?s"] unfolding regs_def s2(1) by force
  then have "\<forall>a \<in> regs s2. a \<le> length (tables ?s)" using rg sa by fastforce
  from slots_ok_session [OF _ this c assms(4)] show ?thesis
    using assms(1) s1 s2 keep by (auto simp: edge_ok_def)
qed

lemma request_ok:
  assumes "edge_ok e" "getSession h (e_srv e) = Some sa" "n = srv_nextRequestID (e_srv e) + 1"
    and "Suc (length (e_handlers e)) < 2 ^ 64"
  shows "edge_ok (e\<lparr>e_srv := (e_srv e)\<lparr>srv_nextRequestID := n\<rparr>,
    e_handlers := e_handlers e @ [H_Load sa (format_uint (unat n))]\<rparr>)"
proof -
  have n: "n = of_nat (Suc (length (e_handlers e)))"
    using assms(1,3) by (simp add: edge_ok_def)
  then have u: "unat n = Suc (length (e_handlers e))"
    using assms(4) by (simp only: unat_of_nat) simp
  have "sa \<in> regs (e_srv e)"
    using assms(2) by (force simp: getSession_def regs_def map_get_def dest: map_of_SomeD)
  then have "sa < length (tables (e_srv e))"
    using assms(1) unfolding edge_ok_def slots_ok_def by blast
  then show ?thesis
    using assms(1) slots_ok_request n u
    by (auto simp: edge_ok_def regs_def tables_def simp del: length_tables)
qed

lemma remove_ok:
  assumes "edge_ok e"
  shows "edge_ok (e\<lparr>e_srv := removeSession h sa (e_srv e)\<rparr>)"
proof -
  have "regs (removeSession h sa (e_srv e)) \<subseteq> regs (e_srv e)"
    using set_map_del [of h "srv_sessions (e_srv e)"] by (auto simp: regs_def removeSession_def)
  then show ?thesis
    using assms by (auto simp: edge_ok_def slots_ok_def removeSession_def tables_def)
qed

lemma set_conn_twice: "set_conn j c s e = set_conn j c s (e\<lparr>e_srv := s\<rparr>)"
  by (simp add: set_conn_def)

lemma same_slots_putWS:
  "same_slots s (putWS sa rid k (s\<lparr>heap_ws := w\<rparr>))" "same_slots s (delWS sa rid s)"
  using same_slots_upd(1) [of "\<lambda>x. x\<lparr>sess_wsMap := map_put rid k (sess_wsMap x)\<rparr>" "s\<lparr>heap_ws := w\<rparr>" sa]
  by (simp add: putWS_def same_slots_def tables_def) (simp add: delWS_def same_slots_upd)

text \<open>A goroutine that stays where it is and touches no slot, and one that enters a shutdown.\<close>

lemma handler_stays:
  "edge_ok e \<Longrightarrow> i < length (e_handlers e) \<Longrightarrow> e_handlers e ! i = h \<Longrightarrow> same_slots (e_srv e) s \<Longrightarrow> edge_ok (set_handler i h s e)"
  by (simp add: set_handler_same edge_ok_same)

lemma conn_stays:
  "edge_ok e \<Longrightarrow> j < length (e_conns e) \<Longrightarrow> e_conns e ! j = c \<Longrightarrow> same_slots (e_srv e) s \<Longrightarrow> edge_ok (set_conn j c s e)"
  by (simp add: set_conn_same edge_ok_same)

lemma conn_enter:
  assumes "edge_ok e" "j < length (e_conns e)" "c_addrs c \<subseteq> c_addrs (e_conns e ! j)" "c_slots c = c_slots (e_conns e ! j)"
  shows "edge_ok (set_conn j c (shutdown_enter a (e_srv e)) e)"
  using assms by (intro conn_move [where d = 0])
    (auto simp: shutdown_enter_def same_slots_def add_slots_def tables_upd_sess)

lemma conn_removes:
  assumes "edge_ok e" "j < length (e_conns e)" "c_addrs c = {}" "c_slots c = 0" "c_slots (e_conns e ! j) = 0"
  shows "edge_ok (set_conn j c (removeSession h sa (e_srv e)) e)"
proof -
  have "edge_ok (e\<lparr>e_srv := removeSession h sa (e_srv e)\<rparr>)" using assms(1) by (rule remove_ok)
  then have "edge_ok (set_conn j c (removeSession h sa (e_srv e)) (e\<lparr>e_srv := removeSession h sa (e_srv e)\<rparr>))"
    using assms by (intro conn_move [where d = 0]) (auto simp: add_slots_same)
  then show ?thesis by (simp add: set_conn_def)
qed

lemmas slots_untouched = same_slots_send same_slots_cancel same_slots_upd same_slots_putWS same_slots_handle same_slots_push

lemma edge_step_ok:
  assumes "edge_step U e e'" "edge_ok e" "length (e_handlers e') < 2 ^ 64"
  shows "edge_ok e'"
  using assms
proof (induction rule: edge_step.induct)
  case (request rhost e sa n)
  then show ?case by (intro request_ok) auto
next
  case (cas_ok i e sa rid current)
  then have "current < srv_maxTotalInflight (e_srv e)"
    unfolding edge_ok_def slots_ok_def handlers_ok_def by blast
  with cas_ok show ?case by (intro handler_move [where d = 1]) (auto simp: add_slots_same)
next
  case (try_start_ok i e sa rid ra s)
  then show ?case by (intro handler_start)
next
  case (try_start_full i e sa rid s)
  then have "s = e_srv e" by (auto simp: tryStart_def Let_def split: if_splits)
  with try_start_full show ?case by (intro handler_move [where d = 0]) (auto simp: add_slots_same)
next
  case (finish_del i e sa rid ra s)
  then show ?case by (intro handler_del)
next
  case (finish_gone i e sa rid ra s)
  then have "s = e_srv e" "sess_get sa rid (e_srv e) = None"
    by (auto simp: sess_del_def sess_get_def split: option.splits)
  with finish_gone show ?case by (intro handler_move [where d = 0]) (auto simp: add_slots_same)
next
  case (connect_new first e username sa s1 replaced s2)
  then show ?case by (intro conn_open) auto
next
  case (connect_replace first e username sa s1 old s2)
  then show ?case by (intro conn_open) auto
next
  case (replace_failAll j e sa old n s)
  then show ?case by (intro conn_clear [where a = old]) auto
next
  case (close_failAll j e sa err n s)
  then show ?case by (intro conn_clear [where a = sa]) auto
next
  case (replace_release j e sa n)
  then show ?case by (intro conn_move [where d = "- int n"]) (auto simp: add_slots_same)
next
  case (close_release j e sa n)
  then show ?case by (intro conn_move [where d = "- int n"]) (auto simp: add_slots_same)
qed ((rule handler_stays conn_stays edge_ok_same; (simp add: slots_untouched; fail)) |
    (rule conn_enter conn_removes; (auto; fail)) |
    (rule handler_move [where d = 0] handler_move [where d = 1] handler_move [where d = "- 1"] conn_move [where d = 0];
      (auto simp: add_slots_same; fail)))+

lemma edge_step_handlers: "edge_step U e e' \<Longrightarrow> length (e_handlers e) \<le> length (e_handlers e')"
  by (induction rule: edge_step.induct) (simp_all add: set_handler_def set_conn_def)

lemma edge_init_ok: "edge_init U e \<Longrightarrow> edge_ok e"
proof -
  assume "edge_init U e"
  then obtain cfg where new: "New U cfg = Inr (e_srv e)" and empty: "e_handlers e = []" "e_conns e = []"
    by (auto simp: edge_init_def)
  show ?thesis
    using New_Inr [OF new] empty
    by (simp add: edge_ok_def slots_ok_def handlers_ok_def tables_ok_def regs_def tables_def)
qed

interpretation slots: invariant_system "edge_init U" "edge_step U"
  "\<lambda>e. length (e_handlers e) < 2 ^ 64 \<longrightarrow> edge_ok e"
  by unfold_locales (auto simp: edge_init_ok intro: edge_step_ok dest: edge_step_handlers)

lemmas reachable_ok = slots.reachable_inv [rule_format]

lemma same_limits:
  "tryStart sa rid mi s = (r, s1) \<Longrightarrow> srv_maxTotalInflight s1 = srv_maxTotalInflight s \<and> srv_maxInflight s1 = srv_maxInflight s"
  "sess_del sa rid s = (b, s2) \<Longrightarrow> srv_maxTotalInflight s2 = srv_maxTotalInflight s \<and> srv_maxInflight s2 = srv_maxInflight s"
  "new_session h u s = (sa, s3) \<Longrightarrow> srv_maxTotalInflight s3 = srv_maxTotalInflight s \<and> srv_maxInflight s3 = srv_maxInflight s"
  "putSession_swap sa s = (q, s4) \<Longrightarrow> srv_maxTotalInflight s4 = srv_maxTotalInflight s \<and> srv_maxInflight s4 = srv_maxInflight s"
  "failAll sa e s = (n, s5) \<Longrightarrow> srv_maxTotalInflight s5 = srv_maxTotalInflight s \<and> srv_maxInflight s5 = srv_maxInflight s"
  "same_slots s s6 \<Longrightarrow> srv_maxTotalInflight s6 = srv_maxTotalInflight s \<and> srv_maxInflight s6 = srv_maxInflight s"
  "srv_maxTotalInflight (removeSession h sa s) = srv_maxTotalInflight s \<and> srv_maxInflight (removeSession h sa s) = srv_maxInflight s"
  by (auto simp: tryStart_def sess_put_def sess_del_def new_session_def putSession_swap_def failAll_eq
      same_slots_def removeSession_def Let_def split: if_splits option.splits)

lemma edge_step_limits:
  "edge_step U e e' \<Longrightarrow> srv_maxTotalInflight (e_srv e') = srv_maxTotalInflight (e_srv e)
     \<and> srv_maxInflight (e_srv e') = srv_maxInflight (e_srv e)"
  by (induction rule: edge_step.induct)
    (auto simp: set_handler_def set_conn_def add_slots_def shutdown_enter_def push_outbound_def putWS_def delWS_def
      same_limits(7) dest!: same_limits(1-6) same_slots_send same_slots_cancel same_slots_handle)

interpretation limits: invariant_system "edge_init U" "edge_step U"
  "\<lambda>e. 0 < srv_maxTotalInflight (e_srv e) \<and> 0 < srv_maxInflight (e_srv e)"
  by unfold_locales (auto simp: edge_init_def dest: New_Inr(4,5) edge_step_limits)

subsection \<open>A run\<close>

text \<open>
  One request and one connection from start to end, used to show that the hypotheses of the
  properties hold together: the client registers, a request reserves a slot, is served and
  finished, and the connection ends.
\<close>

definition demo_at ::
  "int \<Rightarrow> (string, nat) gomap \<Rightarrow> 64 word \<Rightarrow> bool \<Rightarrow> (string, nat) gomap \<Rightarrow> responseState list \<Rightarrow> Server" where
  "demo_at tot reg nreq closed table rs = demo_server
     \<lparr>srv_totalInflight := tot, srv_sessions := reg, srv_nextSessionID := 1, srv_nextRequestID := nreq,
      heap_sess := [\<lparr>sess_id = 1, sess_publicHost = ''demo.example.com'', sess_username = ''demo'',
        sess_outbound = \<lparr>ch_buf = [], ch_cap = 16\<rparr>, sess_done = closed, sess_once = closed,
        sess_inflight = table, sess_wsMap = []\<rparr>],
      heap_rs := rs\<rparr>"

definition run0 :: edge where
  "run0 = \<lparr>e_srv = demo_server, e_handlers = [], e_conns = []\<rparr>"

definition run1 :: edge where
  "run1 = \<lparr>e_srv = demo_at 0 [(''demo.example.com'', 0)] 0 False [] [], e_handlers = [], e_conns = [C_Recv 0]\<rparr>"

definition run2 :: edge where
  "run2 = \<lparr>e_srv = demo_at 0 [(''demo.example.com'', 0)] 1 False [] [], e_handlers = [H_Load 0 ''1''], e_conns = [C_Recv 0]\<rparr>"

definition run3 :: edge where
  "run3 = \<lparr>e_srv = demo_at 0 [(''demo.example.com'', 0)] 1 False [] [], e_handlers = [H_Cas 0 ''1'' 0], e_conns = [C_Recv 0]\<rparr>"

definition run4 :: edge where
  "run4 = \<lparr>e_srv = demo_at 1 [(''demo.example.com'', 0)] 1 False [] [], e_handlers = [H_TryStart 0 ''1''], e_conns = [C_Recv 0]\<rparr>"

definition run5 :: edge where
  "run5 = \<lparr>e_srv = demo_at 1 [(''demo.example.com'', 0)] 1 False [(''1'', 0)] [newResponseState], e_handlers = [H_Serving 0 ''1'' 0], e_conns = [C_Recv 0]\<rparr>"

definition run6 :: edge where
  "run6 = \<lparr>e_srv = demo_at 1 [(''demo.example.com'', 0)] 1 False [] [newResponseState], e_handlers = [H_Release], e_conns = [C_Recv 0]\<rparr>"

definition run7 :: edge where
  "run7 = \<lparr>e_srv = demo_at 0 [(''demo.example.com'', 0)] 1 False [] [newResponseState], e_handlers = [H_Returned], e_conns = [C_Recv 0]\<rparr>"

definition run8 :: edge where
  "run8 = \<lparr>e_srv = demo_at 0 [(''demo.example.com'', 0)] 1 False [] [newResponseState], e_handlers = [H_Returned], e_conns = [C_Closing 0 ErrSessionClosed]\<rparr>"

definition run9 :: edge where
  "run9 = \<lparr>e_srv = demo_at 0 [(''demo.example.com'', 0)] 1 True [] [newResponseState], e_handlers = [H_Returned], e_conns = [C_CloseFailAll 0 ErrSessionClosed]\<rparr>"

definition run10 :: edge where
  "run10 = \<lparr>e_srv = demo_at 0 [(''demo.example.com'', 0)] 1 True [] [newResponseState], e_handlers = [H_Returned], e_conns = [C_CloseRelease 0 0]\<rparr>"

definition run11 :: edge where
  "run11 = \<lparr>e_srv = demo_at 0 [(''demo.example.com'', 0)] 1 True [] [newResponseState], e_handlers = [H_Returned], e_conns = [C_Remove 0]\<rparr>"

definition run12 :: edge where
  "run12 = \<lparr>e_srv = demo_at 0 [] 1 True [] [newResponseState], e_handlers = [H_Returned], e_conns = [C_Returned]\<rparr>"

lemmas run_defs = run0_def run1_def run2_def run3_def run4_def run5_def run6_def run7_def run8_def run9_def
  run10_def run11_def run12_def demo_at_def demo_server_def set_handler_def set_conn_def
lemmas run_ops = tryStart_def sess_put_def sess_del_def failAll_eq shutdown_enter_def upd_sess_def add_slots_def
  releaseGlobalSlots_def removeSession_def map_get_def map_put_def map_del_def map_len_def Let_def

lemma run_step1: "edge_step no_tables run0 run1"
proof -
  let ?f = "Some (ClientFrame_Register \<lparr>Register_TunnelId = [], Register_Token = ''tok''\<rparr>)"
  have "Connect_authenticate ?f (e_srv run0) = Inr ''demo''"
    "new_session (Subdomain no_tables ''demo'' (srv_publicDomain (e_srv run0))) ''demo'' (e_srv run0) = (0, demo_session)"
    by code_simp+
  moreover have "putSession_swap 0 demo_session = (None, e_srv run1)"
    by (simp add: putSession_swap_def demo_session_def new_session_def chan_make_def run_defs run_ops)
  ultimately show ?thesis
    using edge_step.connect_new [of ?f run0 "''demo''" no_tables 0 demo_session None "e_srv run1"]
    by (simp add: run0_def run1_def)
qed

lemma run_step2: "edge_step no_tables run1 run2"
proof -
  have "HasPublicHost no_tables (NormalizeHost no_tables ''demo.example.com'') (e_srv run1)"
    "getSession (NormalizeHost no_tables ''demo.example.com'') (e_srv run1) = Some 0" by code_simp+
  moreover have "format_uint 1 = ''1''" by code_simp
  ultimately show ?thesis
    using edge_step.request [of no_tables "''demo.example.com''" run1 0 1] by (simp add: run_defs)
qed

lemma run_step3: "edge_step no_tables run2 run3"
  using edge_step.load_room [of 0 run2 0 "''1''"] by (simp add: run_defs)

lemma run_step4: "edge_step no_tables run3 run4"
  using edge_step.cas_ok [of 0 run3 0 "''1''" 0] by (simp add: run_defs run_ops)

lemma run_step5: "edge_step no_tables run4 run5"
  using edge_step.try_start_ok [of 0 run4 0 "''1''" 0 "e_srv run5"] by (simp add: run_defs run_ops)

lemma run_step6: "edge_step no_tables run5 run6"
  using edge_step.finish_del [of 0 run5 0 "''1''" 0 "e_srv run6"] by (simp add: run_defs run_ops)

lemma run_step7: "edge_step no_tables run6 run7"
  using edge_step.release [of 0 run6] by (simp add: run_defs run_ops)

lemma run_step8: "edge_step no_tables run7 run8"
  using edge_step.recv_end [of 0 run7 0 no_tables ErrSessionClosed] by (simp add: run_defs)

lemma run_step9: "edge_step no_tables run8 run9"
  using edge_step.close_enter [of 0 run8 0 ErrSessionClosed] by (simp add: run_defs run_ops)

lemma run_step10: "edge_step no_tables run9 run10"
  using edge_step.close_failAll [of 0 run9 0 ErrSessionClosed 0 "e_srv run10"] by (simp add: run_defs run_ops)

lemma run_step11: "edge_step no_tables run10 run11"
  using edge_step.close_release [of 0 run10 0 0] by (simp add: run_defs run_ops)

lemma run_step12: "edge_step no_tables run11 run12"
  using edge_step.close_remove [of 0 run11 0] by (simp add: run_defs run_ops)

lemma run_lengths: "length (e_handlers run5) < 2 ^ 64" "length (e_handlers run12) < 2 ^ 64"
  by (simp_all add: run5_def run12_def)

lemma run0_reachable: "reachable (edge_init no_tables) (edge_step no_tables) run0"
  by (rule reach_init) (auto simp: edge_init_def run0_def intro: New_demo)

lemma run5_reachable: "reachable (edge_init no_tables) (edge_step no_tables) run5"
  by (rule run0_reachable [THEN reach_step, OF run_step1, THEN reach_step, OF run_step2, THEN reach_step,
      OF run_step3, THEN reach_step, OF run_step4, THEN reach_step, OF run_step5])

lemma run12_reachable: "reachable (edge_init no_tables) (edge_step no_tables) run12"
  by (rule run5_reachable [THEN reach_step, OF run_step6, THEN reach_step, OF run_step7, THEN reach_step,
      OF run_step8, THEN reach_step, OF run_step9, THEN reach_step, OF run_step10, THEN reach_step,
      OF run_step11, THEN reach_step, OF run_step12])

subsection \<open>Properties\<close>

text \<open>
  C7: in every interleaving of handlers and connections, the global counter equals the requests
  registered in the tables of all sessions plus the slots that some goroutine holds between two
  of its atomic steps: no slot is lost and none is released twice, across refused requests,
  finished requests, replaced sessions and session shutdowns.  The bound is the range of the
  64-bit request counter.
\<close>
theorem slot_accounting:
  assumes "reachable (edge_init U) (edge_step U) e" "length (e_handlers e) < 2 ^ 64"
  shows "srv_totalInflight (e_srv e) = slots_in_tables (e_srv e) + slots_in_hand e"
  using reachable_ok [OF assms]
  by (simp add: edge_ok_def slots_ok_def slots_in_tables_def slots_in_hand_def)

theorem slot_accounting_witness: "srv_totalInflight (e_srv run5) = 1"
proof -
  have "slots_in_tables (e_srv run5) + slots_in_hand run5 = 1" by code_simp
  then show ?thesis using slot_accounting [OF run5_reachable run_lengths(1)] by simp
qed

text \<open>
  C8: the limits hold in every reachable state of the edge: the counter never exceeds
  \<open>maxTotalInflight\<close> and is never negative, and no session's table exceeds \<open>maxInflight\<close>.
\<close>
theorem slot_limits:
  assumes "reachable (edge_init U) (edge_step U) e" "length (e_handlers e) < 2 ^ 64"
  shows "0 \<le> srv_totalInflight (e_srv e) \<and> srv_totalInflight (e_srv e) \<le> srv_maxTotalInflight (e_srv e)
    \<and> list_all (\<lambda>x. int (map_len (sess_inflight x)) \<le> srv_maxInflight (e_srv e)) (heap_sess (e_srv e))"
proof -
  note ok = reachable_ok [OF assms(1,2), unfolded edge_ok_def, THEN conjunct2]
  note pos = limits.reachable_inv [OF assms(1)]
  have h: "0 \<le> h_slots h" for h by (cases h) auto
  have c: "0 \<le> c_slots c" for c by (cases c) auto
  have "0 \<le> srv_totalInflight (e_srv e)"
    using ok by (auto simp: slots_ok_def h c intro!: add_nonneg_nonneg sum_list_nonneg)
  moreover have "int (map_len (sess_inflight x)) \<le> srv_maxInflight (e_srv e)" if "x \<in> set (heap_sess (e_srv e))" for x
  proof -
    from that obtain a where a: "a < length (heap_sess (e_srv e))" "heap_sess (e_srv e) ! a = x"
      by (auto simp: in_set_conv_nth)
    then show ?thesis using slots_ok_table [OF ok, of a] pos by (simp add: tables_def)
  qed
  ultimately show ?thesis using ok pos by (simp add: slots_ok_def list_all_iff)
qed

theorem slot_limits_witness: "srv_totalInflight (e_srv run5) \<le> srv_maxTotalInflight (e_srv run5)"
  using slot_limits [OF run5_reachable run_lengths(1)] by blast

text \<open>
  No slot leaks.  Once every handler and every connection has returned, the counter is
  zero and all in-flight tables are empty, however the requests ended.
\<close>
lemma slots_no_leak:
  assumes "reachable (edge_init U) (edge_step U) e" "length (e_handlers e) < 2 ^ 64"
    and "list_all (\<lambda>h. h = H_Returned) (e_handlers e)" "list_all (\<lambda>c. c = C_Returned) (e_conns e)"
  shows "srv_totalInflight (e_srv e) = 0
    \<and> list_all (\<lambda>x. map_len (sess_inflight x) = 0) (heap_sess (e_srv e))"
proof -
  note ok = reachable_ok [OF assms(1,2), unfolded edge_ok_def, THEN conjunct2]
  have empty: "map_len (tables (e_srv e) ! a) = 0" if "a < length (tables (e_srv e))" for a
  proof -
    have "map_get (tables (e_srv e) ! a) rid = None" for rid
    proof (rule ccontr)
      assume "map_get (tables (e_srv e) ! a) rid \<noteq> None"
      then obtain k ra where "k < length (e_handlers e)" "e_handlers e ! k = H_Serving a rid ra"
        using slots_ok_owner [OF ok \<open>a < length (tables (e_srv e))\<close>] by blast
      then show False using assms(3) by (auto simp: list_all_length)
    qed
    then have "dom (map_get (tables (e_srv e) ! a)) = {}" by auto
    then show ?thesis using slots_ok_table [OF ok that] gm.len_get by fastforce
  qed
  have "map h_slots (e_handlers e) = map (\<lambda>_. 0) (e_handlers e)" "map c_slots (e_conns e) = map (\<lambda>_. 0) (e_conns e)"
    using assms(3,4) by (auto simp: list_all_iff)
  moreover have "map (int \<circ> map_len) (tables (e_srv e)) = map (\<lambda>_. 0) (tables (e_srv e))"
    using empty by (auto simp: in_set_conv_nth)
  ultimately have "srv_totalInflight (e_srv e) = 0"
    using ok by (simp only: slots_ok_def sum_list_0)
  moreover have "map_len (sess_inflight x) = 0" if "x \<in> set (heap_sess (e_srv e))" for x
    using that empty by (auto simp: in_set_conv_nth tables_def)
  ultimately show ?thesis by (simp add: list_all_iff)
qed

theorem slots_no_leak_witness: "srv_totalInflight (e_srv run12) = 0"
proof -
  have "list_all (\<lambda>h. h = H_Returned) (e_handlers run12)"
    "list_all (\<lambda>c. c = C_Returned) (e_conns run12)" by code_simp+
  from slots_no_leak [OF run12_reachable run_lengths(2) this] show ?thesis by blast
qed

end
