(* ===== verification/ServerServe.thy ===== *)
theory ServerServe
  imports ServerState Headers
begin

text \<open>
  \<open>ServeHTTP\<close> and \<open>forwardRequest\<close> of \<open>server/server.go\<close>: the choice of a session for a request,
  the frames a request is turned into, and the relay of the response from the session's receive
  loop through the queues of a response state to the browser.
\<close>

subsection \<open>Dispatch\<close>

record http_request =
  r_Method :: string
  r_ProtoMajor :: nat
  r_TLS :: bool
  r_Host :: string
  r_Path :: string
  r_RawPath :: string
  r_RawQuery :: string
  r_Header :: http_header
  r_RemoteAddr :: string

datatype serve_route = RouteNotFound | RouteNoTunnel | RouteWebSocket nat | RouteForward nat

definition ServeHTTP_route :: "go_unicode \<Rightarrow> http_request \<Rightarrow> Server \<Rightarrow> serve_route" where
  "ServeHTTP_route U r s =
     (let host = NormalizeHost U (r_Host r) in
      if \<not> HasPublicHost U host s then RouteNotFound
      else case getSession host s of
        None \<Rightarrow> RouteNoTunnel
      | Some sa \<Rightarrow>
          if equal_fold U (header_get (r_Header r) ''Upgrade'') ''websocket'' then RouteWebSocket sa
          else RouteForward sa)"

definition schemeOf :: "http_request \<Rightarrow> string" where
  "schemeOf r = (if r_TLS r then ''https'' else ''http'')"

subsection \<open>\<open>forwardRequest\<close>\<close>

text \<open>
  The body is the list of results its successive \<open>Read\<close> calls return, or \<^term>\<open>None\<close> for a nil body.
  A program counter stands for each point where the function can block or return; a step returns
  the possible continuations, each with the frame it enqueued.
\<close>

type_synonym body_read = "bytes \<times> go_error option"

datatype forward_pc =
    F_SendStart
  | F_CheckCtx "body_read list"
  | F_Read "body_read list"
  | F_SendChunk bytes "go_error option" "body_read list"
  | F_SendEnd
  | F_Done "go_error option"

definition request_start :: "go_unicode \<Rightarrow> http_request \<Rightarrow> string \<Rightarrow> ServerFrame_Msg" where
  "request_start U r rid = ServerFrame_RequestStart
     \<lparr>RequestStart_RequestId = rid, RequestStart_Method = r_Method r, RequestStart_Scheme = schemeOf r,
      RequestStart_Host = r_Host r, RequestStart_Path = r_Path r, RequestStart_RawQuery = r_RawQuery r,
      RequestStart_Headers = ToProto U (r_Header r), RequestStart_RemoteAddr = r_RemoteAddr r,
      RequestStart_RawPath = r_RawPath r\<rparr>"

definition request_body :: "string \<Rightarrow> bytes \<Rightarrow> ServerFrame_Msg" where
  "request_body rid c = ServerFrame_RequestBody \<lparr>RequestBody_RequestId = rid, RequestBody_Chunk = c\<rparr>"

definition request_end :: "string \<Rightarrow> ServerFrame_Msg" where
  "request_end rid = ServerFrame_RequestEnd \<lparr>RequestEnd_RequestId = rid\<rparr>"

definition send_then ::
  "go_error option \<Rightarrow> nat \<Rightarrow> ServerFrame_Msg \<Rightarrow> forward_pc \<Rightarrow> Server \<Rightarrow>
   (forward_pc \<times> ServerFrame_Msg list \<times> Server) list" where
  "send_then ctxErr sa f k s =
     map (\<lambda>(err, s'). case err of Some e \<Rightarrow> (F_Done (Some e), [], s') | None \<Rightarrow> (k, [f], s'))
       (sendFrameCtx ctxErr sa (Some f) s)"

definition after_read :: "go_error option \<Rightarrow> body_read list \<Rightarrow> forward_pc" where
  "after_read err reads =
     (case err of
        None \<Rightarrow> F_CheckCtx reads
      | Some e \<Rightarrow> if e = ErrEOF then F_SendEnd else F_Done (Some e))"

fun forward_step ::
  "go_unicode \<Rightarrow> http_request \<Rightarrow> body_read list option \<Rightarrow> string \<Rightarrow> nat \<Rightarrow> go_error option \<Rightarrow>
   forward_pc \<Rightarrow> Server \<Rightarrow> (forward_pc \<times> ServerFrame_Msg list \<times> Server) list" where
  "forward_step U r body rid sa ctxErr F_SendStart s =
     send_then ctxErr sa (request_start U r rid)
       (case body of None \<Rightarrow> F_SendEnd | Some reads \<Rightarrow> F_CheckCtx reads) s"
| "forward_step U r body rid sa ctxErr (F_CheckCtx reads) s =
     (case ctxErr of Some e \<Rightarrow> [(F_Done (Some e), [], s)] | None \<Rightarrow> [(F_Read reads, [], s)])"
| "forward_step U r body rid sa ctxErr (F_Read []) s = []"
| "forward_step U r body rid sa ctxErr (F_Read ((chunk, err) # reads)) s =
     (if chunk \<noteq> [] then [(F_SendChunk chunk err reads, [], s)] else [(after_read err reads, [], s)])"
| "forward_step U r body rid sa ctxErr (F_SendChunk chunk err reads) s =
     send_then ctxErr sa (request_body rid chunk) (after_read err reads) s"
| "forward_step U r body rid sa ctxErr F_SendEnd s =
     send_then ctxErr sa (request_end rid) (F_Done None) s"
| "forward_step U r body rid sa ctxErr (F_Done err) s = []"

text \<open>
  Runs of \<open>forwardRequest\<close> with the frames they enqueue.  Between two steps other goroutines may
  change the server and cancel the context, so each step may start from any server state.
\<close>

inductive forward_run ::
  "go_unicode \<Rightarrow> http_request \<Rightarrow> body_read list option \<Rightarrow> string \<Rightarrow> nat \<Rightarrow>
   forward_pc \<Rightarrow> ServerFrame_Msg list \<Rightarrow> forward_pc \<Rightarrow> bool"
  for U r body rid sa where
  forward_refl: "forward_run U r body rid sa pc [] pc"
| forward_next: "(pc', fs, s') \<in> set (forward_step U r body rid sa ctxErr pc s) \<Longrightarrow>
     forward_run U r body rid sa pc' gs pc'' \<Longrightarrow> forward_run U r body rid sa pc (fs @ gs) pc''"

text \<open>The body up to the read that reports an error, and that error.\<close>

fun body_chunks :: "body_read list \<Rightarrow> bytes list" where
  "body_chunks [] = []"
| "body_chunks ((c, None) # rest) = (if c = [] then body_chunks rest else c # body_chunks rest)"
| "body_chunks ((c, Some e) # rest) = (if c = [] then [] else [c])"

subsection \<open>Relay of the response\<close>

text \<open>
  What a handler does to the browser's connection: status and headers, \<open>http.Error\<close>, body writes
  and flushes (the writer of \<open>net/http\<close> is a \<open>Flusher\<close>), and for a hijacked connection the
  handshake, raw writes and the close.
\<close>

datatype w_event =
    W_Start http_header int
  | W_Error string int
  | W_Write bytes
  | W_Flush
  | W_Hijack
  | W_Raw bytes
  | W_Conn bytes
  | W_Close

definition publicBadGatewayMessage :: string where
  "publicBadGatewayMessage = ''upstream tunnel request failed''"

definition writeBadGateway :: w_event where
  "writeBadGateway = W_Error publicBadGatewayMessage 502"

definition write_headers :: "go_unicode \<Rightarrow> ResponseStart \<Rightarrow> w_event" where
  "write_headers U st = W_Start (Copy [] (FromProto U (ResponseStart_Headers st))) (sint (ResponseStart_StatusCode st))"

datatype serve_pc = S_Wait | S_Stream | S_Drain | S_Returned

text \<open>
  One step of the handler after the request was forwarded: its two \<open>select\<close> loops and the drain
  loop.  Each result carries the next position, what was written to the browser, the response
  state, and whether the handler gave up because its context was done or a write failed.
\<close>

definition write_chunk :: "bool \<Rightarrow> bytes \<Rightarrow> serve_pc \<Rightarrow> responseState \<Rightarrow> (serve_pc \<times> w_event list \<times> responseState \<times> bool) list" where
  "write_chunk writeFails chunk k r =
     (if chunk = [] then [(k, [], r, False)]
      else if writeFails then [(S_Returned, [], r, True)]
      else [(k, [W_Write chunk, W_Flush], r, False)])"

definition wait_done :: "go_unicode \<Rightarrow> responseState \<Rightarrow> serve_pc \<times> w_event list \<times> responseState \<times> bool" where
  "wait_done U r =
     (case consumeStart r of
        (Some st, r') \<Rightarrow> (S_Stream, [write_headers U st], r', False)
      | (None, r') \<Rightarrow>
          (case consumeErr r' of
             (Some e, r'') \<Rightarrow> (S_Returned, [writeBadGateway], r'', False)
           | (None, r'') \<Rightarrow> (S_Returned, [W_Error ''tunnel closed response before sending headers'' 502], r'', False)))"

fun serve_step ::
  "go_unicode \<Rightarrow> bool \<Rightarrow> bool \<Rightarrow> serve_pc \<Rightarrow> responseState \<Rightarrow> (serve_pc \<times> w_event list \<times> responseState \<times> bool) list" where
  "serve_step U ctxDone writeFails S_Wait r =
     (case chan_recv (rs_start r) of
        Some (st, c) \<Rightarrow> [(S_Stream, [write_headers U st], r\<lparr>rs_start := c\<rparr>, False)] | None \<Rightarrow> []) @
     (case chan_recv (rs_err r) of
        Some (e, c) \<Rightarrow> [(S_Returned, [writeBadGateway], r\<lparr>rs_err := c\<rparr>, False)] | None \<Rightarrow> []) @
     (if rs_done r then [wait_done U r] else []) @
     (if ctxDone then [(S_Returned, [], r, True)] else [])"
| "serve_step U ctxDone writeFails S_Stream r =
     (case chan_recv (rs_body r) of
        Some (chunk, c) \<Rightarrow> write_chunk writeFails chunk S_Stream (r\<lparr>rs_body := c\<rparr>) | None \<Rightarrow> []) @
     (if rs_done r then [(S_Drain, [], r, False)] else []) @
     (if ctxDone then [(S_Returned, [], r, True)] else [])"
| "serve_step U ctxDone writeFails S_Drain r =
     (case consumeBody r of
        (Some chunk, r') \<Rightarrow> write_chunk writeFails chunk S_Drain r'
      | (None, r') \<Rightarrow> [(S_Returned, [], snd (consumeErr r'), False)])"
| "serve_step U ctxDone writeFails S_Returned r = []"

text \<open>What the receive loop does with a frame it has looked up the response state for.\<close>

fun deliver :: "ClientFrame_Msg \<Rightarrow> responseState \<Rightarrow> responseState list" where
  "deliver (ClientFrame_ResponseStart m) r = deliver_start m r"
| "deliver (ClientFrame_ResponseBody m) r = deliver_body (ResponseBody_Chunk m) r"
| "deliver (ClientFrame_ResponseEnd m) r = [rs_finish r]"
| "deliver (ClientFrame_ResponseError m) r = [rs_fail (Some (ErrNew (ResponseError_Message m))) r]"
| "deliver _ r = [r]"

text \<open>
  One request in flight: the response state, the handler with what it wrote so far, the frames
  the client has sent and the receive loop has not handled yet, the frame it is blocked on, and
  whether the request is still registered in the session.  \<open>rl_fault\<close> records that a context was
  done, a write failed or the session was shut down.
\<close>

record relay =
  rl_rs :: responseState
  rl_pc :: serve_pc
  rl_out :: "w_event list"
  rl_todo :: "ClientFrame_Msg list"
  rl_recv :: "ClientFrame_Msg option"
  rl_registered :: bool
  rl_fault :: bool

inductive relay_step :: "go_unicode \<Rightarrow> relay \<Rightarrow> relay \<Rightarrow> bool" for U where
  lookup: "rl_recv x = None \<Longrightarrow> rl_todo x = f # fs \<Longrightarrow>
     relay_step U x (x\<lparr>rl_todo := fs, rl_recv := (if rl_registered x then Some f else None)\<rparr>)"
| receive: "rl_recv x = Some f \<Longrightarrow> r \<in> set (deliver f (rl_rs x)) \<Longrightarrow>
     relay_step U x (x\<lparr>rl_rs := r, rl_recv := None\<rparr>)"
| handle: "(pc, evs, r, gave_up) \<in> set (serve_step U ctxDone writeFails (rl_pc x) (rl_rs x)) \<Longrightarrow>
     relay_step U x (x\<lparr>rl_rs := r, rl_pc := pc, rl_out := rl_out x @ evs, rl_fault := rl_fault x \<or> gave_up\<rparr>)"
| finish: "rl_pc x = S_Returned \<Longrightarrow> rl_registered x \<Longrightarrow> relay_step U x (x\<lparr>rl_registered := False\<rparr>)"
| session_fail: "rl_registered x \<Longrightarrow>
     relay_step U x (x\<lparr>rl_rs := rs_fail (Some e) (rl_rs x), rl_registered := False, rl_fault := True\<rparr>)"

definition relay_init :: "ClientFrame_Msg list \<Rightarrow> relay \<Rightarrow> bool" where
  "relay_init fs x \<longleftrightarrow>
     x = \<lparr>rl_rs = newResponseState, rl_pc = S_Wait, rl_out = [], rl_todo = fs, rl_recv = None,
          rl_registered = True, rl_fault = False\<rparr>"

definition written :: "go_unicode \<Rightarrow> ResponseStart \<Rightarrow> bytes list \<Rightarrow> w_event list" where
  "written U st cs =
     write_headers U st # concat (map (\<lambda>c. if c = [] then [] else [W_Write c, W_Flush]) cs)"


definition relay_flow :: "string \<Rightarrow> relay \<Rightarrow> ClientFrame_Msg list" where
  "relay_flow rid x =
     map ClientFrame_ResponseStart (ch_buf (rs_start (rl_rs x))) @
     map (response_body rid) (ch_buf (rs_body (rl_rs x))) @
     (case rl_recv x of None \<Rightarrow> [] | Some f \<Rightarrow> [f])"

text \<open>
  What the browser may have been shown when the handler has returned: nothing, one fixed 502, or
  the status and headers with the chunks of a prefix of the body.
\<close>

definition shown_ok :: "go_unicode \<Rightarrow> ResponseStart \<Rightarrow> bytes list \<Rightarrow> w_event list \<Rightarrow> bool" where
  "shown_ok U st cs out \<longleftrightarrow>
     out = [] \<or> out = [writeBadGateway] \<or>
     out = [W_Error ''tunnel closed response before sending headers'' 502] \<or>
     (\<exists>ws zs. cs = ws @ zs \<and> out = written U st ws)"

definition hist_ok :: "go_unicode \<Rightarrow> string \<Rightarrow> ResponseStart \<Rightarrow> ClientFrame_Msg list \<Rightarrow> relay \<Rightarrow> bool" where
  "hist_ok U rid st hs x \<longleftrightarrow>
     (if rl_pc x = S_Wait then hs = [] \<and> rl_out x = []
      else \<exists>ws. hs = ClientFrame_ResponseStart st # map (response_body rid) ws \<and> rl_out x = written U st ws)"

definition rest_ok :: "string \<Rightarrow> ClientFrame_Msg list \<Rightarrow> relay \<Rightarrow> bool" where
  "rest_ok rid zs x \<longleftrightarrow>
     (rl_registered x \<longrightarrow>
        (if rs_done (rl_rs x) then zs = [response_end rid] \<and> rl_recv x = None \<and> rl_todo x = []
         else zs = rl_todo x))"

definition relay_ok :: "go_unicode \<Rightarrow> string \<Rightarrow> ResponseStart \<Rightarrow> bytes list \<Rightarrow> relay \<Rightarrow> bool" where
  "relay_ok U rid st cs x \<longleftrightarrow>
     rs_wf (rl_rs x) \<and>
     (rl_pc x \<noteq> S_Returned \<longrightarrow>
        (\<exists>hs zs. hs @ relay_flow rid x @ zs = response_frames rid st cs \<and>
           hist_ok U rid st hs x \<and> rest_ok rid zs x)) \<and>
     (rl_pc x = S_Drain \<longrightarrow> rs_done (rl_rs x)) \<and>
     (rl_pc x = S_Returned \<longrightarrow> shown_ok U st cs (rl_out x)) \<and>
     (\<not> rl_fault x \<longrightarrow>
        ch_buf (rs_err (rl_rs x)) = [] \<and> (rl_pc x \<noteq> S_Returned \<longrightarrow> rl_registered x) \<and>
        (rl_pc x = S_Returned \<longrightarrow>
           rl_out x = written U st cs \<and> rl_todo x = [] \<and> rl_recv x = None))"

lemma written_snoc:
  "written U st (ws @ [c]) = written U st ws @ (if c = [] then [] else [W_Write c, W_Flush])"
  by (simp add: written_def)


subsection \<open>Every step keeps the relay well-formed\<close>

lemma relay_okE:
  assumes "relay_ok U rid st cs x" "rl_pc x \<noteq> S_Returned"
  obtains hs zs where "hs @ relay_flow rid x @ zs = response_frames rid st cs" "hist_ok U rid st hs x"
    "rest_ok rid zs x"
  using assms by (auto simp: relay_ok_def)

lemma relay_okI:
  assumes "relay_ok U rid st cs x" "rl_pc y = rl_pc x" "rl_out y = rl_out x" "rl_fault y \<longleftrightarrow> rl_fault x"
    "rl_registered y \<longleftrightarrow> rl_registered x" "rs_wf (rl_rs y)" "rs_done (rl_rs x) \<longrightarrow> rs_done (rl_rs y)"
    "\<not> rl_fault x \<Longrightarrow> ch_buf (rs_err (rl_rs y)) = ch_buf (rs_err (rl_rs x))"
    "rl_pc x = S_Returned \<Longrightarrow> rl_fault x"
    "\<And>hs zs. hs @ relay_flow rid x @ zs = response_frames rid st cs \<Longrightarrow> rest_ok rid zs x \<Longrightarrow>
       \<exists>us. hs @ relay_flow rid y @ us = response_frames rid st cs \<and> rest_ok rid us y"
  shows "relay_ok U rid st cs y"
proof -
  have "\<exists>hs zs. hs @ relay_flow rid y @ zs = response_frames rid st cs \<and> hist_ok U rid st hs y \<and> rest_ok rid zs y"
    if pc: "rl_pc y \<noteq> S_Returned"
  proof -
    obtain hs zs where h: "hs @ relay_flow rid x @ zs = response_frames rid st cs" "hist_ok U rid st hs x"
      "rest_ok rid zs x"
      by (rule relay_okE [OF assms(1)]) (use assms(2) pc in auto)
    then have "hist_ok U rid st hs y" using assms(2,3) by (simp add: hist_ok_def)
    with assms(10) [OF h(1,3)] show ?thesis by blast
  qed
  with assms(1-9) show ?thesis unfolding relay_ok_def by metis
qed

lemma relay_ok_lookup:
  assumes ok: "relay_ok U rid st cs x" and x: "rl_recv x = None" "rl_todo x = f # fs"
  shows "relay_ok U rid st cs (x\<lparr>rl_todo := fs, rl_recv := (if rl_registered x then Some f else None)\<rparr>)"
    (is "relay_ok U rid st cs ?y")
proof (rule relay_okI [OF ok])
  show "rl_fault x" if "rl_pc x = S_Returned"
    using ok that x by (auto simp: relay_ok_def)
  fix hs zs
  assume h: "hs @ relay_flow rid x @ zs = response_frames rid st cs" "rest_ok rid zs x"
  show "\<exists>us. hs @ relay_flow rid ?y @ us = response_frames rid st cs \<and> rest_ok rid us ?y"
  proof (cases "rl_registered x")
    case True
    then have "zs = f # fs" "\<not> rs_done (rl_rs x)" using h(2) x by (auto simp: rest_ok_def split: if_splits)
    with h x True show ?thesis by (intro exI [of _ fs]) (simp add: relay_flow_def rest_ok_def)
  next
    case False
    with h x show ?thesis by (intro exI [of _ zs]) (simp add: relay_flow_def rest_ok_def)
  qed
qed (use ok in \<open>auto simp: relay_ok_def\<close>)

lemma rs_wf_deliver_any: "rs_wf r \<Longrightarrow> r' \<in> set (deliver f r) \<Longrightarrow> rs_wf r'"
  by (cases f) (auto intro: rs_wf_deliver rs_wf_finish rs_wf_fail)

lemma deliver_keeps_done: "r' \<in> set (deliver f r) \<Longrightarrow> rs_done r \<Longrightarrow> rs_done r'"
  by (cases f) (auto simp: deliver_start_def deliver_body_def rs_finish_def rs_fail_keeps_done split: if_splits)

lemma relay_ok_receive:
  assumes ok: "relay_ok U rid st cs x" and x: "rl_recv x = Some f" and r: "r \<in> set (deliver f (rl_rs x))"
  shows "relay_ok U rid st cs (x\<lparr>rl_rs := r, rl_recv := None\<rparr>)" (is "relay_ok U rid st cs ?y")
proof (rule relay_okI [OF ok])
  show fault: "rl_fault x" if "rl_pc x = S_Returned"
    using ok that x by (auto simp: relay_ok_def)
  have wf: "rs_wf (rl_rs x)" using ok by (simp add: relay_ok_def)
  then show "rs_wf (rl_rs ?y)" using r by (simp add: rs_wf_deliver_any)
  show "rs_done (rl_rs x) \<longrightarrow> rs_done (rl_rs ?y)" using r by (simp add: deliver_keeps_done)
  let ?b = "map ClientFrame_ResponseStart (ch_buf (rs_start (rl_rs x))) @
    map (response_body rid) (ch_buf (rs_body (rl_rs x)))"
  have split: "(hs @ ?b) @ f # zs = response_frames rid st cs"
    if "hs @ relay_flow rid x @ zs = response_frames rid st cs" for hs zs
    using that x by (simp add: relay_flow_def)
  show "ch_buf (rs_err (rl_rs ?y)) = ch_buf (rs_err (rl_rs x))" if nf: "\<not> rl_fault x"
  proof -
    obtain hs zs where "hs @ relay_flow rid x @ zs = response_frames rid st cs"
      by (rule relay_okE [OF ok]) (use fault nf in auto)
    from split [OF this] show ?thesis
      by (cases rule: frames_split)
        (use r in \<open>auto simp: response_body_def response_end_def deliver_start_def deliver_body_def rs_finish_def
           split: if_splits\<close>)
  qed
  fix hs zs
  assume h: "hs @ relay_flow rid x @ zs = response_frames rid st cs" "rest_ok rid zs x"
  from split [OF h(1)] show "\<exists>us. hs @ relay_flow rid ?y @ us = response_frames rid st cs \<and> rest_ok rid us ?y"
  proof (cases rule: frames_split)
    case start
    then show ?thesis
      using h r x wf by (auto simp: relay_flow_def rest_ok_def deliver_start_def chan_send_def split: if_splits)
  next
    case (body ws c vs)
    then show ?thesis
      using h r x wf
      by (auto simp: relay_flow_def rest_ok_def deliver_body_def chan_send_def response_body_def split: if_splits)
  next
    case fin
    then show ?thesis
      using h r x wf
      by (intro exI [of _ "f # zs"])
        (auto simp: relay_flow_def rest_ok_def response_end_def rs_finish_def rs_wf_def split: if_splits)
  qed
qed simp_all


lemma serve_step_Wait:
  assumes "(pc, evs, r', g) \<in> set (serve_step U ctxDone writeFails S_Wait r)"
  obtains (start) st bs where "ch_buf (rs_start r) = st # bs" "pc = S_Stream" "evs = [write_headers U st]"
      "r' = r\<lparr>rs_start := (rs_start r)\<lparr>ch_buf := bs\<rparr>\<rparr>" "\<not> g"
    | (err) e es where "ch_buf (rs_err r) = e # es" "pc = S_Returned" "evs = [writeBadGateway]"
      "r' = r\<lparr>rs_err := (rs_err r)\<lparr>ch_buf := es\<rparr>\<rparr>" "\<not> g"
    | (closed) "rs_done r" "ch_buf (rs_start r) = []" "ch_buf (rs_err r) = []" "pc = S_Returned" "r' = r"
      "evs = [W_Error ''tunnel closed response before sending headers'' 502]" "\<not> g"
    | (ctx) "pc = S_Returned" "evs = []" "r' = r" "g"
  using assms
  by (auto simp: chan_recv_def wait_done_def consumeStart_def consumeErr_def split: list.splits if_splits)

lemma write_chunkE:
  assumes "(pc, evs, r', g) \<in> set (write_chunk writeFails chunk k r)"
  obtains (sent) "pc = k" "evs = (if chunk = [] then [] else [W_Write chunk, W_Flush])" "r' = r" "\<not> g"
    | (failed) "pc = S_Returned" "evs = []" "r' = r" "g"
  using assms by (auto simp: write_chunk_def split: if_splits)

lemma serve_step_Stream:
  assumes "(pc, evs, r', g) \<in> set (serve_step U ctxDone writeFails S_Stream r)"
  obtains (chunk) c bs where "ch_buf (rs_body r) = c # bs" "pc = S_Stream"
      "evs = (if c = [] then [] else [W_Write c, W_Flush])" "r' = r\<lparr>rs_body := (rs_body r)\<lparr>ch_buf := bs\<rparr>\<rparr>" "\<not> g"
    | (failed) c bs where "ch_buf (rs_body r) = c # bs" "pc = S_Returned" "evs = []"
      "r' = r\<lparr>rs_body := (rs_body r)\<lparr>ch_buf := bs\<rparr>\<rparr>" "g"
    | (closed) "rs_done r" "pc = S_Drain" "evs = []" "r' = r" "\<not> g"
    | (ctx) "pc = S_Returned" "evs = []" "r' = r" "g"
  using assms
  by (auto simp: chan_recv_def split: list.splits if_splits elim!: write_chunkE)

lemma serve_step_Drain:
  assumes "(pc, evs, r', g) \<in> set (serve_step U ctxDone writeFails S_Drain r)"
  obtains (chunk) c bs where "ch_buf (rs_body r) = c # bs" "pc = S_Drain"
      "evs = (if c = [] then [] else [W_Write c, W_Flush])" "r' = r\<lparr>rs_body := (rs_body r)\<lparr>ch_buf := bs\<rparr>\<rparr>" "\<not> g"
    | (failed) c bs where "ch_buf (rs_body r) = c # bs" "pc = S_Returned" "evs = []"
      "r' = r\<lparr>rs_body := (rs_body r)\<lparr>ch_buf := bs\<rparr>\<rparr>" "g"
    | (empty) "ch_buf (rs_body r) = []" "pc = S_Returned" "evs = []" "r' = snd (consumeErr r)" "\<not> g"
  using assms
  by (auto simp: consumeBody_def chan_recv_def split: list.splits if_splits elim!: write_chunkE)

lemma rs_wf_take [simp]:
  "rs_wf r \<Longrightarrow> ch_buf (rs_start r) = x # xs \<Longrightarrow> rs_wf (r\<lparr>rs_start := (rs_start r)\<lparr>ch_buf := xs\<rparr>\<rparr>)"
  "rs_wf r \<Longrightarrow> ch_buf (rs_body r) = c # bs \<Longrightarrow> rs_wf (r\<lparr>rs_body := (rs_body r)\<lparr>ch_buf := bs\<rparr>\<rparr>)"
  "rs_wf r \<Longrightarrow> ch_buf (rs_err r) = e # es \<Longrightarrow> rs_wf (r\<lparr>rs_err := (rs_err r)\<lparr>ch_buf := es\<rparr>\<rparr>)"
  by (auto simp: rs_wf_def chan_wf_def)

lemma relay_ok_Wait:
  assumes ok: "relay_ok U rid st cs x" and x: "rl_pc x = S_Wait"
    and h: "(pc, evs, r, g) \<in> set (serve_step U ctxDone writeFails S_Wait (rl_rs x))"
  shows "relay_ok U rid st cs
    (x\<lparr>rl_rs := r, rl_pc := pc, rl_out := rl_out x @ evs, rl_fault := rl_fault x \<or> g\<rparr>)"
    (is "relay_ok U rid st cs ?y")
proof -
  obtain hs zs where hz: "hs @ relay_flow rid x @ zs = response_frames rid st cs" "hist_ok U rid st hs x"
    "rest_ok rid zs x"
    by (rule relay_okE [OF ok]) (use x in auto)
  then have hs: "hs = []" "rl_out x = []" using x by (simp_all add: hist_ok_def)
  have wf: "rs_wf (rl_rs x)" using ok by (simp add: relay_ok_def)
  from h show ?thesis
  proof (cases rule: serve_step_Wait)
    case (start st' bs)
    have "bs = []" using wf start(1) by (auto simp: rs_wf_def chan_wf_def)
    moreover have "st' = st"
      using hz(1) hs start(1) by (simp add: relay_flow_def response_frames_def)
    ultimately have "[ClientFrame_ResponseStart st] @ relay_flow rid ?y @ zs = response_frames rid st cs \<and>
      hist_ok U rid st [ClientFrame_ResponseStart st] ?y \<and> rest_ok rid zs ?y"
      using start hs hz by (simp add: hist_ok_def written_def relay_flow_def rest_ok_def)
    then have "\<exists>hs zs. hs @ relay_flow rid ?y @ zs = response_frames rid st cs \<and>
      hist_ok U rid st hs ?y \<and> rest_ok rid zs ?y" by (intro exI)
    moreover have "rl_pc ?y = S_Stream" "rs_wf (rl_rs ?y)" "rl_registered ?y = rl_registered x"
      "rl_fault ?y = rl_fault x" "rs_err (rl_rs ?y) = rs_err (rl_rs x)"
      using start wf by simp_all
    ultimately show ?thesis using ok x unfolding relay_ok_def by auto
  next
    case (err e es)
    with ok x hs show ?thesis by (auto simp: relay_ok_def shown_ok_def)
  next
    case closed
    have "rl_fault x"
    proof (rule ccontr)
      assume "\<not> rl_fault x"
      then have "rl_registered x" using ok x by (simp add: relay_ok_def)
      then have "zs = [response_end rid]" "rl_recv x = None" using hz(3) closed by (simp_all add: rest_ok_def)
      with hz(1) hs closed show False
        by (cases "ch_buf (rs_body (rl_rs x))") (auto simp: relay_flow_def response_frames_def)
    qed
    with ok x hs closed show ?thesis by (auto simp: relay_ok_def shown_ok_def)
  next
    case ctx
    with ok x hs show ?thesis by (auto simp: relay_ok_def shown_ok_def)
  qed
qed


lemma relay_body_head:
  assumes ok: "relay_ok U rid st cs x" and x: "rl_pc x = S_Stream \<or> rl_pc x = S_Drain"
  obtains ws vs zs where "cs = ws @ vs" "rl_out x = written U st ws" "ch_buf (rs_start (rl_rs x)) = []"
    "(ClientFrame_ResponseStart st # map (response_body rid) ws) @ relay_flow rid x @ zs = response_frames rid st cs"
    "rest_ok rid zs x"
proof -
  have nr: "rl_pc x \<noteq> S_Returned" using x by auto
  obtain hs zs where hz: "hs @ relay_flow rid x @ zs = response_frames rid st cs" "hist_ok U rid st hs x"
    "rest_ok rid zs x"
    by (rule relay_okE [OF ok nr])
  then obtain ws where ws: "hs = ClientFrame_ResponseStart st # map (response_body rid) ws"
    "rl_out x = written U st ws" using x by (auto simp: hist_ok_def)
  then obtain vs where vs: "cs = ws @ vs" using frames_prefix hz(1) by blast
  have "ch_buf (rs_start (rl_rs x)) = []"
  proof (rule ccontr)
    assume "ch_buf (rs_start (rl_rs x)) \<noteq> []"
    then obtain s ss where "ch_buf (rs_start (rl_rs x)) = s # ss" by (cases "ch_buf (rs_start (rl_rs x))") auto
    then obtain zs' where "hs @ ClientFrame_ResponseStart s # zs' = response_frames rid st cs"
      using hz(1) by (auto simp: relay_flow_def)
    then show False by (cases rule: frames_split) (use ws in auto)
  qed
  with that hz ws vs show thesis by blast
qed

lemma relay_ok_chunk:
  assumes ok: "relay_ok U rid st cs x" and x: "rl_pc x = S_Stream \<or> rl_pc x = S_Drain"
    and b: "ch_buf (rs_body (rl_rs x)) = c # bs"
  shows "relay_ok U rid st cs
    (x\<lparr>rl_rs := (rl_rs x)\<lparr>rs_body := (rs_body (rl_rs x))\<lparr>ch_buf := bs\<rparr>\<rparr>,
       rl_pc := rl_pc x, rl_out := rl_out x @ (if c = [] then [] else [W_Write c, W_Flush]),
       rl_fault := rl_fault x\<rparr>)" (is "relay_ok U rid st cs ?y")
proof -
  obtain ws vs zs where w: "rl_out x = written U st ws" "ch_buf (rs_start (rl_rs x)) = []"
    "(ClientFrame_ResponseStart st # map (response_body rid) ws) @ relay_flow rid x @ zs = response_frames rid st cs"
    "rest_ok rid zs x"
    using relay_body_head [OF ok x] by metis
  have "rl_pc ?y \<noteq> S_Wait" "rl_out ?y = written U st (ws @ [c])"
    using x w(1) by (auto simp: written_snoc)
  then have "hist_ok U rid st (ClientFrame_ResponseStart st # map (response_body rid) (ws @ [c])) ?y"
    unfolding hist_ok_def by (simp only: if_False) blast
  moreover have "(ClientFrame_ResponseStart st # map (response_body rid) (ws @ [c])) @ relay_flow rid ?y @ zs
    = response_frames rid st cs"
    using w b by (simp add: relay_flow_def)
  moreover have "rest_ok rid zs ?y" using w(4) by (simp add: rest_ok_def)
  ultimately have "\<exists>hs zs. hs @ relay_flow rid ?y @ zs = response_frames rid st cs \<and>
    hist_ok U rid st hs ?y \<and> rest_ok rid zs ?y" by blast
  then show ?thesis using ok x b unfolding relay_ok_def by auto
qed

lemma relay_ok_gave_up:
  assumes ok: "relay_ok U rid st cs x" and x: "rl_pc x = S_Stream \<or> rl_pc x = S_Drain" and r: "rs_wf r"
  shows "relay_ok U rid st cs (x\<lparr>rl_rs := r, rl_pc := S_Returned, rl_fault := True\<rparr>)"
proof -
  have "shown_ok U st cs (rl_out x)"
    using relay_body_head [OF ok x] unfolding shown_ok_def by metis
  then show ?thesis using r by (simp add: relay_ok_def)
qed

lemma relay_ok_drained:
  assumes ok: "relay_ok U rid st cs x" and x: "rl_pc x = S_Drain" and b: "ch_buf (rs_body (rl_rs x)) = []"
  shows "relay_ok U rid st cs (x\<lparr>rl_rs := snd (consumeErr (rl_rs x)), rl_pc := S_Returned\<rparr>)"
proof -
  obtain ws vs zs where w: "cs = ws @ vs" "rl_out x = written U st ws" "ch_buf (rs_start (rl_rs x)) = []"
    "(ClientFrame_ResponseStart st # map (response_body rid) ws) @ relay_flow rid x @ zs = response_frames rid st cs"
    "rest_ok rid zs x"
    using relay_body_head [OF ok disjI2 [OF x]] by metis
  have "shown_ok U st cs (rl_out x)" using w unfolding shown_ok_def by blast
  moreover have "ws = cs \<and> rl_todo x = [] \<and> rl_recv x = None \<and> ch_buf (rs_err (snd (consumeErr (rl_rs x)))) = []"
    if "\<not> rl_fault x"
  proof -
    have "rl_registered x" "rs_done (rl_rs x)" "ch_buf (rs_err (rl_rs x)) = []"
      using ok x that by (auto simp: relay_ok_def)
    then have "zs = [response_end rid]" "rl_recv x = None" "rl_todo x = []"
      "ch_buf (rs_err (snd (consumeErr (rl_rs x)))) = []"
      using w(5) by (simp_all add: rest_ok_def consumeErr_def chan_recv_def)
    with w b show ?thesis by (simp add: relay_flow_def response_frames_def)
  qed
  ultimately show ?thesis using ok w x by (auto simp: relay_ok_def rs_wf_consume)
qed

lemma relay_ok_handle:
  assumes ok: "relay_ok U rid st cs x"
    and h: "(pc, evs, r, g) \<in> set (serve_step U ctxDone writeFails (rl_pc x) (rl_rs x))"
  shows "relay_ok U rid st cs
    (x\<lparr>rl_rs := r, rl_pc := pc, rl_out := rl_out x @ evs, rl_fault := rl_fault x \<or> g\<rparr>)"
proof (cases "rl_pc x")
  case S_Wait
  then show ?thesis using relay_ok_Wait [OF ok S_Wait] h by simp
next
  case S_Stream
  have wf: "rs_wf (rl_rs x)" using ok by (simp add: relay_ok_def)
  from h [unfolded S_Stream] show ?thesis
  proof (cases rule: serve_step_Stream)
    case (chunk c bs)
    then show ?thesis using relay_ok_chunk [OF ok disjI1 [OF S_Stream] chunk(1)]
      by (simp add: S_Stream)
  next
    case (failed c bs)
    then show ?thesis using relay_ok_gave_up [OF ok disjI1 [OF S_Stream]] wf by simp
  next
    case closed
    then show ?thesis using ok S_Stream by (simp add: relay_ok_def relay_flow_def hist_ok_def rest_ok_def)
  next
    case ctx
    then show ?thesis using relay_ok_gave_up [OF ok disjI1 [OF S_Stream] wf] by simp
  qed
next
  case S_Drain
  have wf: "rs_wf (rl_rs x)" using ok by (simp add: relay_ok_def)
  from h [unfolded S_Drain] show ?thesis
  proof (cases rule: serve_step_Drain)
    case (chunk c bs)
    then show ?thesis using relay_ok_chunk [OF ok disjI2 [OF S_Drain] chunk(1)]
      by (simp add: S_Drain)
  next
    case (failed c bs)
    then show ?thesis using relay_ok_gave_up [OF ok disjI2 [OF S_Drain]] wf by simp
  next
    case empty
    then show ?thesis using relay_ok_drained [OF ok S_Drain] by simp
  qed
next
  case S_Returned
  then show ?thesis using h by simp
qed

lemma rs_fail_keeps_queues [simp]:
  "rs_start (rs_fail e r) = rs_start r" "rs_body (rs_fail e r) = rs_body r"
  by (simp_all add: rs_fail_def split: option.splits)

lemma relay_ok_session_fail:
  assumes ok: "relay_ok U rid st cs x"
  shows "relay_ok U rid st cs (x\<lparr>rl_rs := rs_fail e (rl_rs x), rl_registered := False, rl_fault := True\<rparr>)"
    (is "relay_ok U rid st cs ?y")
proof -
  have "relay_flow rid ?y = relay_flow rid x" "hist_ok U rid st hs ?y = hist_ok U rid st hs x"
    "rest_ok rid zs ?y" for hs zs
    by (simp_all add: relay_flow_def hist_ok_def rest_ok_def)
  then show ?thesis using ok unfolding relay_ok_def by (auto simp: rs_wf_fail rs_fail_keeps_done)
qed

lemma relay_ok_step:
  assumes "relay_ok U rid st cs x" "relay_step U x y"
  shows "relay_ok U rid st cs y"
  using assms(2)
proof cases
  case (lookup f fs)
  then show ?thesis using relay_ok_lookup assms(1) by blast
next
  case (receive f r)
  then show ?thesis using relay_ok_receive assms(1) by blast
next
  case (handle pc evs r g ctxDone writeFails)
  then show ?thesis using relay_ok_handle assms(1) by blast
next
  case finish
  then show ?thesis using assms(1) by (simp add: relay_ok_def)
next
  case (session_fail e)
  then show ?thesis using relay_ok_session_fail assms(1) by blast
qed

lemma relay_ok_init: "relay_init (response_frames rid st cs) x \<Longrightarrow> relay_ok U rid st cs x"
  by (simp add: relay_init_def relay_ok_def rs_wf_new relay_flow_def hist_ok_def rest_ok_def
      newResponseState_def chan_make_def rs_wf_def chan_wf_def)

interpretation relay: invariant_system "relay_init (response_frames rid st cs)" "relay_step U" "relay_ok U rid st cs"
  by unfold_locales (blast intro: relay_ok_init relay_ok_step)+


subsection \<open>A relay without faults ends\<close>

definition relay_calm :: "go_unicode \<Rightarrow> relay \<Rightarrow> relay \<Rightarrow> bool" where
  "relay_calm U x y \<longleftrightarrow> relay_step U x y \<and> \<not> rl_fault y"

definition relay_final :: "relay \<Rightarrow> bool" where
  "relay_final x \<longleftrightarrow> rl_pc x = S_Returned \<and> \<not> rl_registered x \<and> rl_todo x = [] \<and> rl_recv x = None"

definition relay_weight :: "relay \<Rightarrow> nat" where
  "relay_weight x =
     4 * length (rl_todo x) + (case rl_recv x of None \<Rightarrow> 0 | Some _ \<Rightarrow> 3) +
     2 * length (ch_buf (rs_start (rl_rs x))) + 2 * length (ch_buf (rs_body (rl_rs x))) +
     (case rl_pc x of S_Wait \<Rightarrow> 3 | S_Stream \<Rightarrow> 2 | S_Drain \<Rightarrow> 1 | S_Returned \<Rightarrow> 0) +
     (if rl_registered x then 1 else 0)"

lemma write_chunk_writes:
  "\<exists>pc evs r'. (pc, evs, r', False) \<in> set (write_chunk False c k r)"
  by (simp add: write_chunk_def)

lemma serve_progress:
  assumes "rl_pc x \<noteq> S_Returned"
    "case rl_pc x of
       S_Wait \<Rightarrow> ch_buf (rs_start (rl_rs x)) \<noteq> []
     | S_Stream \<Rightarrow> ch_buf (rs_body (rl_rs x)) \<noteq> [] \<or> rs_done (rl_rs x)
     | _ \<Rightarrow> True"
  shows "\<exists>pc evs r. (pc, evs, r, False) \<in> set (serve_step U False False (rl_pc x) (rl_rs x))"
proof (cases "rl_pc x")
  case S_Wait
  then obtain st bs where "ch_buf (rs_start (rl_rs x)) = st # bs"
    using assms(2) by (cases "ch_buf (rs_start (rl_rs x))") auto
  then show ?thesis unfolding S_Wait by (simp add: chan_recv_def) blast
next
  case S_Stream
  then consider c bs where "ch_buf (rs_body (rl_rs x)) = c # bs" | "rs_done (rl_rs x)"
    using assms(2) by (cases "ch_buf (rs_body (rl_rs x))") auto
  then show ?thesis
  proof cases
    case 1
    obtain pc evs r where "(pc, evs, r, False) \<in> set (write_chunk False c S_Stream
        ((rl_rs x)\<lparr>rs_body := (rs_body (rl_rs x))\<lparr>ch_buf := bs\<rparr>\<rparr>))"
      using write_chunk_writes by blast
    then have "(pc, evs, r, False) \<in> set (serve_step U False False S_Stream (rl_rs x))"
      using 1 by (simp add: chan_recv_def)
    then show ?thesis unfolding S_Stream by blast
  qed (unfold S_Stream, simp, blast)
next
  case S_Drain
  show ?thesis
    unfolding S_Drain using write_chunk_writes
    by (cases "ch_buf (rs_body (rl_rs x))") (simp_all add: consumeBody_def chan_recv_def)
qed (use assms(1) in simp)

lemma relay_calmI: "relay_step U x y \<Longrightarrow> \<not> rl_fault y \<Longrightarrow> \<exists>y. relay_calm U x y"
  unfolding relay_calm_def by blast

lemma relay_calm_handle:
  "(pc, evs, r, False) \<in> set (serve_step U c w (rl_pc x) (rl_rs x)) \<Longrightarrow> \<not> rl_fault x \<Longrightarrow> \<exists>y. relay_calm U x y"
  by (rule relay_calmI, erule relay_step.handle) simp

lemma relay_idle:
  assumes ok: "relay_ok U rid st cs x" and reg: "rl_registered x" and pc: "rl_pc x \<noteq> S_Returned"
    and idle: "\<nexists>pc evs r. (pc, evs, r, False) \<in> set (serve_step U False False (rl_pc x) (rl_rs x))"
  shows "ch_buf (rs_start (rl_rs x)) = [] \<and> ch_buf (rs_body (rl_rs x)) = [] \<and> (rl_recv x \<noteq> None \<or> rl_todo x \<noteq> [])"
proof -
  obtain hs zs where hz: "hs @ relay_flow rid x @ zs = response_frames rid st cs" "hist_ok U rid st hs x"
    "rest_ok rid zs x"
    by (rule relay_okE [OF ok pc])
  have np: "\<not> (case rl_pc x of
       S_Wait \<Rightarrow> ch_buf (rs_start (rl_rs x)) \<noteq> []
     | S_Stream \<Rightarrow> ch_buf (rs_body (rl_rs x)) \<noteq> [] \<or> rs_done (rl_rs x)
     | _ \<Rightarrow> True)"
    using serve_progress [OF pc] idle by metis
  consider (wait) "rl_pc x = S_Wait" "ch_buf (rs_start (rl_rs x)) = []"
    | (stream) "rl_pc x = S_Stream" "ch_buf (rs_body (rl_rs x)) = []" "\<not> rs_done (rl_rs x)"
    using np pc by (cases "rl_pc x") auto
  then show ?thesis
  proof cases
    case wait
    then have hs: "hs = []" using hz(2) by (simp add: hist_ok_def)
    then have "ch_buf (rs_body (rl_rs x)) = []" using hz(1) wait
      by (cases "ch_buf (rs_body (rl_rs x))") (auto simp: relay_flow_def response_frames_def)
    moreover have "zs = [] \<or> zs = [response_end rid]" if "rl_recv x = None" "rl_todo x = []"
      using hz(3) reg that by (auto simp: rest_ok_def split: if_splits)
    ultimately show ?thesis using hz(1) hs wait by (auto simp: relay_flow_def response_frames_def)
  next
    case stream
    then obtain ws where hs: "hs = ClientFrame_ResponseStart st # map (response_body rid) ws"
      using hz(2) by (auto simp: hist_ok_def)
    have "ch_buf (rs_start (rl_rs x)) = []"
      by (rule relay_body_head [OF ok disjI1 [OF stream(1)]])
    moreover have "zs = rl_todo x" using hz(3) reg stream by (simp add: rest_ok_def)
    ultimately show ?thesis using hz(1) hs stream
      by (auto simp: relay_flow_def response_frames_def)
  qed
qed

lemma relay_waits_for:
  assumes ok: "relay_ok U rid st cs x" and nf: "\<not> rl_fault x" and pc: "rl_pc x \<noteq> S_Returned"
    and idle: "\<nexists>pc evs r. (pc, evs, r, False) \<in> set (serve_step U False False (rl_pc x) (rl_rs x))"
  shows "\<exists>f fs. (case rl_recv x of None \<Rightarrow> rl_todo x = f # fs | Some g \<Rightarrow> deliver g (rl_rs x) \<noteq> [])"
proof -
  have wf: "rs_wf (rl_rs x)" and reg: "rl_registered x" using ok nf pc by (simp_all add: relay_ok_def)
  note i = relay_idle [OF ok reg pc idle]
  show ?thesis
  proof (cases "rl_recv x")
    case None
    then show ?thesis using i by (auto simp: neq_Nil_conv)
  next
    case (Some f)
    then have "deliver f (rl_rs x) \<noteq> []"
      using wf i
      by (cases f) (auto simp: deliver_start_def deliver_body_def chan_send_ready_def rs_wf_def)
    then show ?thesis using Some by simp
  qed
qed

lemma relay_calm_progress:
  assumes ok: "relay_ok U rid st cs x" and nf: "\<not> rl_fault x" and nfin: "\<not> relay_final x"
  shows "\<exists>y. relay_calm U x y"
proof (cases "rl_pc x = S_Returned")
  case True
  then have "rl_registered x" using ok nf nfin by (simp add: relay_ok_def relay_final_def)
  with True have "relay_step U x (x\<lparr>rl_registered := False\<rparr>)" by (rule relay_step.finish)
  then show ?thesis by (rule relay_calmI) (use nf in simp)
next
  case pc: False
  show ?thesis
  proof (cases "\<exists>pc evs r. (pc, evs, r, False) \<in> set (serve_step U False False (rl_pc x) (rl_rs x))")
    case True
    then show ?thesis using relay_calm_handle nf by blast
  next
    case False
    then obtain f fs where w: "case rl_recv x of None \<Rightarrow> rl_todo x = f # fs | Some g \<Rightarrow> deliver g (rl_rs x) \<noteq> []"
      using relay_waits_for [OF ok nf pc] by blast
    show ?thesis
    proof (cases "rl_recv x")
      case None
      then have "relay_step U x (x\<lparr>rl_todo := fs, rl_recv := (if rl_registered x then Some f else None)\<rparr>)"
        using w by (intro relay_step.lookup) simp_all
      then show ?thesis by (rule relay_calmI) (use nf in simp)
    next
      case (Some g)
      then have "deliver g (rl_rs x) \<noteq> []" using w by simp
      then obtain r where "r \<in> set (deliver g (rl_rs x))" by (meson last_in_set)
      with Some have "relay_step U x (x\<lparr>rl_rs := r, rl_recv := None\<rparr>)" by (rule relay_step.receive)
      then show ?thesis by (rule relay_calmI) (use nf in simp)
    qed
  qed
qed

lemma deliver_weight:
  "r \<in> set (deliver f s) \<Longrightarrow>
     length (ch_buf (rs_start r)) + length (ch_buf (rs_body r)) \<le>
     Suc (length (ch_buf (rs_start s)) + length (ch_buf (rs_body s)))"
  by (cases f) (auto simp: deliver_start_def deliver_body_def chan_send_def rs_finish_def split: if_splits)

lemma serve_weight:
  assumes "(pc, evs, r, False) \<in> set (serve_step U c w (rl_pc x) (rl_rs x))"
  shows "relay_weight (x\<lparr>rl_rs := r, rl_pc := pc, rl_out := rl_out x @ evs, rl_fault := b\<rparr>) < relay_weight x"
proof (cases "rl_pc x")
  case S_Wait
  from assms [unfolded S_Wait] show ?thesis
    by (cases rule: serve_step_Wait) (simp_all add: relay_weight_def S_Wait)
next
  case S_Stream
  from assms [unfolded S_Stream] show ?thesis
    by (cases rule: serve_step_Stream) (simp_all add: relay_weight_def S_Stream)
next
  case S_Drain
  from assms [unfolded S_Drain] show ?thesis
    by (cases rule: serve_step_Drain)
      (simp_all add: relay_weight_def S_Drain consumeErr_def chan_recv_def split: list.splits)
qed (use assms in simp)

lemma relay_calm_weight:
  assumes "relay_calm U x y"
  shows "relay_weight y < relay_weight x"
proof -
  have "relay_step U x y" "\<not> rl_fault y" using assms by (simp_all add: relay_calm_def)
  then show ?thesis
  proof cases
    case (receive f r)
    then show ?thesis using deliver_weight [of r f "rl_rs x"] by (simp add: relay_weight_def)
  next
    case (handle pc evs r g c w)
    moreover from this have "g = False" using \<open>\<not> rl_fault y\<close> by simp
    ultimately show ?thesis using serve_weight [of pc evs r U c w x "rl_fault x"] by simp
  qed (use \<open>\<not> rl_fault y\<close> in \<open>auto simp: relay_weight_def\<close>)
qed

interpretation calm: terminating_system "relay_init (response_frames rid st cs)" "relay_calm U"
  "\<lambda>x. relay_ok U rid st cs x \<and> \<not> rl_fault x" relay_final relay_weight
proof
  show "relay_ok U rid st cs x \<and> \<not> rl_fault x" if "relay_init (response_frames rid st cs) x" for x
    using that relay_ok_init by (auto simp: relay_init_def)
  show "relay_ok U rid st cs y \<and> \<not> rl_fault y" if "relay_ok U rid st cs x \<and> \<not> rl_fault x" "relay_calm U x y" for x y
    using that relay_ok_step by (auto simp: relay_calm_def)
qed (auto simp: relay_calm_weight intro: relay_calm_progress)


subsection \<open>Runs of \<open>forwardRequest\<close>\<close>

text \<open>The frames still to be sent from a position of \<open>forwardRequest\<close>.\<close>

definition end_plan :: "string \<Rightarrow> body_read list \<Rightarrow> ServerFrame_Msg list" where
  "end_plan rid reads = map (request_body rid) (body_chunks reads) @ [request_end rid]"

fun forward_plan ::
  "go_unicode \<Rightarrow> http_request \<Rightarrow> body_read list option \<Rightarrow> string \<Rightarrow> forward_pc \<Rightarrow> ServerFrame_Msg list" where
  "forward_plan U r body rid F_SendStart =
     request_start U r rid # (case body of None \<Rightarrow> [request_end rid] | Some reads \<Rightarrow> end_plan rid reads)"
| "forward_plan U r body rid (F_CheckCtx reads) = end_plan rid reads"
| "forward_plan U r body rid (F_Read reads) = end_plan rid reads"
| "forward_plan U r body rid (F_SendChunk c err reads) = end_plan rid ((c, err) # reads)"
| "forward_plan U r body rid F_SendEnd = [request_end rid]"
| "forward_plan U r body rid (F_Done err) = []"

definition pc_ok :: "forward_pc \<Rightarrow> bool" where
  "pc_ok pc \<longleftrightarrow> (case pc of F_SendChunk c err reads \<Rightarrow> c \<noteq> [] | _ \<Rightarrow> True)"

lemma end_plan_simps [simp]:
  "end_plan rid ((c, None) # reads) = (if c = [] then [] else [request_body rid c]) @ end_plan rid reads"
  "end_plan rid ((c, Some e) # reads) = (if c = [] then [] else [request_body rid c]) @ [request_end rid]"
  by (simp_all add: end_plan_def)

lemma send_thenE:
  assumes "(pc', fs, s') \<in> set (send_then ctxErr sa f k s)"
  obtains (sent) "pc' = k" "fs = [f]" | (failed) e where "pc' = F_Done (Some e)" "fs = []"
  using assms by (auto simp: send_then_def split: option.splits)

lemma forward_step_plan:
  assumes "(pc', fs, s') \<in> set (forward_step U r body rid sa ctxErr pc s)" "pc_ok pc"
  shows "(\<exists>e. pc' = F_Done (Some e) \<and> (\<exists>zs. forward_plan U r body rid pc = fs @ zs)) \<or>
    (pc_ok pc' \<and> forward_plan U r body rid pc = fs @ forward_plan U r body rid pc')"
proof (cases pc)
  case F_SendStart
  with assms(1) show ?thesis
    by (auto elim!: send_thenE simp: pc_ok_def split: option.splits)
next
  case (F_CheckCtx reads)
  with assms(1) show ?thesis by (auto simp: pc_ok_def split: option.splits)
next
  case (F_Read reads)
  show ?thesis
  proof (cases reads)
    case (Cons cr reads')
    obtain c err where "cr = (c, err)" by (cases cr)
    with assms(1) F_Read Cons show ?thesis
      by (cases err) (auto simp: after_read_def pc_ok_def split: if_splits)
  qed (use assms(1) F_Read in simp)
next
  case (F_SendChunk c err reads)
  with assms show ?thesis
    by (cases err) (auto elim!: send_thenE simp: after_read_def pc_ok_def split: if_splits)
next
  case F_SendEnd
  with assms(1) show ?thesis by (auto elim!: send_thenE simp: pc_ok_def)
qed (use assms(1) in simp)

lemma forward_run_Done: "forward_run U r body rid sa (F_Done err) fs pc \<Longrightarrow> fs = [] \<and> pc = F_Done err"
  by (erule forward_run.cases) auto

lemma forward_run_plan:
  "forward_run U r body rid sa pc fs pc' \<Longrightarrow> pc_ok pc \<Longrightarrow>
     (\<exists>zs. forward_plan U r body rid pc = fs @ zs \<and> (pc' = F_Done None \<longrightarrow> zs = []))"
proof (induction rule: forward_run.induct)
  case (forward_refl pc)
  then show ?case by auto
next
  case (forward_next pc' fs s' ctxErr pc s gs pc'')
  from forward_step_plan [OF forward_next.hyps(1) forward_next.prems] show ?case
  proof
    assume "\<exists>e. pc' = F_Done (Some e) \<and> (\<exists>zs. forward_plan U r body rid pc = fs @ zs)"
    then show ?thesis using forward_run_Done forward_next.hyps(2) by force
  next
    assume "pc_ok pc' \<and> forward_plan U r body rid pc = fs @ forward_plan U r body rid pc'"
    then show ?thesis using forward_next.IH by auto
  qed
qed


text \<open>The first error a body reports; \<open>forwardRequest\<close> succeeds only when it is the end of file.\<close>

fun body_error :: "body_read list \<Rightarrow> go_error option" where
  "body_error [] = None"
| "body_error ((c, err) # rest) = (case err of None \<Rightarrow> body_error rest | Some e \<Rightarrow> Some e)"

fun ends_eof :: "body_read list option \<Rightarrow> forward_pc \<Rightarrow> bool" where
  "ends_eof body F_SendStart \<longleftrightarrow> (case body of None \<Rightarrow> True | Some reads \<Rightarrow> body_error reads = Some ErrEOF)"
| "ends_eof body (F_CheckCtx reads) \<longleftrightarrow> body_error reads = Some ErrEOF"
| "ends_eof body (F_Read reads) \<longleftrightarrow> body_error reads = Some ErrEOF"
| "ends_eof body (F_SendChunk c err reads) \<longleftrightarrow> body_error ((c, err) # reads) = Some ErrEOF"
| "ends_eof body F_SendEnd \<longleftrightarrow> True"
| "ends_eof body (F_Done err) \<longleftrightarrow> err = None"

lemma ends_eof_after_read:
  "ends_eof body (after_read err reads) \<longleftrightarrow>
     (case err of None \<Rightarrow> body_error reads | Some e \<Rightarrow> Some e) = Some ErrEOF"
  by (cases err) (auto simp: after_read_def)

lemma ends_eof_back:
  "(pc', fs, s') \<in> set (forward_step U r body rid sa ctxErr pc s) \<Longrightarrow> ends_eof body pc' \<Longrightarrow> ends_eof body pc"
  by (cases "(U, r, body, rid, sa, ctxErr, pc, s)" rule: forward_step.cases)
    (auto elim!: send_thenE simp: ends_eof_after_read split: option.splits if_splits)

lemma forward_run_eof: "forward_run U r body rid sa pc fs pc' \<Longrightarrow> pc' = F_Done None \<Longrightarrow> ends_eof body pc"
  by (induction rule: forward_run.induct) (auto dest: ends_eof_back)

subsection \<open>Runs\<close>

lemma relay_run_exists:
  assumes "relay_init (response_frames rid st cs) x"
  shows "\<exists>n y. (relay_calm U ^^ n) x y \<and> relay_final y"
proof -
  obtain y where "(relay_calm U)\<^sup>*\<^sup>* x y" "relay_final y"
    using calm.ends_final [OF calm.inv_init [OF assms]] by blast
  then show ?thesis by (auto simp: rtranclp_power)
qed

definition relay_start :: "ClientFrame_Msg list \<Rightarrow> relay" where
  "relay_start fs =
     \<lparr>rl_rs = newResponseState, rl_pc = S_Wait, rl_out = [], rl_todo = fs, rl_recv = None,
      rl_registered = True, rl_fault = False\<rparr>"

lemma relay_init_start: "relay_init fs (relay_start fs)"
  by (simp add: relay_init_def relay_start_def)

lemma relay_calm_reachable:
  "(relay_calm U)\<^sup>*\<^sup>* x y \<Longrightarrow> reachable i (relay_step U) x \<Longrightarrow> reachable i (relay_step U) y"
  by (induction rule: rtranclp_induct) (auto simp: relay_calm_def intro: reach_step)

lemma relay_steps_reachable:
  "(relay_step U)\<^sup>*\<^sup>* x y \<Longrightarrow> reachable i (relay_step U) x \<Longrightarrow> reachable i (relay_step U) y"
  by (induction rule: rtranclp_induct) (auto intro: reach_step)

lemma relay_two_steps:
  assumes "rl_recv x = None" "rl_todo x = f # fs" "rl_registered x" "r \<in> set (deliver f (rl_rs x))"
  shows "(relay_step U)\<^sup>*\<^sup>* x (x\<lparr>rl_todo := fs, rl_rs := r\<rparr>)"
proof -
  let ?y = "x\<lparr>rl_todo := fs, rl_recv := (if rl_registered x then Some f else None)\<rparr>"
  have 1: "relay_step U x ?y" using assms(1,2) by (rule relay_step.lookup)
  have "relay_step U ?y (?y\<lparr>rl_rs := r, rl_recv := None\<rparr>)"
    by (rule relay_step.receive) (use assms in simp_all)
  moreover have "?y\<lparr>rl_rs := r, rl_recv := None\<rparr> = x\<lparr>rl_todo := fs, rl_rs := r\<rparr>"
    using assms(1) by (simp add: relay.equality)
  ultimately show ?thesis using 1 by (metis (no_types, lifting) r_into_rtranclp rtranclp_trans)
qed

lemma relay_bodies:
  assumes "rl_recv x = None" "rl_todo x = map (response_body rid) ws @ fs" "rl_registered x"
    "length (ch_buf (rs_body (rl_rs x))) + length ws \<le> ch_cap (rs_body (rl_rs x))"
  shows "(relay_step U)\<^sup>*\<^sup>* x (x\<lparr>rl_todo := fs, rl_rs := (rl_rs x)\<lparr>rs_body := (rs_body (rl_rs x))
    \<lparr>ch_buf := ch_buf (rs_body (rl_rs x)) @ ws\<rparr>\<rparr>\<rparr>)"
  using assms
proof (induction ws arbitrary: x)
  case Nil
  then have "x\<lparr>rl_todo := fs, rl_rs := (rl_rs x)\<lparr>rs_body := (rs_body (rl_rs x))
    \<lparr>ch_buf := ch_buf (rs_body (rl_rs x)) @ []\<rparr>\<rparr>\<rparr> = x" by simp
  then show ?case by simp
next
  case (Cons c ws)
  let ?r = "(rl_rs x)\<lparr>rs_body := chan_send c (rs_body (rl_rs x))\<rparr>"
  let ?y = "x\<lparr>rl_todo := map (response_body rid) ws @ fs, rl_rs := ?r\<rparr>"
  have "?r \<in> set (deliver (response_body rid c) (rl_rs x))"
    using Cons.prems(4) by (simp add: response_body_def deliver_body_def chan_send_ready_def)
  then have "(relay_step U)\<^sup>*\<^sup>* x ?y"
    using relay_two_steps [of x "response_body rid c" _ ?r] Cons.prems(1-3) by simp
  moreover have "(relay_step U)\<^sup>*\<^sup>* ?y (?y\<lparr>rl_todo := fs, rl_rs := (rl_rs ?y)\<lparr>rs_body := (rs_body (rl_rs ?y))
    \<lparr>ch_buf := ch_buf (rs_body (rl_rs ?y)) @ ws\<rparr>\<rparr>\<rparr>)"
    by (rule Cons.IH) (use Cons.prems in \<open>simp_all add: chan_send_def\<close>)
  ultimately show ?case by (simp add: chan_send_def)
qed

text \<open>The states in which the receive loop waits for ever: see the property below.\<close>

definition receiver_blocked :: "relay \<Rightarrow> bool" where
  "receiver_blocked x \<longleftrightarrow>
     (\<exists>m. rl_recv x = Some (ClientFrame_ResponseBody m)) \<and> \<not> chan_send_ready (rs_body (rl_rs x)) \<and>
     \<not> rs_done (rl_rs x) \<and> rl_pc x = S_Returned \<and> \<not> rl_registered x"

lemma receiver_blocked_stuck: "receiver_blocked x \<Longrightarrow> \<not> relay_step U x y"
  by (auto simp: receiver_blocked_def deliver_body_def elim!: relay_step.cases)

subsection \<open>Properties\<close>

text \<open>
  C1: a response that arrives complete reaches the browser exactly: in every interleaving of the
  receive loop with the handler in which no context is cancelled, no write fails and the session
  is not shut down, the handler has written the status, the filtered headers and every body
  chunk, each once and in order, when it returns.  The handler that sees \<open>done\<close> before the last
  chunks, or before the headers, is among these interleavings.
\<close>
theorem relay_complete:
  assumes "reachable (relay_init (response_frames rid st cs)) (relay_step U) x"
    and "\<not> rl_fault x" "rl_pc x = S_Returned"
  shows "rl_out x = written U st cs"
  using relay.reachable_inv [OF assms(1)] assms(2,3) by (simp add: relay_ok_def)

definition demo_start :: ResponseStart where
  "demo_start = \<lparr>ResponseStart_RequestId = ''1'', ResponseStart_StatusCode = 200, ResponseStart_Headers = []\<rparr>"

definition demo_chunks :: "bytes list" where
  "demo_chunks = [''a'', ''b'', [], ''c'', ''d'', ''e'', ''f'']"

theorem relay_complete_witness:
  "\<exists>x. reachable (relay_init (response_frames ''1'' demo_start demo_chunks)) (relay_step no_tables) x
     \<and> rl_out x = W_Start [] 200 # concat (map (\<lambda>c. [W_Write [c], W_Flush]) ''abcdef'')"
proof -
  let ?fs = "response_frames ''1'' demo_start demo_chunks"
  obtain n y where y: "(relay_calm no_tables ^^ n) (relay_start ?fs) y" "relay_final y"
    using relay_run_exists relay_init_start by blast
  then have run: "(relay_calm no_tables)\<^sup>*\<^sup>* (relay_start ?fs) y" by (blast dest: relpowp_imp_rtranclp)
  then have r: "reachable (relay_init ?fs) (relay_step no_tables) y"
    by (blast intro: relay_calm_reachable reach_init relay_init_start)
  have "\<not> rl_fault y" using calm.steps_inv [OF run calm.inv_init [OF relay_init_start]] by blast
  then have "rl_out y = written no_tables demo_start demo_chunks"
    using relay_complete [OF r] y(2) by (simp add: relay_final_def)
  moreover have "written no_tables demo_start demo_chunks =
    W_Start [] 200 # concat (map (\<lambda>c. [W_Write [c], W_Flush]) ''abcdef'')" by code_simp
  ultimately show ?thesis using r by metis
qed



text \<open>
  C12: a complete response never blocks: a run without cancellation, failed write or session
  shutdown takes at most \<open>4 * n + 12\<close> steps for \<open>n\<close> chunks although the body queue holds only
  four, and a run that cannot go on has handled every frame, has written the whole response and
  has unregistered the request.
\<close>
theorem relay_terminates:
  assumes "relay_init (response_frames rid st cs) x" "(relay_calm U ^^ n) x y"
  shows "n \<le> 4 * length cs + 12
    \<and> ((\<nexists>z. relay_calm U y z) \<longrightarrow> relay_final y \<and> rl_out y = written U st cs)"
proof -
  have inv: "relay_ok U rid st cs x \<and> \<not> rl_fault x"
    by (rule calm.inv_init [OF assms(1)])
  have "relay_weight x = 4 * length cs + 12"
    using assms(1) by (simp add: relay_init_def relay_weight_def response_frames_def newResponseState_def chan_make_def)
  moreover have "relay_weight y + n \<le> relay_weight x" by (rule calm.run_bound [OF assms(2) inv])
  moreover have run: "(relay_calm U)\<^sup>*\<^sup>* x y" using assms(2) by (rule relpowp_imp_rtranclp)
  have "relay_final y \<and> rl_out y = written U st cs" if "\<nexists>z. relay_calm U y z"
    using calm.stuck_final [OF inv run] calm.steps_inv [OF run inv] that
    by (auto simp: relay_final_def relay_ok_def)
  ultimately show ?thesis by auto
qed

theorem relay_terminates_witness:
  "\<exists>n y. (relay_calm no_tables ^^ n) (relay_start (response_frames ''1'' demo_start demo_chunks)) y
     \<and> n \<le> 40 \<and> rl_out y = written no_tables demo_start demo_chunks"
proof -
  let ?x = "relay_start (response_frames ''1'' demo_start demo_chunks)"
  obtain n y where y: "(relay_calm no_tables ^^ n) ?x y" "relay_final y"
    using relay_run_exists relay_init_start by blast
  have "\<nexists>z. relay_calm no_tables y z"
    using y(2) by (auto simp: relay_calm_def relay_final_def elim!: relay_step.cases)
  then have "n \<le> 4 * length demo_chunks + 12 \<and> rl_out y = written no_tables demo_start demo_chunks"
    using relay_terminates [OF relay_init_start y(1)] by blast
  then show ?thesis using y(1) by (auto simp: demo_chunks_def)
qed

text \<open>
  C17: the receive loop of a session can block for ever on a single request: when the browser goes
  away while the body queue is full and the loop is waiting to enqueue a further chunk, the
  handler unregisters the request without closing \<open>done\<close>, and then nothing reads the queue and
  nothing closes \<open>done\<close>, not even the shutdown of the session, which only fails registered
  requests.  Every later frame of the session, for whatever request, waits behind it.
\<close>
theorem receiver_can_block:
  assumes "4 < length cs"
  shows "\<exists>x. reachable (relay_init (response_frames rid st cs)) (relay_step U) x
    \<and> rl_recv x \<noteq> None \<and> rl_todo x \<noteq> [] \<and> (\<forall>y. \<not> relay_step U x y)"
proof -
  obtain ws c vs where cs: "cs = ws @ c # vs" "length ws = 4"
    using id_take_nth_drop [OF assms] assms by fastforce
  let ?fs = "response_frames rid st cs"
  let ?x = "relay_start ?fs"
  let ?b = "map (response_body rid) ws @ response_body rid c # map (response_body rid) vs @ [response_end rid]"
  let ?r = "newResponseState\<lparr>rs_start := chan_send st (chan_make 1)\<rparr>"
  let ?r' = "?r\<lparr>rs_body := (chan_make 4)\<lparr>ch_buf := ws\<rparr>\<rparr>"
  let ?x1 = "?x\<lparr>rl_todo := ?b, rl_rs := ?r\<rparr>"
  let ?x2 = "?x\<lparr>rl_todo := tl (drop 4 ?b), rl_rs := ?r', rl_recv := Some (response_body rid c)\<rparr>"
  let ?x3 = "?x2\<lparr>rl_pc := S_Returned, rl_fault := True\<rparr>"
  let ?x4 = "?x3\<lparr>rl_registered := False\<rparr>"
  have "(relay_step U)\<^sup>*\<^sup>* ?x ?x1"
    by (rule relay_two_steps [where f = "ClientFrame_ResponseStart st"])
      (simp_all add: cs relay_start_def response_frames_def newResponseState_def deliver_start_def chan_make_def
        chan_send_ready_def)
  moreover have "(relay_step U)\<^sup>*\<^sup>* ?x1 (?x1\<lparr>rl_todo := drop 4 ?b, rl_rs := ?r'\<rparr>)"
    using relay_bodies [of ?x1 rid ws "drop 4 ?b" U] cs(2)
    by (simp add: relay_start_def newResponseState_def chan_make_def)
  moreover have "relay_step U (?x1\<lparr>rl_todo := drop 4 ?b, rl_rs := ?r'\<rparr>) ?x2"
    using relay_step.lookup [of "?x1\<lparr>rl_todo := drop 4 ?b, rl_rs := ?r'\<rparr>" "response_body rid c" "tl (drop 4 ?b)" U] cs(2)
    by (simp add: relay_start_def)
  moreover have "relay_step U ?x2 ?x3"
    using relay_step.handle [of S_Returned "[]" ?r' True U True False ?x2]
    by (simp add: relay_start_def)
  moreover have "relay_step U ?x3 ?x4" by (rule relay_step.finish) (simp_all add: relay_start_def)
  ultimately have "(relay_step U)\<^sup>*\<^sup>* ?x ?x4" by (meson rtranclp.rtrancl_into_rtrancl rtranclp_trans)
  then have "reachable (relay_init ?fs) (relay_step U) ?x4"
    by (blast intro: relay_steps_reachable reach_init relay_init_start)
  moreover have "receiver_blocked ?x4"
    using cs(2) by (simp add: receiver_blocked_def relay_start_def response_body_def newResponseState_def chan_make_def
        chan_send_ready_def)
  moreover have "rl_recv ?x4 \<noteq> None" "rl_todo ?x4 \<noteq> []" using cs(2) by (simp_all add: relay_start_def)
  ultimately show ?thesis using receiver_blocked_stuck by metis
qed

theorem receiver_can_block_witness:
  "\<exists>x. reachable (relay_init (response_frames ''1'' demo_start demo_chunks)) (relay_step no_tables) x
    \<and> rl_recv x \<noteq> None \<and> rl_todo x \<noteq> [] \<and> (\<forall>y. \<not> relay_step no_tables x y)"
  by (rule receiver_can_block) (simp add: demo_chunks_def)

text \<open>
  A request that is forwarded without error has been sent as its start, the non-empty chunks
  its body yielded up to the end of file, and its end; whatever interrupts \<open>forwardRequest\<close>, what
  was enqueued is a prefix of that.
\<close>
lemma forward_frames:
  assumes "forward_run U r body rid sa F_SendStart fs pc"
    and "plan = request_start U r rid #
      map (request_body rid) (case body of None \<Rightarrow> [] | Some reads \<Rightarrow> body_chunks reads) @ [request_end rid]"
  shows "(\<exists>zs. plan = fs @ zs)
    \<and> (pc = F_Done None \<longrightarrow>
        fs = plan \<and> (case body of None \<Rightarrow> True | Some reads \<Rightarrow> body_error reads = Some ErrEOF))"
proof -
  have "plan = forward_plan U r body rid F_SendStart"
    by (simp add: assms(2) end_plan_def split: option.splits)
  then show ?thesis
    using forward_run_plan [OF assms(1)] forward_run_eof [OF assms(1)] by (fastforce simp: pc_ok_def)
qed




definition demo_request :: http_request where
  "demo_request = \<lparr>r_Method = ''POST'', r_ProtoMajor = 1, r_TLS = True, r_Host = ''demo.example.com'', r_Path = ''/x'', r_RawPath = [],
     r_RawQuery = [], r_Header = [], r_RemoteAddr = ''192.0.2.1:5000''\<rparr>"

lemma demo_send: "(k, [f], push_outbound 0 (Some f) demo_session) \<in> set (send_then None 0 f k demo_session)"
proof -
  have "\<not> sess_done (heap_sess demo_session ! 0)" "chan_send_ready (sess_outbound (heap_sess demo_session ! 0))"
    by code_simp+
  then show ?thesis by (simp add: send_then_def sendFrameCtx_def)
qed

lemma demo_forward_run:
  "forward_run no_tables demo_request (Some [(''ab'', None), ([], Some ErrEOF)]) ''1'' 0 F_SendStart
     ([request_start no_tables demo_request ''1''] @ [] @ [] @ [request_body ''1'' ''ab''] @ [] @ [] @
      [request_end ''1''] @ []) (F_Done None)"
  by (rule forward_next [where ctxErr = None and s = demo_session],
      simp, rule demo_send,
      rule forward_next [where ctxErr = None and s = demo_session], simp,
      rule forward_next [where ctxErr = None and s = demo_session], simp,
      rule forward_next [where ctxErr = None and s = demo_session], simp, rule demo_send,
      simp only: after_read_def option.case,
      rule forward_next [where ctxErr = None and s = demo_session], simp,
      rule forward_next [where ctxErr = None and s = demo_session], simp,
      simp only: after_read_def option.case simp_thms if_True,
      rule forward_next [where ctxErr = None and s = demo_session], simp, rule demo_send,
      rule forward_refl)

theorem forward_frames_witness:
  "body_error [(''ab'', None), ([], Some ErrEOF)] = Some ErrEOF \<and>
   [request_start no_tables demo_request ''1'', request_body ''1'' ''ab'', request_end ''1''] =
     request_start no_tables demo_request ''1'' #
       map (request_body ''1'') (body_chunks [(''ab'', None), ([], Some ErrEOF)]) @ [request_end ''1'']"
  using forward_frames [OF demo_forward_run refl] by simp

text \<open>The request a frame is about.\<close>

fun frame_request :: "ClientFrame_Msg \<Rightarrow> string option" where
  "frame_request (ClientFrame_ResponseStart m) = Some (ResponseStart_RequestId m)"
| "frame_request (ClientFrame_ResponseBody m) = Some (ResponseBody_RequestId m)"
| "frame_request (ClientFrame_ResponseEnd m) = Some (ResponseEnd_RequestId m)"
| "frame_request (ClientFrame_ResponseError m) = Some (ResponseError_RequestId m)"
| "frame_request _ = None"

lemma handleClientFrame_response:
  "frame_request f = Some rid \<Longrightarrow> handleClientFrame sa (Some f) s = with_rs sa rid (deliver f) s"
  by (cases f) (auto simp: handleClientFrame_def fun_eq_iff intro!: arg_cong2 [where f = "with_rs sa _"])

text \<open>
  A response frame is handled in isolation: it changes only the response state its request
  identifier names in the session it arrived on, and that one by the delivery the relay is made
  of; sessions, tables, counter, WebSockets and all other requests stay as they were, and a frame
  for an unknown request changes nothing at all.
\<close>
lemma handleClientFrame_isolated:
  assumes "frame_request f = Some rid" "s' \<in> set (handleClientFrame sa (Some f) s)" "b < length (heap_rs s)"
  shows "heap_sess s' = heap_sess s \<and> heap_ws s' = heap_ws s \<and> srv_sessions s' = srv_sessions s
    \<and> srv_totalInflight s' = srv_totalInflight s
    \<and> (sess_get sa rid s = Some b \<longrightarrow> heap_rs s' ! b \<in> set (deliver f (heap_rs s ! b)))
    \<and> (sess_get sa rid s \<noteq> Some b \<longrightarrow> heap_rs s' ! b = heap_rs s ! b)
    \<and> (sess_get sa rid s = None \<longrightarrow> s' = s)"
  using assms by (auto simp: handleClientFrame_response with_rs_def upd_rs_def split: option.splits)

theorem handleClientFrame_isolated_witness:
  "list_all (\<lambda>s'. rs_done (heap_rs s' ! 0)) (handleClientFrame 0 (Some (response_end ''1'')) demo_two_sessions)"
  unfolding list_all_iff
proof
  fix s' assume s': "s' \<in> set (handleClientFrame 0 (Some (response_end ''1'')) demo_two_sessions)"
  have "frame_request (response_end ''1'') = Some ''1''" "0 < length (heap_rs demo_two_sessions)"
    and get: "sess_get 0 ''1'' demo_two_sessions = Some 0"
    and d: "list_all rs_done (deliver (response_end ''1'') (heap_rs demo_two_sessions ! 0))" by code_simp+
  from handleClientFrame_isolated [OF this(1) s' this(2)]
  have "heap_rs s' ! 0 \<in> set (deliver (response_end ''1'') (heap_rs demo_two_sessions ! 0))" using get by blast
  then show "rs_done (heap_rs s' ! 0)" using d unfolding list_all_iff by blast
qed

end
