(* ===== verification/ServerHandler.thy ===== *)
theory ServerHandler
  imports ServerServe
begin

text \<open>
  The whole of \<open>ServeHTTP\<close> (\<open>server/server.go\<close>) as one machine on the server state: the choice
  of a session, the reservation, \<open>forwardRequest\<close>, the relay of the response with the
  cancellation it sends when it gives up, and the deferred \<open>finishRequest\<close>.
\<close>

datatype http_pc =
    P_Start
  | P_Forward nat string nat forward_pc
  | P_Relay nat string nat serve_pc
  | P_Finish nat string
  | P_WebSocket nat
  | P_End

text \<open>
  \<open>ServeHTTP\<close> and \<open>serveWebSocket\<close> report an error of \<open>forwardRequest\<close> unless it is the context's own.
\<close>

definition forward_failed :: "go_error option \<Rightarrow> go_error \<Rightarrow> w_event list" where
  "forward_failed ctxErr e = (if e = ErrCanceled \<or> ctxErr = Some e then [] else [writeBadGateway])"

definition next_request :: "Server \<Rightarrow> string \<times> Server" where
  "next_request s =
     (let n = srv_nextRequestID s + 1 in (format_uint (unat n), s\<lparr>srv_nextRequestID := n\<rparr>))"

definition relay_result ::
  "nat \<Rightarrow> string \<Rightarrow> nat \<Rightarrow> Server \<Rightarrow> serve_pc \<times> w_event list \<times> responseState \<times> bool \<Rightarrow>
   (http_pc \<times> w_event list \<times> Server) list" where
  "relay_result sa rid ra s = (\<lambda>(spc, evs, rs, gave_up).
     let s1 = upd_rs ra (\<lambda>_. rs) s in
     if gave_up then map (\<lambda>s2. (P_Relay sa rid ra spc, evs, s2)) (cancelRequest sa rid s1)
     else [(P_Relay sa rid ra spc, evs, s1)])"

fun ServeHTTP_step ::
  "go_unicode \<Rightarrow> http_request \<Rightarrow> body_read list option \<Rightarrow> go_error option \<Rightarrow> bool \<Rightarrow> http_pc \<Rightarrow> Server \<Rightarrow>
   (http_pc \<times> w_event list \<times> Server) list" where
  "ServeHTTP_step U r body ctxErr writeFails P_Start s =
     (case ServeHTTP_route U r s of
        RouteNotFound \<Rightarrow> [(P_End, [W_Error ''404 page not found'' 404], s)]
      | RouteNoTunnel \<Rightarrow> [(P_End, [W_Error ''no connected tunnel for host'' 502], s)]
      | RouteWebSocket sa \<Rightarrow> [(P_WebSocket sa, [], s)]
      | RouteForward sa \<Rightarrow>
          let (rid, s1) = next_request s in
          (case tryStartRequest sa rid s1 of
             ((None, limit), s2) \<Rightarrow> [(P_End, [W_Error (inflightLimitMessage limit) 503], s2)]
           | ((Some ra, _), s2) \<Rightarrow> [(P_Forward sa rid ra F_SendStart, [], s2)]))"
| "ServeHTTP_step U r body ctxErr writeFails (P_Forward sa rid ra fpc) s =
     (case fpc of
        F_Done None \<Rightarrow> [(P_Relay sa rid ra S_Wait, [], s)]
      | F_Done (Some e) \<Rightarrow> [(P_Finish sa rid, forward_failed ctxErr e, s)]
      | _ \<Rightarrow> map (\<lambda>(fpc', fs, s'). (P_Forward sa rid ra fpc', [], s'))
               (forward_step U r body rid sa ctxErr fpc s))"
| "ServeHTTP_step U r body ctxErr writeFails (P_Relay sa rid ra spc) s =
     (if spc = S_Returned then [(P_Finish sa rid, [], s)]
      else concat (map (relay_result sa rid ra s)
             (serve_step U (ctxErr \<noteq> None) writeFails spc (heap_rs s ! ra))))"
| "ServeHTTP_step U r body ctxErr writeFails (P_Finish sa rid) s = [(P_End, [], finishRequest sa rid s)]"
| "ServeHTTP_step U r body ctxErr writeFails (P_WebSocket sa) s = []"
| "ServeHTTP_step U r body ctxErr writeFails P_End s = []"

text \<open>
  Runs of the handler with what they write; other goroutines act between the steps, so each step
  may start from any server state, with any state of the context and of the connection.
\<close>

inductive http_run ::
  "go_unicode \<Rightarrow> http_request \<Rightarrow> body_read list option \<Rightarrow> http_pc \<Rightarrow> w_event list \<Rightarrow> bool"
  for U r body where
  run_start: "http_run U r body P_Start []"
| run_step: "http_run U r body pc out \<Longrightarrow>
     (pc', evs, s') \<in> set (ServeHTTP_step U r body ctxErr writeFails pc s) \<Longrightarrow>
     http_run U r body pc' (out @ evs)"

text \<open>An HTTP response as a sequence of calls on the writer: one status, then only body.\<close>

fun is_body :: "w_event \<Rightarrow> bool" where
  "is_body (W_Write c) \<longleftrightarrow> c \<noteq> []"
| "is_body W_Flush \<longleftrightarrow> True"
| "is_body _ \<longleftrightarrow> False"

fun is_start :: "w_event \<Rightarrow> bool" where
  "is_start (W_Start h n) \<longleftrightarrow> True"
| "is_start _ \<longleftrightarrow> False"

text \<open>The errors the edge answers with itself; none carries text from the tunnel.\<close>

definition edge_errors :: "w_event list" where
  "edge_errors =
     [W_Error ''404 page not found'' 404, W_Error ''no connected tunnel for host'' 502,
      W_Error ''too many total in-flight requests on edge'' 503,
      W_Error ''too many in-flight requests for tunnel session'' 503,
      W_Error ''upstream tunnel request failed'' 502,
      W_Error ''tunnel closed response before sending headers'' 502]"

definition streaming :: "w_event list \<Rightarrow> bool" where
  "streaming out \<longleftrightarrow> (\<exists>e es. out = e # es \<and> is_start e \<and> list_all is_body es)"

definition answered :: "w_event list \<Rightarrow> bool" where
  "answered out \<longleftrightarrow> out = [] \<or> (\<exists>e \<in> set edge_errors. out = [e]) \<or> streaming out"

fun http_out_ok :: "http_pc \<Rightarrow> w_event list \<Rightarrow> bool" where
  "http_out_ok P_Start out \<longleftrightarrow> out = []"
| "http_out_ok (P_Forward sa rid ra fpc) out \<longleftrightarrow> out = []"
| "http_out_ok (P_Relay sa rid ra spc) out \<longleftrightarrow>
     (case spc of S_Wait \<Rightarrow> out = [] | S_Stream \<Rightarrow> streaming out | S_Drain \<Rightarrow> streaming out | S_Returned \<Rightarrow> answered out)"
| "http_out_ok (P_Finish sa rid) out \<longleftrightarrow> answered out"
| "http_out_ok (P_WebSocket sa) out \<longleftrightarrow> out = []"
| "http_out_ok P_End out \<longleftrightarrow> answered out"

lemma edge_errors_in:
  "writeBadGateway \<in> set edge_errors" "W_Error (inflightLimitMessage limit) 503 \<in> set edge_errors"
  "W_Error ''404 page not found'' 404 \<in> set edge_errors" "W_Error ''no connected tunnel for host'' 502 \<in> set edge_errors"
  "W_Error ''tunnel closed response before sending headers'' 502 \<in> set edge_errors"
  by (cases limit; simp add: edge_errors_def writeBadGateway_def publicBadGatewayMessage_def inflightLimitMessage_def)+

lemma streaming_append:
  "streaming out \<Longrightarrow> streaming (out @ (if c = [] then [] else [W_Write c, W_Flush]))"
  by (auto simp: streaming_def)

lemma answered_simps [simp]: "answered []" "e \<in> set edge_errors \<Longrightarrow> answered [e]" "streaming out \<Longrightarrow> answered out"
  by (auto simp: answered_def)

lemma relay_out_ok:
  assumes "http_out_ok (P_Relay sa rid ra spc) out"
    and "(spc', evs, rs, g) \<in> set (serve_step U c w spc r)"
  shows "http_out_ok (P_Relay sa rid ra spc') (out @ evs)"
proof (cases spc)
  case S_Wait
  from assms(2) [unfolded S_Wait] assms(1) S_Wait show ?thesis
    by (cases rule: serve_step_Wait) (auto simp: streaming_def write_headers_def edge_errors_in)
next
  case S_Stream
  from assms(2) [unfolded S_Stream] assms(1) S_Stream show ?thesis
    by (cases rule: serve_step_Stream) (simp_all add: streaming_append split: if_splits)
next
  case S_Drain
  from assms(2) [unfolded S_Drain] assms(1) S_Drain show ?thesis
    by (cases rule: serve_step_Drain) (simp_all add: streaming_append split: if_splits)
qed (use assms in simp)


lemma http_step_out_ok:
  assumes "http_out_ok pc out" "(pc', evs, s') \<in> set (ServeHTTP_step U r body ctxErr writeFails pc s)"
  shows "http_out_ok pc' (out @ evs)"
proof (cases pc)
  case P_Start
  with assms show ?thesis
    by (auto simp: edge_errors_in Let_def split: serve_route.splits prod.splits option.splits)
next
  case (P_Forward sa rid ra fpc)
  with assms show ?thesis
    by (auto simp: forward_failed_def edge_errors_in split: forward_pc.splits option.splits if_splits)
next
  case (P_Relay sa rid ra spc)
  show ?thesis
  proof (cases "spc = S_Returned")
    case True
    with assms P_Relay show ?thesis by simp
  next
    case False
    with assms P_Relay obtain spc' rs g where
      "(spc', evs, rs, g) \<in> set (serve_step U (ctxErr \<noteq> None) writeFails spc (heap_rs s ! ra))"
      "pc' = P_Relay sa rid ra spc'"
      by (auto simp: relay_result_def Let_def split: if_splits)
    with relay_out_ok assms(1) P_Relay show ?thesis by blast
  qed
qed (use assms in auto)

lemma http_run_out_ok: "http_run U r body pc out \<Longrightarrow> http_out_ok pc out"
  by (induction rule: http_run.induct) (simp, blast intro: http_step_out_ok)

subsection \<open>Properties\<close>

text \<open>
  C20: whatever the tunnel, the browser and the other goroutines do, \<open>ServeHTTP\<close> answers with a
  well-formed response: nothing at all, one of the edge's own fixed errors, or one status line
  followed only by body writes.  It never writes a second status, never writes an error after
  the headers, and no error of the tunnel shows its text to the browser.
\<close>
theorem ServeHTTP_answers:
  assumes "http_run U r body pc out"
  shows "answered out"
  using http_run_out_ok [OF assms]
  by (cases "(pc, out)" rule: http_out_ok.cases) (auto split: serve_pc.splits)

lemma ServeHTTP_unknown:
  "\<not> HasPublicHost U (NormalizeHost U (r_Host r)) s \<Longrightarrow>
     http_run U r body P_End [W_Error ''404 page not found'' 404]"
  by (rule run_step [OF run_start, where s = s, simplified]) (simp add: ServeHTTP_route_def)

theorem ServeHTTP_answers_witness:
  "http_run no_tables (demo_request\<lparr>r_Host := ''x.org''\<rparr>) None P_End [W_Error ''404 page not found'' 404]
   \<and> answered [W_Error ''404 page not found'' 404]"
proof -
  have "\<not> HasPublicHost no_tables (NormalizeHost no_tables (r_Host (demo_request\<lparr>r_Host := ''x.org''\<rparr>))) demo_server"
    by code_simp
  then have "http_run no_tables (demo_request\<lparr>r_Host := ''x.org''\<rparr>) None P_End [W_Error ''404 page not found'' 404]"
    by (rule ServeHTTP_unknown)
  with ServeHTTP_answers [OF this] show ?thesis by blast
qed

end
