(* ===== verification/ServerWebSocket.thy ===== *)
theory ServerWebSocket
  imports ServerHandler
begin

text \<open>
  \<open>serveWebSocket\<close> (\<open>server/server.go\<close>): the upgrade of a browser connection, the goroutine that
  reads the hijacked connection, the loop that writes to it, and the deferred clean-up.
\<close>

datatype ws_pc =
    V_Start
  | V_Forward string nat nat forward_pc
  | V_Await string nat nat
  | V_Respond string nat ResponseStart
  | V_Pump string nat
  | V_Close string nat
  | V_DelWS string
  | V_Finish string
  | V_End

text \<open>What a write to the hijacked connection does: its two deadline calls and the write can fail.\<close>

datatype conn_write = WriteOk | DeadlineFails | WriteFails | ResetFails

record ws_env =
  we_ctxErr :: "go_error option"
  we_hijack :: "bool option"
  we_handshakeFails :: bool
  we_write :: conn_write
  we_readDone :: bool

definition crlf :: string where
  "crlf = [CHR 0x0D, CHR 0x0A]"

definition handshake :: "http_header \<Rightarrow> bytes" where
  "handshake h =
     ''HTTP/1.1 101 Switching Protocols'' @ crlf @
     concat (map (\<lambda>(k, vs). concat (map (\<lambda>v. k @ '': '' @ v @ crlf) vs)) h) @ crlf"

definition pump_write :: "string \<Rightarrow> nat \<Rightarrow> conn_write \<Rightarrow> bytes \<Rightarrow> ws_pc \<times> w_event list" where
  "pump_write rid wa res data =
     (case res of
        WriteOk \<Rightarrow> (V_Pump rid wa, [W_Conn data])
      | DeadlineFails \<Rightarrow> (V_Close rid wa, [])
      | WriteFails \<Rightarrow> (V_Close rid wa, [])
      | ResetFails \<Rightarrow> (V_Close rid wa, [W_Conn data]))"

fun serveWebSocket_step ::
  "go_unicode \<Rightarrow> http_request \<Rightarrow> body_read list option \<Rightarrow> nat \<Rightarrow> ws_env \<Rightarrow> ws_pc \<Rightarrow> Server \<Rightarrow>
   (ws_pc \<times> w_event list \<times> Server) list" where
  "serveWebSocket_step U r body sa env V_Start s =
     (let (rid, s1) = next_request s in
      case tryStartRequest sa rid s1 of
        ((None, limit), s2) \<Rightarrow> [(V_End, [W_Error (inflightLimitMessage limit) 503], s2)]
      | ((Some ra, _), s2) \<Rightarrow>
          let wa = length (heap_ws s2) in
          [(V_Forward rid ra wa F_SendStart, [], putWS sa rid wa (s2\<lparr>heap_ws := heap_ws s2 @ [newWsState]\<rparr>))])"
| "serveWebSocket_step U r body sa env (V_Forward rid ra wa fpc) s =
     (case fpc of
        F_Done None \<Rightarrow> [(V_Await rid ra wa, [], s)]
      | F_Done (Some e) \<Rightarrow> [(V_DelWS rid, forward_failed (we_ctxErr env) e, s)]
      | _ \<Rightarrow> map (\<lambda>(fpc', fs, s'). (V_Forward rid ra wa fpc', [], s'))
               (forward_step U r body rid sa (we_ctxErr env) fpc s))"
| "serveWebSocket_step U r body sa env (V_Await rid ra wa) s =
     (let rs = heap_rs s ! ra in
      (case chan_recv (rs_start rs) of
         Some (st, c) \<Rightarrow> [(V_Respond rid wa st, [], upd_rs ra (\<lambda>_. rs\<lparr>rs_start := c\<rparr>) s)] | None \<Rightarrow> []) @
      (case chan_recv (rs_err rs) of
         Some (e, c) \<Rightarrow> [(V_DelWS rid, [writeBadGateway], upd_rs ra (\<lambda>_. rs\<lparr>rs_err := c\<rparr>) s)] | None \<Rightarrow> []) @
      (if rs_done rs then
         (case consumeErr rs of
            (Some e, rs') \<Rightarrow> [(V_DelWS rid, [writeBadGateway], upd_rs ra (\<lambda>_. rs') s)]
          | (None, rs') \<Rightarrow> [(V_DelWS rid, [W_Error ''tunnel closed connection'' 502], upd_rs ra (\<lambda>_. rs') s)])
       else []) @
      (if sess_done (heap_sess s ! sa) then [(V_DelWS rid, [W_Error ''session closed'' 502], s)] else []) @
      (if we_ctxErr env \<noteq> None then map (\<lambda>s'. (V_DelWS rid, [], s')) (cancelRequest sa rid s) else []))"
| "serveWebSocket_step U r body sa env (V_Respond rid wa st) s =
     (if sint (ResponseStart_StatusCode st) \<noteq> 101 then [(V_DelWS rid, [write_headers U st], s)]
      else case we_hijack env of
        None \<Rightarrow> [(V_DelWS rid, [W_Error ''WebSocket requires HTTP/1.1'' 505], s)]
      | Some ok \<Rightarrow>
          if \<not> ok then [(V_DelWS rid, [], s)]
          else if we_handshakeFails env then [(V_Close rid wa, [W_Hijack], s)]
          else [(V_Pump rid wa, [W_Hijack, W_Raw (handshake (FromProto U (ResponseStart_Headers st)))], s)])"
| "serveWebSocket_step U r body sa env (V_Pump rid wa) s =
     (let ws = heap_ws s ! wa in
      (case chan_recv (ws_fromClient ws) of
         Some (data, c) \<Rightarrow>
           (let (pc, evs) = pump_write rid wa (we_write env) data in
            [(pc, evs, upd_ws wa (\<lambda>_. ws\<lparr>ws_fromClient := c\<rparr>) s)])
       | None \<Rightarrow> []) @
      (if ws_done ws \<or> we_readDone env \<or> sess_done (heap_sess s ! sa) \<or> we_ctxErr env \<noteq> None
       then [(V_Close rid wa, [], s)] else []))"
| "serveWebSocket_step U r body sa env (V_Close rid wa) s = [(V_DelWS rid, [W_Close], upd_ws wa ws_close s)]"
| "serveWebSocket_step U r body sa env (V_DelWS rid) s = [(V_Finish rid, [], delWS sa rid s)]"
| "serveWebSocket_step U r body sa env (V_Finish rid) s = [(V_End, [], finishRequest sa rid s)]"
| "serveWebSocket_step U r body sa env V_End s = []"

subsection \<open>The reading goroutine\<close>

text \<open>
  The bytes the browser sent before the hijack, then the results of the successive \<open>Read\<close> calls.
\<close>

datatype wsread_pc =
    R_Buffered bytes "body_read list"
  | R_Read "body_read list"
  | R_Data bytes "go_error option" "body_read list"
  | R_Close
  | R_Done

definition ws_data :: "string \<Rightarrow> bytes \<Rightarrow> ServerFrame_Msg" where
  "ws_data rid p = ServerFrame_WsData \<lparr>WebSocketData_RequestId = rid, WebSocketData_Payload = p\<rparr>"

definition ws_close_frame :: "string \<Rightarrow> ServerFrame_Msg" where
  "ws_close_frame rid = ServerFrame_WsClose \<lparr>WebSocketClose_RequestId = rid\<rparr>"

definition after_ws_read :: "go_error option \<Rightarrow> body_read list \<Rightarrow> wsread_pc" where
  "after_ws_read err reads = (if err \<noteq> None then R_Close else R_Read reads)"

definition send_or ::
  "nat \<Rightarrow> ServerFrame_Msg \<Rightarrow> wsread_pc \<Rightarrow> wsread_pc \<Rightarrow> Server \<Rightarrow> (wsread_pc \<times> ServerFrame_Msg list \<times> Server) list" where
  "send_or sa f k kerr s =
     map (\<lambda>(err, s'). if err = None then (k, [f], s') else (kerr, [], s')) (sendFrame sa (Some f) s)"

fun ws_read_step ::
  "string \<Rightarrow> nat \<Rightarrow> wsread_pc \<Rightarrow> Server \<Rightarrow> (wsread_pc \<times> ServerFrame_Msg list \<times> Server) list" where
  "ws_read_step rid sa (R_Buffered buf reads) s =
     (if buf \<noteq> [] then send_or sa (ws_data rid buf) (R_Read reads) (R_Read reads) s else [(R_Read reads, [], s)])"
| "ws_read_step rid sa (R_Read []) s = []"
| "ws_read_step rid sa (R_Read ((c, err) # reads)) s =
     (if c \<noteq> [] then [(R_Data c err reads, [], s)] else [(after_ws_read err reads, [], s)])"
| "ws_read_step rid sa (R_Data c err reads) s =
     send_or sa (ws_data rid c) (after_ws_read err reads) R_Done s"
| "ws_read_step rid sa R_Close s = send_or sa (ws_close_frame rid) R_Done R_Done s"
| "ws_read_step rid sa R_Done s = []"

inductive ws_read_run :: "string \<Rightarrow> nat \<Rightarrow> wsread_pc \<Rightarrow> ServerFrame_Msg list \<Rightarrow> wsread_pc \<Rightarrow> bool" for rid sa where
  read_refl: "ws_read_run rid sa pc [] pc"
| read_next: "(pc', fs, s') \<in> set (ws_read_step rid sa pc s) \<Longrightarrow>
     ws_read_run rid sa pc' gs pc'' \<Longrightarrow> ws_read_run rid sa pc (fs @ gs) pc''"

subsection \<open>One WebSocket in flight\<close>

text \<open>
  The receive loop delivering the client's frames and the writing loop, as for a response.  The
  outcome of the upgrade is behind: the machine starts in \<open>V_Pump\<close>.  \<open>wl_fault\<close> records that a
  write failed, the browser went away, the session ended or the context was done.
\<close>

record wsrelay =
  wl_ws :: wsState
  wl_open :: bool
  wl_out :: "bytes list"
  wl_todo :: "ClientFrame_Msg list"
  wl_recv :: "ClientFrame_Msg option"
  wl_registered :: bool
  wl_fault :: bool

fun deliver_frame :: "ClientFrame_Msg \<Rightarrow> wsState \<Rightarrow> wsState list" where
  "deliver_frame (ClientFrame_WsData m) w = deliver_ws (WebSocketData_Payload m) w"
| "deliver_frame (ClientFrame_WsClose m) w = [ws_close w]"
| "deliver_frame _ w = [w]"

inductive wsrelay_step :: "wsrelay \<Rightarrow> wsrelay \<Rightarrow> bool" where
  ws_lookup: "wl_recv x = None \<Longrightarrow> wl_todo x = f # fs \<Longrightarrow>
     wsrelay_step x (x\<lparr>wl_todo := fs, wl_recv := (if wl_registered x then Some f else None)\<rparr>)"
| ws_receive: "wl_recv x = Some f \<Longrightarrow> w \<in> set (deliver_frame f (wl_ws x)) \<Longrightarrow>
     wsrelay_step x (x\<lparr>wl_ws := w, wl_recv := None\<rparr>)"
| ws_write: "wl_open x \<Longrightarrow> chan_recv (ws_fromClient (wl_ws x)) = Some (data, c) \<Longrightarrow>
     wsrelay_step x (x\<lparr>wl_ws := (wl_ws x)\<lparr>ws_fromClient := c\<rparr>, wl_out := wl_out x @ [data]\<rparr>)"
| ws_write_fails: "wl_open x \<Longrightarrow> chan_recv (ws_fromClient (wl_ws x)) = Some (data, c) \<Longrightarrow>
     wsrelay_step x (x\<lparr>wl_ws := (wl_ws x)\<lparr>ws_fromClient := c\<rparr>, wl_open := False, wl_fault := True\<rparr>)"
| ws_seen_done: "wl_open x \<Longrightarrow> ws_done (wl_ws x) \<Longrightarrow> wsrelay_step x (x\<lparr>wl_open := False\<rparr>)"
| ws_gives_up: "wl_open x \<Longrightarrow> wsrelay_step x (x\<lparr>wl_open := False, wl_fault := True\<rparr>)"
| ws_defer_close: "\<not> wl_open x \<Longrightarrow> wsrelay_step x (x\<lparr>wl_ws := ws_close (wl_ws x)\<rparr>)"
| ws_unregister: "\<not> wl_open x \<Longrightarrow> ws_done (wl_ws x) \<Longrightarrow> wl_registered x \<Longrightarrow>
     wsrelay_step x (x\<lparr>wl_registered := False\<rparr>)"
| ws_session_end: "wl_registered x \<Longrightarrow>
     wsrelay_step x (x\<lparr>wl_ws := ws_close (wl_ws x), wl_registered := False, wl_fault := True\<rparr>)"

definition client_data :: "string \<Rightarrow> bytes \<Rightarrow> ClientFrame_Msg" where
  "client_data rid p = ClientFrame_WsData \<lparr>WebSocketData_RequestId = rid, WebSocketData_Payload = p\<rparr>"

definition client_close :: "string \<Rightarrow> ClientFrame_Msg" where
  "client_close rid = ClientFrame_WsClose \<lparr>WebSocketClose_RequestId = rid\<rparr>"

definition ws_frames :: "string \<Rightarrow> bytes list \<Rightarrow> ClientFrame_Msg list" where
  "ws_frames rid ps = map (client_data rid) ps @ [client_close rid]"

definition wsrelay_start :: "ClientFrame_Msg list \<Rightarrow> wsrelay" where
  "wsrelay_start fs =
     \<lparr>wl_ws = newWsState, wl_open = True, wl_out = [], wl_todo = fs, wl_recv = None, wl_registered = True,
      wl_fault = False\<rparr>"


definition wsrelay_init :: "ClientFrame_Msg list \<Rightarrow> wsrelay \<Rightarrow> bool" where
  "wsrelay_init fs x \<longleftrightarrow> x = wsrelay_start fs"

definition ws_wf :: "wsState \<Rightarrow> bool" where
  "ws_wf w \<longleftrightarrow> chan_wf (ws_fromClient w) \<and> ch_cap (ws_fromClient w) = wsInboundQueueDepth \<and> ws_done w = ws_once w"

definition ws_flow :: "string \<Rightarrow> wsrelay \<Rightarrow> ClientFrame_Msg list" where
  "ws_flow rid x =
     map (client_data rid) (ch_buf (ws_fromClient (wl_ws x))) @ (case wl_recv x of None \<Rightarrow> [] | Some f \<Rightarrow> [f])"

definition ws_rest_ok :: "string \<Rightarrow> ClientFrame_Msg list \<Rightarrow> wsrelay \<Rightarrow> bool" where
  "ws_rest_ok rid zs x \<longleftrightarrow>
     (wl_registered x \<longrightarrow>
        (if ws_done (wl_ws x) then zs = [client_close rid] \<and> wl_recv x = None \<and> wl_todo x = []
         else zs = wl_todo x))"

definition wsrelay_ok :: "string \<Rightarrow> bytes list \<Rightarrow> wsrelay \<Rightarrow> bool" where
  "wsrelay_ok rid ps x \<longleftrightarrow>
     ws_wf (wl_ws x) \<and> (\<exists>vs. ps = wl_out x @ vs) \<and>
     (wl_open x \<longrightarrow> (\<exists>zs. map (client_data rid) (wl_out x) @ ws_flow rid x @ zs = ws_frames rid ps \<and> ws_rest_ok rid zs x))"

lemma client_frames [simp]:
  "client_data rid p \<noteq> client_close rid" "client_close rid \<noteq> client_data rid p"
  "client_data rid p = client_data rid q \<longleftrightarrow> p = q"
  by (auto simp: client_data_def client_close_def)

lemma inj_client_data: "inj (client_data rid)"
  by (simp add: inj_on_def)

lemma ws_wf_new: "ws_wf newWsState"
  by (simp add: ws_wf_def newWsState_def chan_make_def chan_wf_def)

lemma ws_wf_close: "ws_wf w \<Longrightarrow> ws_wf (ws_close w)"
  by (simp add: ws_wf_def ws_close_def)

lemma ws_wf_deliver: "ws_wf w \<Longrightarrow> w' \<in> set (deliver_frame f w) \<Longrightarrow> ws_wf w'"
  by (cases f)
    (auto simp: ws_wf_def ws_close_def deliver_ws_def chan_send_def chan_send_ready_def chan_wf_def split: if_splits)

lemma ws_prefix_of_frames: "map (client_data rid) os @ zs = ws_frames rid ps \<Longrightarrow> \<exists>vs. ps = os @ vs"
proof (cases zs)
  case Nil
  assume "map (client_data rid) os @ zs = ws_frames rid ps"
  with Nil have "client_close rid \<in> set (map (client_data rid) os)" by (simp add: ws_frames_def)
  then show ?thesis by auto
next
  case (Cons f zs')
  assume "map (client_data rid) os @ zs = ws_frames rid ps"
  with Cons have "map (client_data rid) os @ f # zs' = ws_frames rid ps" by simp
  from chunks_split [OF this [unfolded ws_frames_def]] show ?thesis
    by (auto simp: inj_map_eq_map [OF inj_client_data])
qed


lemma ws_wf_recv: "ws_wf w \<Longrightarrow> chan_recv (ws_fromClient w) = Some (d, c) \<Longrightarrow> ws_wf (w\<lparr>ws_fromClient := c\<rparr>)"
  by (auto simp: ws_wf_def chan_recv_def chan_wf_def split: list.splits)

lemma wsrelay_ok_receive:
  assumes ok: "wsrelay_ok rid ps x" and x: "wl_recv x = Some f" and w: "w \<in> set (deliver_frame f (wl_ws x))"
  shows "wsrelay_ok rid ps (x\<lparr>wl_ws := w, wl_recv := None\<rparr>)" (is "wsrelay_ok rid ps ?y")
proof -
  have wf: "ws_wf (wl_ws x)" using ok by (simp add: wsrelay_ok_def)
  have "\<exists>us. map (client_data rid) (wl_out x) @ ws_flow rid ?y @ us = ws_frames rid ps \<and> ws_rest_ok rid us ?y"
    if op: "wl_open x"
  proof -
    obtain zs where z: "map (client_data rid) (wl_out x) @ ws_flow rid x @ zs = ws_frames rid ps" "ws_rest_ok rid zs x"
      using ok op by (auto simp: wsrelay_ok_def)
    let ?b = "ch_buf (ws_fromClient (wl_ws x))"
    have eq: "(map (client_data rid) (wl_out x @ ?b)) @ f # zs = map (client_data rid) ps @ [client_close rid]"
      using z(1) x by (simp add: ws_flow_def ws_frames_def)
    from chunks_split [OF eq] show ?thesis
    proof
      assume "\<exists>ws c vs. map (client_data rid) (wl_out x @ ?b) = map (client_data rid) ws \<and> f = client_data rid c \<and>
        ps = ws @ c # vs \<and> zs = map (client_data rid) vs @ [client_close rid]"
      then obtain c where f: "f = client_data rid c" by blast
      consider (dropped) "w = wl_ws x" "ws_done (wl_ws x)"
        | (sent) "w = (wl_ws x)\<lparr>ws_fromClient := chan_send c (ws_fromClient (wl_ws x))\<rparr>"
        using w f by (auto simp: client_data_def deliver_ws_def split: if_splits)
      then show ?thesis
      proof cases
        case dropped
        then show ?thesis using z x f
          by (intro exI [of _ "f # zs"]) (auto simp: ws_flow_def ws_rest_ok_def)
      next
        case sent
        then show ?thesis using z x f
          by (intro exI [of _ zs]) (auto simp: ws_flow_def ws_rest_ok_def chan_send_def split: if_splits)
      qed
    next
      assume "map (client_data rid) (wl_out x @ ?b) = map (client_data rid) ps \<and> f = client_close rid \<and> zs = []"
      then show ?thesis using z x w wf
        by (intro exI [of _ "[f]"])
          (auto simp: ws_flow_def ws_rest_ok_def client_close_def ws_close_def ws_wf_def split: if_splits)
    qed
  qed
  then show ?thesis using ok ws_wf_deliver [OF wf w] by (simp add: wsrelay_ok_def)
qed

lemma wsrelay_ok_lookup:
  assumes ok: "wsrelay_ok rid ps x" and x: "wl_recv x = None" "wl_todo x = f # fs"
  shows "wsrelay_ok rid ps (x\<lparr>wl_todo := fs, wl_recv := (if wl_registered x then Some f else None)\<rparr>)"
    (is "wsrelay_ok rid ps ?y")
proof -
  have "\<exists>us. map (client_data rid) (wl_out x) @ ws_flow rid ?y @ us = ws_frames rid ps \<and> ws_rest_ok rid us ?y"
    if op: "wl_open x"
  proof -
    obtain zs where z: "map (client_data rid) (wl_out x) @ ws_flow rid x @ zs = ws_frames rid ps" "ws_rest_ok rid zs x"
      using ok op by (auto simp: wsrelay_ok_def)
    then show ?thesis using x
      by (cases "wl_registered x")
        (auto simp: ws_flow_def ws_rest_ok_def split: if_splits intro: exI [of _ fs])
  qed
  then show ?thesis using ok by (simp add: wsrelay_ok_def)
qed

lemma wsrelay_ok_write:
  assumes ok: "wsrelay_ok rid ps x" and x: "wl_open x" "chan_recv (ws_fromClient (wl_ws x)) = Some (d, c)"
  shows "wsrelay_ok rid ps (x\<lparr>wl_ws := (wl_ws x)\<lparr>ws_fromClient := c\<rparr>, wl_out := wl_out x @ [d]\<rparr>)"
    (is "wsrelay_ok rid ps ?y")
proof -
  obtain zs where z: "map (client_data rid) (wl_out x) @ ws_flow rid x @ zs = ws_frames rid ps" "ws_rest_ok rid zs x"
    using ok x(1) by (auto simp: wsrelay_ok_def)
  have "map (client_data rid) (wl_out ?y) @ ws_flow rid ?y @ zs = ws_frames rid ps" "ws_rest_ok rid zs ?y"
    using z x(2) by (auto simp: ws_flow_def ws_rest_ok_def chan_recv_def split: list.splits)
  moreover from this(1) have "\<exists>vs. ps = wl_out ?y @ vs" by (rule ws_prefix_of_frames)
  moreover have "ws_wf (wl_ws ?y)" using ok x(2) ws_wf_recv by (simp add: wsrelay_ok_def)
  ultimately show ?thesis unfolding wsrelay_ok_def by blast
qed

lemma wsrelay_ok_closed:
  assumes "wsrelay_ok rid ps x" "ws_wf w" "wl_out y = wl_out x" "\<not> wl_open y" "wl_ws y = w"
  shows "wsrelay_ok rid ps y"
  using assms by (simp add: wsrelay_ok_def)

lemma wsrelay_ok_step:
  assumes ok: "wsrelay_ok rid ps x" and step: "wsrelay_step x y"
  shows "wsrelay_ok rid ps y"
proof -
  have wf: "ws_wf (wl_ws x)" using ok by (simp add: wsrelay_ok_def)
  from step show ?thesis
  proof cases
    case (ws_lookup f fs)
    then show ?thesis using wsrelay_ok_lookup ok by blast
  next
    case (ws_receive f w)
    then show ?thesis using wsrelay_ok_receive ok by blast
  next
    case (ws_write d c)
    then show ?thesis using wsrelay_ok_write ok by blast
  next
    case (ws_write_fails d c)
    then show ?thesis using wsrelay_ok_closed [OF ok ws_wf_recv [OF wf ws_write_fails(3)]] by simp
  next
    case ws_session_end
    then show ?thesis using ok ws_wf_close [OF wf]
      by (auto simp: wsrelay_ok_def ws_rest_ok_def ws_flow_def ws_close_def)
  next
    case ws_unregister
    then show ?thesis using wsrelay_ok_closed [OF ok wf] by simp
  qed (use wsrelay_ok_closed [OF ok] wf ws_wf_close [OF wf] in simp_all)
qed

lemma wsrelay_ok_init: "wsrelay_init (ws_frames rid ps) x \<Longrightarrow> wsrelay_ok rid ps x"
  by (simp add: wsrelay_init_def wsrelay_start_def wsrelay_ok_def ws_wf_new ws_flow_def ws_rest_ok_def
      newWsState_def chan_make_def ws_wf_def chan_wf_def)

interpretation wsrelay: invariant_system "wsrelay_init (ws_frames rid ps)" wsrelay_step "wsrelay_ok rid ps"
  by unfold_locales (blast intro: wsrelay_ok_init wsrelay_ok_step)+


subsection \<open>The reading goroutine sends a prefix of its plan\<close>

definition ws_plan_from :: "string \<Rightarrow> body_read list \<Rightarrow> ServerFrame_Msg list" where
  "ws_plan_from rid reads = map (ws_data rid) (body_chunks reads) @ [ws_close_frame rid]"

fun ws_plan :: "string \<Rightarrow> wsread_pc \<Rightarrow> ServerFrame_Msg list" where
  "ws_plan rid (R_Buffered buf reads) = (if buf = [] then [] else [ws_data rid buf]) @ ws_plan_from rid reads"
| "ws_plan rid (R_Read reads) = ws_plan_from rid reads"
| "ws_plan rid (R_Data c err reads) = ws_data rid c # (if err = None then ws_plan_from rid reads else [ws_close_frame rid])"
| "ws_plan rid R_Close = [ws_close_frame rid]"
| "ws_plan rid R_Done = []"

lemma send_orE:
  assumes "(pc', fs, s') \<in> set (send_or sa f k kerr s)"
  obtains "pc' = k" "fs = [f]" | "pc' = kerr" "fs = []"
  using assms by (auto simp: send_or_def split: if_splits)

lemma ws_read_step_plan:
  assumes "(pc', fs, s') \<in> set (ws_read_step rid sa pc s)" "\<forall>buf reads. pc \<noteq> R_Buffered buf reads"
  shows "(\<forall>buf reads. pc' \<noteq> R_Buffered buf reads) \<and>
    (ws_plan rid pc = fs @ ws_plan rid pc' \<or> (pc' = R_Done \<and> fs = []))"
  using assms
proof (cases "(rid, sa, pc, s)" rule: ws_read_step.cases)
  case (3 rid' sa' c err reads s'')
  with assms show ?thesis by (cases err) (auto simp: after_ws_read_def ws_plan_from_def)
next
  case (4 rid' sa' c err reads s'')
  with assms show ?thesis by (cases err) (auto simp: after_ws_read_def elim!: send_orE)
qed (auto elim!: send_orE)

lemma ws_read_run_done: "ws_read_run rid sa R_Done fs pc \<Longrightarrow> fs = [] \<and> pc = R_Done"
  by (erule ws_read_run.cases) auto

lemma ws_read_run_plan:
  "ws_read_run rid sa pc fs pc' \<Longrightarrow> \<forall>buf reads. pc \<noteq> R_Buffered buf reads \<Longrightarrow> \<exists>zs. ws_plan rid pc = fs @ zs"
proof (induction rule: ws_read_run.induct)
  case (read_refl pc)
  then show ?case by simp
next
  case (read_next pc' fs s' pc s gs pc'')
  note st = ws_read_step_plan [OF read_next.hyps(1) read_next.prems]
  from st [THEN conjunct2] show ?case
  proof
    assume "ws_plan rid pc = fs @ ws_plan rid pc'"
    then show ?thesis using read_next.IH st by auto
  next
    assume "pc' = R_Done \<and> fs = []"
    then show ?thesis using ws_read_run_done read_next.hyps(2) by fastforce
  qed
qed

subsection \<open>What \<open>serveWebSocket\<close> writes\<close>

inductive ws_run ::
  "go_unicode \<Rightarrow> http_request \<Rightarrow> body_read list option \<Rightarrow> nat \<Rightarrow> ws_pc \<Rightarrow> w_event list \<Rightarrow> bool"
  for U r body sa where
  ws_run_start: "ws_run U r body sa V_Start []"
| ws_run_step: "ws_run U r body sa pc out \<Longrightarrow>
     (pc', evs, s') \<in> set (serveWebSocket_step U r body sa env pc s) \<Longrightarrow> ws_run U r body sa pc' (out @ evs)"

definition ws_errors :: "w_event list" where
  "ws_errors =
     [W_Error ''too many total in-flight requests on edge'' 503,
      W_Error ''too many in-flight requests for tunnel session'' 503,
      W_Error ''upstream tunnel request failed'' 502, W_Error ''tunnel closed connection'' 502,
      W_Error ''session closed'' 502, W_Error ''WebSocket requires HTTP/1.1'' 505]"

definition ws_refused :: "w_event list \<Rightarrow> bool" where
  "ws_refused out \<longleftrightarrow> out = [] \<or> (\<exists>e \<in> set ws_errors. out = [e]) \<or> (\<exists>h n. out = [W_Start h n] \<and> n \<noteq> 101)"

definition ws_upgraded :: "w_event list \<Rightarrow> bool" where
  "ws_upgraded out \<longleftrightarrow> out = [W_Hijack] \<or> (\<exists>h ds. out = W_Hijack # W_Raw (handshake h) # map W_Conn ds)"

fun ws_out_ok :: "ws_pc \<Rightarrow> w_event list \<Rightarrow> bool" where
  "ws_out_ok V_Start out \<longleftrightarrow> out = []"
| "ws_out_ok (V_Forward rid ra wa fpc) out \<longleftrightarrow> out = []"
| "ws_out_ok (V_Await rid ra wa) out \<longleftrightarrow> out = []"
| "ws_out_ok (V_Respond rid wa st) out \<longleftrightarrow> out = []"
| "ws_out_ok (V_Pump rid wa) out \<longleftrightarrow> (\<exists>h ds. out = W_Hijack # W_Raw (handshake h) # map W_Conn ds)"
| "ws_out_ok (V_Close rid wa) out \<longleftrightarrow> ws_upgraded out"
| "ws_out_ok _ out \<longleftrightarrow> ws_refused out \<or> (\<exists>out'. out = out' @ [W_Close] \<and> ws_upgraded out')"

lemma ws_errors_in:
  "writeBadGateway \<in> set ws_errors" "W_Error (inflightLimitMessage limit) 503 \<in> set ws_errors"
  "W_Error ''tunnel closed connection'' 502 \<in> set ws_errors" "W_Error ''session closed'' 502 \<in> set ws_errors"
  "W_Error ''WebSocket requires HTTP/1.1'' 505 \<in> set ws_errors"
  by (cases limit; simp add: ws_errors_def writeBadGateway_def publicBadGatewayMessage_def inflightLimitMessage_def)+

lemma ws_refused_simps [simp]: "ws_refused []" "e \<in> set ws_errors \<Longrightarrow> ws_refused [e]"
  by (auto simp: ws_refused_def)

lemma ws_step_out_ok:
  assumes "ws_out_ok pc out" "(pc', evs, s') \<in> set (serveWebSocket_step U r body sa env pc s)"
  shows "ws_out_ok pc' (out @ evs)"
proof (cases pc)
  case V_Start
  with assms show ?thesis by (auto simp: ws_errors_in Let_def split: prod.splits option.splits)
next
  case (V_Forward rid ra wa fpc)
  with assms show ?thesis
    by (auto simp: forward_failed_def ws_errors_in split: forward_pc.splits option.splits if_splits)
next
  case (V_Await rid ra wa)
  have "(\<exists>st. pc' = V_Respond rid wa st \<and> evs = []) \<or> (pc' = V_DelWS rid \<and> (evs = [] \<or> (\<exists>e \<in> set ws_errors. evs = [e])))"
    using assms(2) ws_errors_in unfolding V_Await
    by (cases "chan_recv (rs_start (heap_rs s ! ra))"; cases "chan_recv (rs_err (heap_rs s ! ra))"; cases "rs_done (heap_rs s ! ra)")
      (auto simp: Let_def consumeErr_def split: if_splits)
  with assms(1) V_Await show ?thesis by auto
next
  case (V_Respond rid wa st)
  with assms show ?thesis
    by (auto simp: ws_errors_in ws_refused_def ws_upgraded_def write_headers_def split: option.splits if_splits
        intro: exI [of _ "[] :: bytes list"])
next
  case (V_Pump rid wa)
  then obtain h ds where out: "out = W_Hijack # W_Raw (handshake h) # map W_Conn ds" using assms(1) by auto
  have more: "\<exists>h ds. out @ [W_Conn d] = W_Hijack # W_Raw (handshake h) # map W_Conn ds" for d
    using out by (intro exI [of _ h] exI [of _ "ds @ [d]"]) simp
  have "evs = [] \<and> pc' = V_Close rid wa \<or> (\<exists>d. evs = [W_Conn d] \<and> (pc' = V_Pump rid wa \<or> pc' = V_Close rid wa))"
    using assms(2) V_Pump
    by (cases "we_write env") (auto simp: Let_def pump_write_def split: option.splits if_splits)
  with more out show ?thesis unfolding ws_upgraded_def by (auto simp: ws_upgraded_def)
qed (use assms in \<open>auto simp: ws_refused_def\<close>)

lemma ws_run_out_ok: "ws_run U r body sa pc out \<Longrightarrow> ws_out_ok pc out"
  by (induction rule: ws_run.induct) (simp, blast intro: ws_step_out_ok)


subsection \<open>Properties\<close>

text \<open>
  The payloads of a WebSocket reach the browser in order, without gaps or repetitions: what
  was written is at any time a prefix of what the client sent, whatever fails and whenever the
  session ends.
\<close>
lemma ws_in_order:
  assumes "reachable (wsrelay_init (ws_frames rid ps)) wsrelay_step x"
  shows "\<exists>vs. ps = wl_out x @ vs"
  using wsrelay.reachable_inv [OF assms] by (simp add: wsrelay_ok_def)

definition demo_payloads :: "bytes list" where
  "demo_payloads = [''x'', ''y'']"

lemma demo_blocked:
  "reachable (wsrelay_init (ws_frames ''9'' demo_payloads)) wsrelay_step
     ((wsrelay_start (ws_frames ''9'' demo_payloads))\<lparr>wl_todo := [client_data ''9'' ''y'', client_close ''9''],
        wl_recv := Some (client_data ''9'' ''x'')\<rparr>)" (is "reachable ?i wsrelay_step ?y")
proof -
  let ?x = "wsrelay_start (ws_frames ''9'' demo_payloads)"
  have init: "reachable ?i wsrelay_step ?x" by (rule reach_init) (simp add: wsrelay_init_def)
  have "wsrelay_step ?x ?y"
    using ws_lookup [of ?x "client_data ''9'' ''x''" "[client_data ''9'' ''y'', client_close ''9'']"]
    by (simp add: wsrelay_start_def ws_frames_def demo_payloads_def)
  with init show ?thesis by (rule reach_step)
qed

theorem ws_in_order_witness:
  "\<exists>x vs. reachable (wsrelay_init (ws_frames ''9'' demo_payloads)) wsrelay_step x \<and> demo_payloads = wl_out x @ vs"
  using ws_in_order [OF demo_blocked] demo_blocked by blast

lemma deliver_frame_free:
  "ws_done w \<or> chan_send_ready (ws_fromClient w) \<Longrightarrow> deliver_frame f w \<noteq> []"
  by (cases f) (auto simp: deliver_ws_def)

lemma receive_possible:
  assumes "wl_recv x = Some f" "ws_done (wl_ws x) \<or> chan_send_ready (ws_fromClient (wl_ws x))"
  shows "\<exists>y. wsrelay_step x y \<and> wl_recv y = None"
proof -
  obtain w where "w \<in> set (deliver_frame f (wl_ws x))" using deliver_frame_free [OF assms(2)] by (meson last_in_set)
  from ws_receive [OF assms(1) this] show ?thesis
    by (intro exI [of _ "x\<lparr>wl_ws := w, wl_recv := None\<rparr>"]) simp
qed

text \<open>
  A WebSocket never blocks the receive loop of its session for good: from every reachable
  state in which the loop waits to deliver a frame, at most two further steps of the handler
  free it, because the handler closes \<open>done\<close> before it goes away.
\<close>
lemma ws_receiver_free:
  assumes "reachable (wsrelay_init (ws_frames rid ps)) wsrelay_step x" "wl_recv x = Some f"
  shows "\<exists>y. wsrelay_step\<^sup>*\<^sup>* x y \<and> wl_recv y = None"
proof -
  have wf: "ws_wf (wl_ws x)" using wsrelay.reachable_inv [OF assms(1)] by (simp add: wsrelay_ok_def)
  show ?thesis
  proof (cases "ws_done (wl_ws x) \<or> chan_send_ready (ws_fromClient (wl_ws x))")
    case True
    then show ?thesis using receive_possible [OF assms(2)] by blast
  next
    case False
    show ?thesis
    proof (cases "wl_open x")
      case True
      obtain d b where b: "ch_buf (ws_fromClient (wl_ws x)) = d # b"
        using False wf by (cases "ch_buf (ws_fromClient (wl_ws x))") (auto simp: ws_wf_def chan_send_ready_def)
      let ?y = "x\<lparr>wl_ws := (wl_ws x)\<lparr>ws_fromClient := (ws_fromClient (wl_ws x))\<lparr>ch_buf := b\<rparr>\<rparr>, wl_out := wl_out x @ [d]\<rparr>"
      have 1: "wsrelay_step x ?y" by (rule ws_write [OF True]) (simp add: chan_recv_def b)
      have "chan_send_ready (ws_fromClient (wl_ws ?y))"
        using wf b by (simp add: ws_wf_def chan_wf_def chan_send_ready_def)
      then obtain z where "wsrelay_step ?y z" "wl_recv z = None"
        using receive_possible [of ?y f] assms(2) by auto
      with 1 show ?thesis by (meson converse_rtranclp_into_rtranclp r_into_rtranclp)
    next
      case closed: False
      let ?y = "x\<lparr>wl_ws := ws_close (wl_ws x)\<rparr>"
      have 1: "wsrelay_step x ?y" by (rule ws_defer_close [OF closed])
      have "ws_done (wl_ws ?y)" using wf by (simp add: ws_close_def ws_wf_def)
      then obtain z where "wsrelay_step ?y z" "wl_recv z = None"
        using receive_possible [of ?y f] assms(2) by auto
      with 1 show ?thesis by (meson converse_rtranclp_into_rtranclp r_into_rtranclp)
    qed
  qed
qed

theorem ws_receiver_free_witness:
  "\<exists>y. wsrelay_step\<^sup>*\<^sup>* ((wsrelay_start (ws_frames ''9'' demo_payloads))
     \<lparr>wl_todo := [client_data ''9'' ''y'', client_close ''9''], wl_recv := Some (client_data ''9'' ''x'')\<rparr>) y
     \<and> wl_recv y = None"
  by (rule ws_receiver_free [OF demo_blocked]) simp

lemma ws_two_steps:
  assumes "wl_recv x = None" "wl_todo x = f # fs" "wl_registered x" "w \<in> set (deliver_frame f (wl_ws x))"
  shows "reachable i wsrelay_step x \<Longrightarrow> reachable i wsrelay_step (x\<lparr>wl_todo := fs, wl_ws := w\<rparr>)"
proof -
  let ?y = "x\<lparr>wl_todo := fs, wl_recv := (if wl_registered x then Some f else None)\<rparr>"
  have 1: "wsrelay_step x ?y" using assms(1,2) by (rule ws_lookup)
  have 2: "wsrelay_step ?y (?y\<lparr>wl_ws := w, wl_recv := None\<rparr>)" by (rule ws_receive) (use assms in simp_all)
  have "?y\<lparr>wl_ws := w, wl_recv := None\<rparr> = x\<lparr>wl_todo := fs, wl_ws := w\<rparr>"
    using assms(1) by (simp add: wsrelay.equality)
  then show "reachable i wsrelay_step (x\<lparr>wl_todo := fs, wl_ws := w\<rparr>)" if "reachable i wsrelay_step x"
    using that 1 2 by (metis reach_step)
qed

lemma ws_fill:
  "reachable i wsrelay_step x \<Longrightarrow> wl_recv x = None \<Longrightarrow> wl_registered x \<Longrightarrow>
   wl_todo x = map (client_data rid) qs @ fs \<Longrightarrow>
   length (ch_buf (ws_fromClient (wl_ws x))) + length qs \<le> ch_cap (ws_fromClient (wl_ws x)) \<Longrightarrow>
   reachable i wsrelay_step (x\<lparr>wl_todo := fs, wl_ws := (wl_ws x)\<lparr>ws_fromClient := (ws_fromClient (wl_ws x))
     \<lparr>ch_buf := ch_buf (ws_fromClient (wl_ws x)) @ qs\<rparr>\<rparr>\<rparr>)"
proof (induction qs arbitrary: x)
  case Nil
  then have "x\<lparr>wl_todo := fs, wl_ws := (wl_ws x)\<lparr>ws_fromClient := (ws_fromClient (wl_ws x))
      \<lparr>ch_buf := ch_buf (ws_fromClient (wl_ws x)) @ []\<rparr>\<rparr>\<rparr> = x" by simp
  then show ?case using Nil.prems(1) by simp
next
  case (Cons q qs)
  let ?w = "(wl_ws x)\<lparr>ws_fromClient := chan_send q (ws_fromClient (wl_ws x))\<rparr>"
  have "?w \<in> set (deliver_frame (client_data rid q) (wl_ws x))"
    using Cons.prems(5) by (simp add: client_data_def deliver_ws_def chan_send_ready_def)
  then have "reachable i wsrelay_step (x\<lparr>wl_todo := map (client_data rid) qs @ fs, wl_ws := ?w\<rparr>)"
    using ws_two_steps [of x "client_data rid q" _ ?w i] Cons.prems by simp
  from Cons.IH [OF this] Cons.prems show ?case by (simp add: chan_send_def)
qed

text \<open>
  The last payloads before a close can be lost although nothing failed: the loop that writes
  to the browser chooses freely between pending data and the closed \<open>done\<close> channel and does not
  drain the queue, so a client that sends up to four payloads and closes may have none of them
  written.
\<close>
lemma ws_tail_lost:
  assumes "length ps \<le> 4"
  shows "\<exists>x. reachable (wsrelay_init (ws_frames rid ps)) wsrelay_step x
    \<and> \<not> wl_fault x \<and> \<not> wl_open x \<and> wl_todo x = [] \<and> wl_recv x = None \<and> wl_out x = []"
proof -
  let ?x = "wsrelay_start (ws_frames rid ps)"
  let ?q = "newWsState\<lparr>ws_fromClient := (chan_make 4)\<lparr>ch_buf := ps\<rparr>\<rparr>"
  let ?x1 = "?x\<lparr>wl_todo := [client_close rid], wl_ws := ?q\<rparr>"
  let ?x2 = "?x1\<lparr>wl_todo := [], wl_ws := ws_close ?q\<rparr>"
  have "reachable (wsrelay_init (ws_frames rid ps)) wsrelay_step ?x1"
    using ws_fill [of _ ?x rid ps "[client_close rid]"] assms
    by (simp add: wsrelay_start_def ws_frames_def newWsState_def chan_make_def reach_init wsrelay_init_def)
  then have "reachable (wsrelay_init (ws_frames rid ps)) wsrelay_step ?x2"
    using ws_two_steps [of ?x1 "client_close rid" "[]" "ws_close ?q"] by (simp add: wsrelay_start_def client_close_def)
  moreover have "wsrelay_step ?x2 (?x2\<lparr>wl_open := False\<rparr>)"
    by (rule ws_seen_done) (simp_all add: wsrelay_start_def ws_close_def newWsState_def)
  ultimately have "reachable (wsrelay_init (ws_frames rid ps)) wsrelay_step (?x2\<lparr>wl_open := False\<rparr>)"
    by (rule reach_step)
  then show ?thesis
    by (intro exI [of _ "?x2\<lparr>wl_open := False\<rparr>"]) (simp add: wsrelay_start_def)
qed


theorem ws_tail_lost_witness:
  "\<exists>x. reachable (wsrelay_init (ws_frames ''9'' demo_payloads)) wsrelay_step x
    \<and> \<not> wl_fault x \<and> \<not> wl_open x \<and> wl_todo x = [] \<and> wl_recv x = None \<and> wl_out x = []"
  by (rule ws_tail_lost) (simp add: demo_payloads_def)

text \<open>
  What the browser sends on an upgraded connection is forwarded in order: the frames sent are
  a prefix of one data frame for the bytes that came with the upgrade, one per non-empty read,
  and a close after the first read error; only a session that is closed can lose the first.
\<close>
lemma ws_reader_frames:
  assumes "ws_read_run rid sa (R_Buffered buf reads) fs pc"
    and "plan = map (ws_data rid) (body_chunks reads) @ [ws_close_frame rid]"
  shows "(\<exists>zs. (if buf = [] then [] else [ws_data rid buf]) @ plan = fs @ zs) \<or> (\<exists>zs. plan = fs @ zs)"
  using assms(1)
proof cases
  case (read_next pc' fs' s' s gs)
  have "pc' = R_Read reads" "fs' = [] \<or> buf \<noteq> [] \<and> fs' = [ws_data rid buf]"
    using read_next(2) by (auto elim!: send_orE split: if_splits)
  moreover from this(1) obtain zs where "ws_plan rid (R_Read reads) = gs @ zs"
    using ws_read_run_plan [OF read_next(3)] by auto
  ultimately show ?thesis using read_next(1) assms(2) by (auto simp: ws_plan_from_def)
qed auto

lemma demo_ws_send: "(k, [f], push_outbound 0 (Some f) demo_session) \<in> set (send_or 0 f k kerr demo_session)"
proof -
  have "\<not> sess_done (heap_sess demo_session ! 0)" "chan_send_ready (sess_outbound (heap_sess demo_session ! 0))"
    by code_simp+
  then show ?thesis by (simp add: send_or_def sendFrame_def)
qed

lemma demo_read_run:
  "ws_read_run ''9'' 0 (R_Buffered ''a'' [([], Some ErrEOF)])
     ([ws_data ''9'' ''a''] @ [] @ [ws_close_frame ''9''] @ []) R_Done"
  by (rule read_next [where s = demo_session], simp, rule demo_ws_send,
      rule read_next [where s = demo_session], simp,
      simp only: after_ws_read_def option.distinct simp_thms if_True,
      rule read_next [where s = demo_session], simp, rule demo_ws_send, rule read_refl)

theorem ws_reader_frames_witness:
  "\<exists>zs. [ws_data ''9'' ''a''] @ map (ws_data ''9'') (body_chunks [([], Some ErrEOF)]) @ [ws_close_frame ''9''] =
     [ws_data ''9'' ''a'', ws_close_frame ''9''] @ zs"
  using ws_reader_frames [OF demo_read_run refl] by (auto simp: ws_data_def ws_close_frame_def)

text \<open>
  C25: whatever the tunnel and the browser do, \<open>serveWebSocket\<close> either refuses with nothing, one
  fixed error or one status other than 101, or hijacks the connection, writes the handshake at
  most once and then only payloads, and ends by closing the connection it has hijacked.
\<close>
theorem serveWebSocket_answers:
  assumes "ws_run U r body sa V_End out"
  shows "ws_refused out \<or> (\<exists>out'. out = out' @ [W_Close] \<and> ws_upgraded out')"
  using ws_run_out_ok [OF assms] by simp

definition demo_full :: Server where
  "demo_full = demo_session\<lparr>srv_totalInflight := 2\<rparr>"

theorem serveWebSocket_answers_witness:
  "ws_run no_tables demo_request None 0 V_End [W_Error ''too many total in-flight requests on edge'' 503]
   \<and> ws_refused [W_Error ''too many total in-flight requests on edge'' 503]"
proof -
  let ?e = "W_Error ''too many total in-flight requests on edge'' 503"
  have "tryStartRequest 0 ''1'' (demo_full\<lparr>srv_nextRequestID := 1\<rparr>) =
      ((None, inflightLimitTotal), demo_full\<lparr>srv_nextRequestID := 1\<rparr>)"
    "next_request demo_full = (''1'', demo_full\<lparr>srv_nextRequestID := 1\<rparr>)" by code_simp+
  then have "(V_End, [?e], demo_full\<lparr>srv_nextRequestID := 1\<rparr>) \<in>
      set (serveWebSocket_step no_tables demo_request None 0 env V_Start demo_full)" for env
    by (simp add: inflightLimitMessage_def)
  from ws_run_step [OF ws_run_start this]
  have r: "ws_run no_tables demo_request None 0 V_End [?e]" by simp
  with serveWebSocket_answers [OF r] show ?thesis by auto
qed

end
