(* ===== verification/ResponseWriter.thy ===== *)
theory ResponseWriter
  imports Tunnelpb Headers ServerState
begin

text \<open>
  The client's response writer (\<open>tunnel/response_writer.go\<close>) and \<open>serveRequest\<close>
  (\<open>tunnel/client.go\<close>): how the calls an HTTP handler makes become frames.

  The stream is gRPC code and a parameter: for every history of sends and every frame it says
  whether the send fails.  A handler is the list of calls it makes on the writer, followed by a
  return or a panic; since the theorems hold for every list, they cover handlers that choose
  their next call by what the writer returned.
\<close>

type_synonym sent = "(ClientFrame_Msg \<times> go_error option) list"
type_synonym stream = "sent \<Rightarrow> ClientFrame_Msg \<Rightarrow> go_error option"

definition send :: "stream \<Rightarrow> ClientFrame_Msg \<Rightarrow> sent \<Rightarrow> go_error option \<times> sent" where
  "send F f l = (F l f, l @ [(f, F l f)])"

record tunnelResponseWriter =
  w_header :: http_header
  w_wroteHeader :: bool
  w_ended :: bool
  w_statusCode :: int
  w_requestID :: string
  w_sendErr :: "go_error option"

definition newTunnelResponseWriter :: "string \<Rightarrow> tunnelResponseWriter" where
  "newTunnelResponseWriter rid =
     \<lparr>w_header = [], w_wroteHeader = False, w_ended = False, w_statusCode = 200, w_requestID = rid,
      w_sendErr = None\<rparr>"

definition set_sendErr :: "go_error option \<Rightarrow> tunnelResponseWriter \<Rightarrow> tunnelResponseWriter" where
  "set_sendErr err w = (case err of None \<Rightarrow> w | Some e \<Rightarrow> if w_sendErr w = None then w\<lparr>w_sendErr := Some e\<rparr> else w)"

definition start_frame :: "go_unicode \<Rightarrow> string \<Rightarrow> int \<Rightarrow> http_header \<Rightarrow> ResponseStart" where
  "start_frame U rid status h =
     \<lparr>ResponseStart_RequestId = rid, ResponseStart_StatusCode = word_of_int status,
      ResponseStart_Headers = ToProto U h\<rparr>"

definition WriteHeader ::
  "go_unicode \<Rightarrow> stream \<Rightarrow> int \<Rightarrow> tunnelResponseWriter \<times> sent \<Rightarrow> tunnelResponseWriter \<times> sent" where
  "WriteHeader U F status = (\<lambda>(w, l).
     if w_wroteHeader w \<or> w_ended w then (w, l)
     else
       let w1 = w\<lparr>w_wroteHeader := True, w_statusCode := status\<rparr>;
           (err, l1) = send F (ClientFrame_ResponseStart (start_frame U (w_requestID w) status (w_header w))) l
       in (set_sendErr err w1, l1))"

definition Write ::
  "go_unicode \<Rightarrow> stream \<Rightarrow> bytes \<Rightarrow> tunnelResponseWriter \<times> sent \<Rightarrow>
   (nat \<times> go_error option) \<times> tunnelResponseWriter \<times> sent" where
  "Write U F p = (\<lambda>(w, l).
     let needHeader = \<not> w_wroteHeader w in
     case w_sendErr w of
       Some e \<Rightarrow> ((0, Some e), w, l)
     | None \<Rightarrow>
         let (w1, l1) = (if needHeader then WriteHeader U F 200 (w, l) else (w, l)) in
         case (if needHeader then w_sendErr w1 else None) of
           Some e \<Rightarrow> ((0, Some e), w1, l1)
         | None \<Rightarrow>
             let (err, l2) = send F (response_body (w_requestID w1) p) l1 in
             case err of
               Some e \<Rightarrow> ((0, Some e), set_sendErr err w1, l2)
             | None \<Rightarrow> ((length p, None), w1, l2))"

definition Flush :: "go_unicode \<Rightarrow> stream \<Rightarrow> tunnelResponseWriter \<times> sent \<Rightarrow> tunnelResponseWriter \<times> sent" where
  "Flush U F = (\<lambda>(w, l). if \<not> w_wroteHeader w \<and> \<not> w_ended w then WriteHeader U F 200 (w, l) else (w, l))"

definition Finish ::
  "go_unicode \<Rightarrow> stream \<Rightarrow> tunnelResponseWriter \<times> sent \<Rightarrow> go_error option \<times> tunnelResponseWriter \<times> sent" where
  "Finish U F = (\<lambda>(w, l).
     if w_ended w then (None, w, l)
     else
       let (w1, l1) = (if \<not> w_wroteHeader w then WriteHeader U F (w_statusCode w) (w, l) else (w, l)) in
       if w_ended w1 then (None, w1, l1)
       else let (err, l2) = send F (response_end (w_requestID w1)) l1 in (err, w1\<lparr>w_ended := True\<rparr>, l2))"

definition response_error :: "string \<Rightarrow> string \<Rightarrow> ClientFrame_Msg" where
  "response_error rid m = ClientFrame_ResponseError \<lparr>ResponseError_RequestId = rid, ResponseError_Message = m\<rparr>"

text \<open>\<open>Fail\<close> is given the text of a non-nil error; it does nothing for a nil one.\<close>

definition Fail ::
  "stream \<Rightarrow> string option \<Rightarrow> tunnelResponseWriter \<times> sent \<Rightarrow> go_error option \<times> tunnelResponseWriter \<times> sent" where
  "Fail F err = (\<lambda>(w, l).
     case err of
       None \<Rightarrow> (None, w, l)
     | Some m \<Rightarrow>
         if w_ended w then (None, w, l)
         else let (e, l1) = send F (response_error (w_requestID w) m) l in (e, w\<lparr>w_ended := True\<rparr>, l1))"

datatype handler_op =
    OpHeader http_header
  | OpWriteHeader int
  | OpWrite bytes
  | OpFlush

fun do_op :: "go_unicode \<Rightarrow> stream \<Rightarrow> handler_op \<Rightarrow> tunnelResponseWriter \<times> sent \<Rightarrow> tunnelResponseWriter \<times> sent" where
  "do_op U F (OpHeader h) (w, l) = (w\<lparr>w_header := h\<rparr>, l)"
| "do_op U F (OpWriteHeader status) x = WriteHeader U F status x"
| "do_op U F (OpWrite p) x = snd (Write U F p x)"
| "do_op U F OpFlush x = Flush U F x"

definition do_ops ::
  "go_unicode \<Rightarrow> stream \<Rightarrow> handler_op list \<Rightarrow> tunnelResponseWriter \<times> sent \<Rightarrow> tunnelResponseWriter \<times> sent" where
  "do_ops U F ops x = fold (do_op U F) ops x"

definition serveRequest ::
  "go_unicode \<Rightarrow> stream \<Rightarrow> string \<Rightarrow> handler_op list \<Rightarrow> string option \<Rightarrow> sent \<Rightarrow> sent" where
  "serveRequest U F rid ops recovered l =
     (let x = do_ops U F ops (newTunnelResponseWriter rid, l) in
      case recovered of
        Some m \<Rightarrow> snd (snd (Fail F (Some (''panic while serving request: '' @ m)) x))
      | None \<Rightarrow> snd (snd (Finish U F x)))"

text \<open>
  What a handler means to answer: the status and headers in force at its first call that sends
  them, and the chunks it writes.
\<close>

fun meant_start :: "http_header \<Rightarrow> handler_op list \<Rightarrow> int \<times> http_header" where
  "meant_start h [] = (200, h)"
| "meant_start h (OpHeader h' # ops) = meant_start h' ops"
| "meant_start h (OpWriteHeader status # ops) = (status, h)"
| "meant_start h (OpWrite p # ops) = (200, h)"
| "meant_start h (OpFlush # ops) = (200, h)"

fun meant_chunks :: "handler_op list \<Rightarrow> bytes list" where
  "meant_chunks [] = []"
| "meant_chunks (OpWrite p # ops) = p # meant_chunks ops"
| "meant_chunks (_ # ops) = meant_chunks ops"

definition meant_frame :: "go_unicode \<Rightarrow> string \<Rightarrow> http_header \<Rightarrow> handler_op list \<Rightarrow> ResponseStart" where
  "meant_frame U rid h ops = (case meant_start h ops of (status, hdr) \<Rightarrow> start_frame U rid status hdr)"


abbreviation all_ok :: "sent \<Rightarrow> bool" where
  "all_ok ds \<equiv> list_all (\<lambda>(f, e). e = None) ds"

text \<open>
  What a run of calls has added to the log of a writer whose headers are out: chunks in order,
  none after a send that failed.
\<close>

definition chunk_log :: "string \<Rightarrow> bytes list \<Rightarrow> sent \<Rightarrow> tunnelResponseWriter \<Rightarrow> bool" where
  "chunk_log rid cs ds w \<longleftrightarrow>
     (\<exists>n. map fst ds = map (response_body rid) (take n cs) \<and> (w_sendErr w = None \<longrightarrow> take n cs = cs))
     \<and> all_ok (butlast ds) \<and> (w_sendErr w = None \<longleftrightarrow> all_ok ds)"

definition writer_open :: "string \<Rightarrow> tunnelResponseWriter \<Rightarrow> bool" where
  "writer_open rid w \<longleftrightarrow> w_wroteHeader w \<and> \<not> w_ended w \<and> w_requestID w = rid"

lemma writer_open_simps [simp]:
  "writer_open rid (set_sendErr e w) \<longleftrightarrow> writer_open rid w" "writer_open rid (w\<lparr>w_header := h\<rparr>) \<longleftrightarrow> writer_open rid w"
  by (simp_all add: writer_open_def set_sendErr_def split: option.splits)

lemma set_sendErr_keeps [simp]:
  "w_wroteHeader (set_sendErr e w) = w_wroteHeader w" "w_ended (set_sendErr e w) = w_ended w"
  "w_requestID (set_sendErr e w) = w_requestID w" "w_header (set_sendErr e w) = w_header w"
  by (simp_all add: set_sendErr_def split: option.splits)

lemma set_sendErr_first [simp]: "w_sendErr w = None \<Longrightarrow> w_sendErr (set_sendErr e w) = e"
  by (simp add: set_sendErr_def split: option.splits)

lemma do_op_failed:
  assumes "writer_open rid w" "w_sendErr w \<noteq> None"
  shows "\<exists>w'. do_op U F c (w, l) = (w', l) \<and> writer_open rid w' \<and> w_sendErr w' \<noteq> None"
  using assms by (cases c) (auto simp: WriteHeader_def Write_def Flush_def writer_open_def Let_def split: option.splits)

lemma do_ops_failed:
  "writer_open rid w \<Longrightarrow> w_sendErr w \<noteq> None \<Longrightarrow>
     \<exists>w'. do_ops U F ops (w, l) = (w', l) \<and> writer_open rid w' \<and> w_sendErr w' \<noteq> None"
proof (induction ops arbitrary: w)
  case (Cons c ops)
  obtain w1 where "do_op U F c (w, l) = (w1, l)" "writer_open rid w1" "w_sendErr w1 \<noteq> None"
    using do_op_failed [OF Cons.prems] by blast
  with Cons.IH show ?case by (simp add: do_ops_def)
qed (simp add: do_ops_def)

lemma Write_open:
  assumes "writer_open rid w" "w_sendErr w = None"
  shows "snd (Write U F p (w, l)) =
    (set_sendErr (F l (response_body rid p)) w, l @ [(response_body rid p, F l (response_body rid p))])"
  using assms
  by (cases "F l (response_body rid p)") (auto simp: Write_def send_def writer_open_def Let_def set_sendErr_def)

lemma do_op_open:
  assumes "writer_open rid w" "w_sendErr w = None"
  obtains (silent) w1 where "do_op U F c (w, l) = (w1, l)" "writer_open rid w1" "w_sendErr w1 = None"
      "meant_chunks [c] = []"
    | (sent) p w1 where "c = OpWrite p" "do_op U F c (w, l) = (w1, l @ [(response_body rid p, F l (response_body rid p))])"
      "writer_open rid w1" "w_sendErr w1 = F l (response_body rid p)"
proof (cases c)
  case (OpWrite p)
  have "do_op U F c (w, l) = (set_sendErr (F l (response_body rid p)) w, l @ [(response_body rid p, F l (response_body rid p))])"
    using Write_open [OF assms] OpWrite by simp
  from sent [OF OpWrite this] assms show thesis by simp
qed (use assms silent in \<open>auto simp: WriteHeader_def Flush_def writer_open_def\<close>)

lemma meant_chunks_Cons: "meant_chunks (c # ops) = meant_chunks [c] @ meant_chunks ops"
  by (cases c) auto

lemma do_ops_open:
  "writer_open rid w \<Longrightarrow> w_sendErr w = None \<Longrightarrow>
     \<exists>w' ds. do_ops U F ops (w, l) = (w', l @ ds) \<and> writer_open rid w' \<and> chunk_log rid (meant_chunks ops) ds w'"
proof (induction ops arbitrary: w l)
  case Nil
  then show ?case by (simp add: do_ops_def chunk_log_def)
next
  case (Cons c ops)
  from Cons.prems show ?case
  proof (cases rule: do_op_open [where c = c and U = U and F = F and l = l])
    case (silent w1)
    then show ?thesis using Cons.IH [of w1 l] by (simp add: do_ops_def meant_chunks_Cons [of c ops])
  next
    case (sent p w1)
    let ?b = "response_body rid p"
    let ?l = "l @ [(?b, F l ?b)]"
    show ?thesis
    proof (cases "F l ?b")
      case None
      then obtain w' ds where d: "do_ops U F ops (w1, ?l) = (w', ?l @ ds)" "writer_open rid w'"
        "chunk_log rid (meant_chunks ops) ds w'"
        using Cons.IH [of w1 ?l] sent by auto
      then obtain n where "map fst ds = map (response_body rid) (take n (meant_chunks ops))"
        "w_sendErr w' = None \<longrightarrow> take n (meant_chunks ops) = meant_chunks ops"
        by (auto simp: chunk_log_def)
      then have "chunk_log rid (meant_chunks (c # ops)) ((?b, None) # ds) w'"
        using d(3) sent(1) unfolding chunk_log_def
        by (intro conjI exI [of _ "Suc n"]) (auto simp: list_all_iff)
      with d sent None show ?thesis by (auto simp: do_ops_def)
    next
      case (Some e)
      then obtain w' where "do_ops U F ops (w1, ?l) = (w', ?l)" "writer_open rid w'" "w_sendErr w' \<noteq> None"
        using do_ops_failed sent by (metis option.distinct(1))
      moreover from this have "chunk_log rid (meant_chunks (c # ops)) [(?b, Some e)] w'"
        using sent(1) unfolding chunk_log_def by (auto intro: exI [of _ 1])
      ultimately show ?thesis using sent Some by (auto simp: do_ops_def)
    qed
  qed
qed


definition writer_fresh :: "string \<Rightarrow> tunnelResponseWriter \<Rightarrow> bool" where
  "writer_fresh rid w \<longleftrightarrow>
     \<not> w_wroteHeader w \<and> \<not> w_ended w \<and> w_sendErr w = None \<and> w_statusCode w = 200 \<and> w_requestID w = rid"

text \<open>The log of a run from a fresh writer that has sent its headers.\<close>

definition head_log :: "ResponseStart \<Rightarrow> string \<Rightarrow> bytes list \<Rightarrow> sent \<Rightarrow> tunnelResponseWriter \<Rightarrow> bool" where
  "head_log st rid cs ds w \<longleftrightarrow>
     (\<exists>n. map fst ds = ClientFrame_ResponseStart st # map (response_body rid) (take n cs)
        \<and> (w_sendErr w = None \<longrightarrow> take n cs = cs))
     \<and> all_ok (butlast ds) \<and> (w_sendErr w = None \<longleftrightarrow> all_ok ds)"

lemma head_logE:
  assumes "head_log st rid cs ds w"
  obtains n where "map fst ds = ClientFrame_ResponseStart st # map (response_body rid) (take n cs)"
    "w_sendErr w = None \<longrightarrow> take n cs = cs"
  using assms unfolding head_log_def by (elim conjE exE) (rule that)

lemma WriteHeader_fresh:
  assumes "writer_fresh rid w"
  obtains w1 where
    "WriteHeader U F status (w, l) = (w1, l @ [(ClientFrame_ResponseStart (start_frame U rid status (w_header w)),
       F l (ClientFrame_ResponseStart (start_frame U rid status (w_header w))))])"
    "writer_open rid w1" "w_sendErr w1 = F l (ClientFrame_ResponseStart (start_frame U rid status (w_header w)))"
  using assms by (auto simp: WriteHeader_def writer_fresh_def send_def Let_def writer_open_def)

lemma Write_fresh:
  assumes "writer_fresh rid w"
  shows "snd (Write U F p (w, l)) =
    (let (w1, l1) = WriteHeader U F 200 (w, l) in
     if w_sendErr w1 = None then snd (Write U F p (w1, l1)) else (w1, l1))"
proof -
  obtain w1 where h: "WriteHeader U F 200 (w, l) =
      (w1, l @ [(ClientFrame_ResponseStart (start_frame U rid 200 (w_header w)),
       F l (ClientFrame_ResponseStart (start_frame U rid 200 (w_header w))))])"
    "writer_open rid w1" using WriteHeader_fresh [OF assms] by blast
  then show ?thesis using assms
    by (cases "w_sendErr w1") (auto simp: Write_def writer_fresh_def writer_open_def Let_def)
qed

lemma after_header:
  assumes "writer_open rid w1" "w_sendErr w1 = e"
  shows "\<exists>w' ds. do_ops U F ops (w1, l @ [(ClientFrame_ResponseStart st, e)]) = (w', l @ ds) \<and>
    writer_open rid w' \<and> head_log st rid (meant_chunks ops) ds w'"
proof (cases e)
  case None
  let ?l = "l @ [(ClientFrame_ResponseStart st, None :: go_error option)]"
  obtain w' ds where d: "do_ops U F ops (w1, ?l) = (w', ?l @ ds)" "writer_open rid w'"
    "chunk_log rid (meant_chunks ops) ds w'"
    using do_ops_open assms None by metis
  then have "head_log st rid (meant_chunks ops) ((ClientFrame_ResponseStart st, None) # ds) w'"
    by (auto simp: head_log_def chunk_log_def list_all_iff)
  with d None show ?thesis by (intro exI conjI) auto
next
  case (Some x)
  then obtain w' where "do_ops U F ops (w1, l @ [(ClientFrame_ResponseStart st, e)]) =
    (w', l @ [(ClientFrame_ResponseStart st, e)])" "writer_open rid w'" "w_sendErr w' \<noteq> None"
    using do_ops_failed assms by (metis option.distinct(1))
  with Some show ?thesis by (intro exI conjI) (auto simp: head_log_def intro: exI [of _ 0])
qed

lemma do_ops_append: "do_ops U F (xs @ ys) x = do_ops U F ys (do_ops U F xs x)"
  by (simp add: do_ops_def)

lemma do_ops_fresh:
  "writer_fresh rid w \<Longrightarrow>
     (\<exists>w'. do_ops U F ops (w, l) = (w', l) \<and> writer_fresh rid w' \<and> meant_chunks ops = [] \<and>
        meant_start (w_header w) ops = (200, w_header w')) \<or>
     (\<exists>w' ds. do_ops U F ops (w, l) = (w', l @ ds) \<and> writer_open rid w' \<and>
        head_log (meant_frame U rid (w_header w) ops) rid (meant_chunks ops) ds w')"
proof (induction ops arbitrary: w)
  case Nil
  then show ?case by (simp add: do_ops_def)
next
  case (Cons c ops)
  have head: "\<exists>w' ds. do_ops U F ops (WriteHeader U F status (w, l)) = (w', l @ ds) \<and> writer_open rid w' \<and>
      head_log (start_frame U rid status (w_header w)) rid (meant_chunks ops) ds w'" for status
    using WriteHeader_fresh [OF Cons.prems, of U F status l] after_header by metis
  show ?case
  proof (cases c)
    case (OpHeader h)
    then have "writer_fresh rid (w\<lparr>w_header := h\<rparr>)" using Cons.prems by (simp add: writer_fresh_def)
    from Cons.IH [OF this] OpHeader show ?thesis by (simp add: do_ops_def meant_frame_def)
  next
    case (OpWriteHeader status)
    with head [of status] show ?thesis by (simp add: do_ops_def meant_frame_def)
  next
    case OpFlush
    with head [of 200] Cons.prems show ?thesis
      by (simp add: do_ops_def meant_frame_def Flush_def writer_fresh_def)
  next
    case (OpWrite p)
    obtain w1 l1 where h: "WriteHeader U F 200 (w, l) = (w1, l1)" "writer_open rid w1"
      "l1 = l @ [(ClientFrame_ResponseStart (start_frame U rid 200 (w_header w)), w_sendErr w1)]"
      using WriteHeader_fresh [OF Cons.prems, of U F 200 l] by metis
    have "do_ops U F (c # ops) (w, l) =
      (if w_sendErr w1 = None then do_ops U F (c # ops) (w1, l1) else do_ops U F ops (w1, l1))"
      using OpWrite Write_fresh [OF Cons.prems] h(1) by (simp add: do_ops_def)
    moreover have "do_ops U F (c # ops) (w1, l1) = do_ops U F ops (w1, l1)" if "w_sendErr w1 \<noteq> None"
      using OpWrite that by (auto simp: do_ops_def Write_def)
    ultimately have "do_ops U F (c # ops) (w, l) = do_ops U F (c # ops) (w1, l1)" by simp
    with after_header [OF h(2) refl, of U F "c # ops" l "start_frame U rid 200 (w_header w)"] h(3) OpWrite
    show ?thesis by (simp add: meant_frame_def)
  qed
qed


subsection \<open>Properties\<close>

lemma Finish_open:
  "writer_open rid w \<Longrightarrow> snd (snd (Finish U F (w, l))) = l @ [(response_end rid, F l (response_end rid))]"
  by (auto simp: Finish_def writer_open_def send_def Let_def)

lemma Finish_fresh:
  assumes "writer_fresh rid w"
  shows "Finish U F (w, l) = Finish U F (WriteHeader U F 200 (w, l))"
proof -
  obtain w1 l1 where h: "WriteHeader U F 200 (w, l) = (w1, l1)" "writer_open rid w1"
    using WriteHeader_fresh [OF assms] by metis
  show ?thesis unfolding h(1) using assms h by (simp add: Finish_def writer_fresh_def writer_open_def)
qed

lemma fresh_writer: "writer_fresh rid (newTunnelResponseWriter rid)" "w_header (newTunnelResponseWriter rid) = []"
  by (simp_all add: writer_fresh_def newTunnelResponseWriter_def)

lemma serveRequest_log:
  "\<exists>w ds. serveRequest U F rid ops None l = l @ ds @ [(response_end rid, F (l @ ds) (response_end rid))] \<and>
     head_log (meant_frame U rid [] ops) rid (meant_chunks ops) ds w"
  using do_ops_fresh [OF fresh_writer(1), of U F ops rid l]
proof
  assume "\<exists>w'. do_ops U F ops (newTunnelResponseWriter rid, l) = (w', l) \<and> writer_fresh rid w' \<and>
    meant_chunks ops = [] \<and> meant_start (w_header (newTunnelResponseWriter rid)) ops = (200, w_header w')"
  then obtain w' where w': "do_ops U F ops (newTunnelResponseWriter rid, l) = (w', l)" "writer_fresh rid w'"
    "meant_chunks ops = []" "meant_start [] ops = (200, w_header w')" by (auto simp: fresh_writer)
  let ?st = "start_frame U rid 200 (w_header w')"
  obtain w1 where w1: "WriteHeader U F 200 (w', l) = (w1, l @ [(ClientFrame_ResponseStart ?st, w_sendErr w1)])"
    "writer_open rid w1" using WriteHeader_fresh [OF w'(2), of U F 200 l] by metis
  have "head_log ?st rid [] [(ClientFrame_ResponseStart ?st, w_sendErr w1)] w1" by (auto simp: head_log_def)
  then show ?thesis
    using w' w1 Finish_fresh [OF w'(2), of U F l] Finish_open [OF w1(2)]
    by (intro exI [of _ w1] exI [of _ "[(ClientFrame_ResponseStart ?st, w_sendErr w1)]"])
      (simp add: serveRequest_def meant_frame_def)
next
  assume "\<exists>w' ds. do_ops U F ops (newTunnelResponseWriter rid, l) = (w', l @ ds) \<and> writer_open rid w' \<and>
    head_log (meant_frame U rid (w_header (newTunnelResponseWriter rid)) ops) rid (meant_chunks ops) ds w'"
  then show ?thesis using Finish_open by (fastforce simp: serveRequest_def fresh_writer)
qed

text \<open>
  C18: whatever calls a handler makes and whichever sends fail, a handler that returns is turned
  into one well-formed response: the status and headers of its first call that sends them (200
  when it names none), a prefix of the chunks it wrote, the end.  When every send succeeds the
  prefix is everything, and after a send that failed only the end is still tried.
\<close>
theorem serveRequest_frames:
  assumes "log = serveRequest U F rid ops None []"
  shows "(\<exists>n. map fst log = response_frames rid (meant_frame U rid [] ops) (take n (meant_chunks ops)))
    \<and> (all_ok log \<longrightarrow> map fst log = response_frames rid (meant_frame U rid [] ops) (meant_chunks ops))
    \<and> all_ok (butlast (butlast log))"
proof -
  obtain w ds where d: "log = ds @ [(response_end rid, F ds (response_end rid))]"
    "head_log (meant_frame U rid [] ops) rid (meant_chunks ops) ds w"
    using serveRequest_log [of U F rid ops "[]"] assms by auto
  obtain n where n: "map fst ds = ClientFrame_ResponseStart (meant_frame U rid [] ops) #
      map (response_body rid) (take n (meant_chunks ops))"
    "w_sendErr w = None \<longrightarrow> take n (meant_chunks ops) = meant_chunks ops"
    using d(2) by (rule head_logE)
  have "map fst log = response_frames rid (meant_frame U rid [] ops) (take n (meant_chunks ops))"
    using d(1) n(1) by (simp add: response_frames_def)
  moreover have "take n (meant_chunks ops) = meant_chunks ops" if "all_ok log"
    using n(2) d that unfolding head_log_def by simp
  moreover have "all_ok (butlast (butlast log))" using d unfolding head_log_def by simp
  ultimately show ?thesis by metis
qed


definition demo_ops :: "handler_op list" where
  "demo_ops = [OpHeader [(''X-Demo'', [''1''])], OpWriteHeader 201, OpWrite ''ab'', OpFlush, OpWrite ''c'']"

theorem serveRequest_frames_witness:
  "map fst (serveRequest no_tables (\<lambda>l f. None) ''7'' demo_ops None []) =
     response_frames ''7'' (start_frame no_tables ''7'' 201 [(''X-Demo'', [''1''])]) [''ab'', ''c'']"
proof -
  have "all_ok (serveRequest no_tables (\<lambda>l f. None) ''7'' demo_ops None [])" by code_simp
  moreover have "meant_frame no_tables ''7'' [] demo_ops = start_frame no_tables ''7'' 201 [(''X-Demo'', [''1''])]"
    "meant_chunks demo_ops = [''ab'', ''c'']" by (simp_all add: demo_ops_def meant_frame_def)
  ultimately show ?thesis using serveRequest_frames [OF refl, of no_tables "\<lambda>l f. None" "''7''" demo_ops] by metis
qed

lemma Fail_log:
  "\<not> w_ended w \<Longrightarrow> w_requestID w = rid \<Longrightarrow>
     snd (snd (Fail F (Some m) (w, l))) = l @ [(response_error rid m, F l (response_error rid m))]"
  by (simp add: Fail_def send_def)

text \<open>
  A handler that panics is turned into one error frame at the end of what it sent before: at
  most its start and a prefix of its chunks.  The panic never leaves the request without an
  answer, and no end frame follows the error.
\<close>
lemma serveRequest_panic:
  "\<exists>k. map fst (serveRequest U F rid ops (Some m) []) =
     take k (ClientFrame_ResponseStart (meant_frame U rid [] ops) # map (response_body rid) (meant_chunks ops)) @
     [response_error rid (''panic while serving request: '' @ m)]"
  using do_ops_fresh [OF fresh_writer(1), of U F ops rid "[]"]
proof
  assume "\<exists>w'. do_ops U F ops (newTunnelResponseWriter rid, []) = (w', []) \<and> writer_fresh rid w' \<and>
    meant_chunks ops = [] \<and> meant_start (w_header (newTunnelResponseWriter rid)) ops = (200, w_header w')"
  then obtain w' where "do_ops U F ops (newTunnelResponseWriter rid, []) = (w', [])" "writer_fresh rid w'" by blast
  then show ?thesis using Fail_log [of w' rid] by (intro exI [of _ 0]) (simp add: serveRequest_def writer_fresh_def)
next
  assume "\<exists>w' ds. do_ops U F ops (newTunnelResponseWriter rid, []) = (w', [] @ ds) \<and> writer_open rid w' \<and>
    head_log (meant_frame U rid (w_header (newTunnelResponseWriter rid)) ops) rid (meant_chunks ops) ds w'"
  then obtain w' ds where d: "do_ops U F ops (newTunnelResponseWriter rid, []) = (w', ds)" "writer_open rid w'"
    "head_log (meant_frame U rid [] ops) rid (meant_chunks ops) ds w'" by (auto simp: fresh_writer)
  obtain n where "map fst ds = ClientFrame_ResponseStart (meant_frame U rid [] ops) #
      map (response_body rid) (take n (meant_chunks ops))"
    using d(3) by (rule head_logE)
  with d show ?thesis using Fail_log [of w' rid]
    by (intro exI [of _ "Suc n"]) (simp add: serveRequest_def writer_open_def take_map)
qed

end
