(* ===== verification/GoFlag.thy ===== *)
theory GoFlag
  imports Prelude
begin

text \<open>
  The part of the packages \<open>flag\<close>, \<open>strconv\<close> and \<open>path/filepath\<close> that the command line programs
  use: \<open>FlagSet.Parse\<close> for boolean flags and flags with a value, \<open>ParseBool\<close>, \<open>Clean\<close> and \<open>Join\<close>.
\<close>

datatype flag_error =
    FlagSyntax string | FlagHelp | FlagUndefined string | FlagNeedsArg string | FlagBadValue string string

definition parse_bool :: "string \<Rightarrow> bool option" where
  "parse_bool s =
     (if s \<in> set [''1'', ''t'', ''T'', ''TRUE'', ''true'', ''True''] then Some True
      else if s \<in> set [''0'', ''f'', ''F'', ''FALSE'', ''false'', ''False''] then Some False else None)"

text \<open>A flag without its dashes: the name, and the value after the first \<open>=\<close> behind its first byte.\<close>

definition split_flag :: "string \<Rightarrow> string \<times> string option" where
  "split_flag name =
     (case cut_byte CHR ''='' (tl name) of
        None \<Rightarrow> (name, None) | Some (a, b) \<Rightarrow> (hd name # a, Some b))"

text \<open>
  \<open>parseOne\<close> with a table that tells for each defined name whether it is boolean, and the test
  its \<open>Set\<close> method makes.
\<close>

datatype one_flag = FlagStop "string list" | FlagFail flag_error | FlagSet string string "string list"

definition set_flag :: "(string \<Rightarrow> string \<Rightarrow> bool) \<Rightarrow> string \<Rightarrow> string \<Rightarrow> string list \<Rightarrow> one_flag" where
  "set_flag accepts name v rest = (if accepts name v then FlagSet name v rest else FlagFail (FlagBadValue name v))"

definition parse_one :: "(string \<Rightarrow> bool option) \<Rightarrow> (string \<Rightarrow> string \<Rightarrow> bool) \<Rightarrow> string \<Rightarrow> string list \<Rightarrow> one_flag" where
  "parse_one defined accepts s args =
     (if length s < 2 \<or> hd s \<noteq> CHR ''-'' then FlagStop (s # args)
      else if s = ''--'' then FlagStop args
      else
        let name = (if s ! 1 = CHR ''-'' then drop 2 s else drop 1 s) in
        if name = [] \<or> hd name = CHR ''-'' \<or> hd name = CHR ''='' then FlagFail (FlagSyntax s)
        else
          let (name, value) = split_flag name in
          case defined name of
            None \<Rightarrow> FlagFail (if name = ''help'' \<or> name = ''h'' then FlagHelp else FlagUndefined name)
          | Some is_bool \<Rightarrow>
              (case value of
                 Some v \<Rightarrow> set_flag accepts name v args
               | None \<Rightarrow>
                   if is_bool then set_flag accepts name ''true'' args
                   else (case args of [] \<Rightarrow> FlagFail (FlagNeedsArg name) | v # rest \<Rightarrow> set_flag accepts name v rest)))"

lemma parse_one_shorter: "parse_one defined accepts s args = FlagSet n v rest \<Longrightarrow> length rest \<le> length args"
  by (auto simp: parse_one_def set_flag_def Let_def split: if_splits prod.splits option.splits list.splits)

text \<open>\<open>Parse\<close>: the settings in order, and the arguments left over.\<close>

function parse_flags ::
  "(string \<Rightarrow> bool option) \<Rightarrow> (string \<Rightarrow> string \<Rightarrow> bool) \<Rightarrow> string list \<Rightarrow>
   flag_error + ((string \<times> string) list \<times> string list)" where
  "parse_flags defined accepts [] = Inr ([], [])"
| "parse_flags defined accepts (s # args) =
     (case parse_one defined accepts s args of
        FlagStop left \<Rightarrow> Inr ([], left)
      | FlagFail e \<Rightarrow> Inl e
      | FlagSet name v rest \<Rightarrow>
          (case parse_flags defined accepts rest of
             Inl e \<Rightarrow> Inl e | Inr (sets, left) \<Rightarrow> Inr ((name, v) # sets, left)))"
  by pat_completeness auto
termination
  by (relation "measure (\<lambda>(d, a, args). length args)") (auto dest: parse_one_shorter)

definition last_setting :: "string \<Rightarrow> string \<Rightarrow> (string \<times> string) list \<Rightarrow> string" where
  "last_setting name d sets = foldl (\<lambda>v (n, x). if n = name then x else v) d sets"

definition all_settings :: "string \<Rightarrow> (string \<times> string) list \<Rightarrow> string list" where
  "all_settings name sets = map snd (filter (\<lambda>(n, x). n = name) sets)"

subsection \<open>Paths\<close>

fun clean_parts :: "bool \<Rightarrow> string list \<Rightarrow> string list \<Rightarrow> string list" where
  "clean_parts rooted out [] = rev out"
| "clean_parts rooted out (p # ps) =
     (if p = [] \<or> p = ''.'' then clean_parts rooted out ps
      else if p = ''..'' then
        (case out of
           [] \<Rightarrow> if rooted then clean_parts rooted out ps else clean_parts rooted [p] ps
         | q # qs \<Rightarrow> if q = ''..'' then clean_parts rooted (p # out) ps else clean_parts rooted qs ps)
      else clean_parts rooted (p # out) ps)"

definition path_clean :: "string \<Rightarrow> string" where
  "path_clean path =
     (let rooted = (path \<noteq> [] \<and> hd path = CHR ''/'');
          body = join_byte CHR ''/'' (clean_parts rooted [] (split_byte CHR ''/'' path))
      in if rooted then CHR ''/'' # body else if body = [] then ''.'' else body)"

definition path_join :: "string list \<Rightarrow> string" where
  "path_join elems =
     (case dropWhile (\<lambda>e. e = []) elems of [] \<Rightarrow> [] | es \<Rightarrow> path_clean (join_byte CHR ''/'' es))"

subsection \<open>Facts\<close>

lemma split_flag_name_value:
  "name \<noteq> [] \<Longrightarrow> hd name \<noteq> CHR ''='' \<Longrightarrow> CHR ''='' \<notin> set name \<Longrightarrow> split_flag (name @ CHR ''='' # v) = (name, Some v)"
  by (cases name) (simp_all add: split_flag_def cut_byte_append)

definition flag_args :: "(string \<times> string) list \<Rightarrow> string list" where
  "flag_args sets = map (\<lambda>(n, v). ''--'' @ n @ CHR ''='' # v) sets"

lemma parse_flags_args:
  assumes "\<forall>(n, v) \<in> set sets. defined n \<noteq> None \<and> accepts n v \<and> n \<noteq> [] \<and> hd n \<noteq> CHR ''-'' \<and> CHR ''='' \<notin> set n"
  shows "parse_flags defined accepts (flag_args sets) = Inr (sets, [])"
  using assms
proof (induction sets)
  case Nil
  then show ?case by (simp add: flag_args_def)
next
  case (Cons x sets)
  obtain n v where x: "x = (n, v)" by (cases x)
  have n: "n \<noteq> []" "hd n \<noteq> CHR ''-''" "CHR ''='' \<notin> set n" "defined n \<noteq> None" "accepts n v"
    using Cons.prems x by auto
  have eq: "hd n \<noteq> CHR ''=''" using n by (cases n) auto
  have rest: "parse_flags defined accepts (flag_args sets) = Inr (sets, [])" using Cons by auto
  have "flag_args (x # sets) = (CHR ''-'' # CHR ''-'' # n @ CHR ''='' # v) # flag_args sets"
    by (simp add: flag_args_def x)
  moreover have "split_flag (n @ CHR ''='' # v) = (n, Some v)" using split_flag_name_value n eq by blast
  ultimately show ?case using n eq rest x by (auto simp: parse_one_def set_flag_def)
qed

end
