(* ===== verification/EdgeConfig.thy ===== *)
theory EdgeConfig
  imports GoFlag ServerState
begin

text \<open>
  The configuration of the edge (\<open>cmd/edge/config.go\<close>): flags, environment, credentials, and the
  hosts certificates are requested for.  \<open>getenv\<close> is the lookup function \<open>loadConfig\<close> is given,
  and \<open>home\<close> what \<open>os.UserHomeDir\<close> reports, \<^term>\<open>None\<close> for an error.
\<close>

definition publicDomainEnv :: string where "publicDomainEnv = ''MUXBRIDGE_PUBLIC_DOMAIN''"
definition clientCredentialsEnv :: string where "clientCredentialsEnv = ''MUXBRIDGE_CLIENT_CREDENTIALS''"
definition tlsCertFileEnv :: string where "tlsCertFileEnv = ''MUXBRIDGE_TLS_CERT_FILE''"
definition tlsKeyFileEnv :: string where "tlsKeyFileEnv = ''MUXBRIDGE_TLS_KEY_FILE''"
definition debugEnv :: string where "debugEnv = ''MUXBRIDGE_DEBUG''"
definition dataDirEnv :: string where "dataDirEnv = ''MUXBRIDGH_DATA''"
definition dataDirCompatEnv :: string where "dataDirCompatEnv = ''MUXBRIDGE_DATA''"
definition maxInflightEnv :: string where "maxInflightEnv = ''MUXBRIDGE_MAX_INFLIGHT_PER_SESSION''"
definition maxTotalInflightEnv :: string where "maxTotalInflightEnv = ''MUXBRIDGE_MAX_TOTAL_INFLIGHT''"

record edgeConfig =
  ec_PublicDomain :: string
  ec_EdgeDomain :: string
  ec_ClientCredentials :: "(string, string) gomap"
  ec_TLSCertFile :: string
  ec_TLSKeyFile :: string
  ec_Debug :: bool
  ec_DataDir :: string
  ec_MaxInflightPerSession :: int
  ec_MaxTotalInflight :: int

datatype credential_error =
    CredEmpty | CredNoEquals string | CredNoToken string | CredBadUser string label_error | CredReserved
  | CredDupToken string string string | CredDupUser string string string

datatype config_error =
    ConfigFlag flag_error | ConfigNotInt string | ConfigNotPositive string | ConfigDomain domain_error
  | ConfigTLSPair | ConfigCredential credential_error

definition sortedUsers :: "edgeConfig \<Rightarrow> string list" where
  "sortedUsers c = sort (map snd (ec_ClientCredentials c))"

definition managedHosts :: "go_unicode \<Rightarrow> edgeConfig \<Rightarrow> string list" where
  "managedHosts U c =
     [ec_PublicDomain c, ec_EdgeDomain c] @ map (\<lambda>username. Subdomain U username (ec_PublicDomain c)) (sortedUsers c)"

definition parseCredential :: "go_unicode \<Rightarrow> string \<Rightarrow> credential_error + (string \<times> string)" where
  "parseCredential U entry =
     (let entry = trim_space U entry in
      if entry = [] then Inl CredEmpty
      else case cut_byte CHR ''='' entry of
        None \<Rightarrow> Inl (CredNoEquals entry)
      | Some (token, username) \<Rightarrow>
          let token = trim_space U token; username = NormalizeLabel U username in
          if token = [] then Inl (CredNoToken entry)
          else case ValidateLabel username of
            Some e \<Rightarrow> Inl (CredBadUser entry e)
          | None \<Rightarrow> if username = ''edge'' then Inl CredReserved else Inr (token, username))"

definition splitCredentialEnv :: "go_unicode \<Rightarrow> string \<Rightarrow> string list" where
  "splitCredentialEnv U v = map (trim_space U) (split_byte CHR '','' v)"

text \<open>The loop of \<open>parseCredentials\<close> with the two maps it fills.\<close>

fun add_credentials ::
  "go_unicode \<Rightarrow> string list \<Rightarrow> (string, string) gomap \<Rightarrow> (string, string) gomap \<Rightarrow>
   credential_error + (string, string) gomap" where
  "add_credentials U [] credentials userTokens = Inr credentials"
| "add_credentials U (entry # entries) credentials userTokens =
     (case parseCredential U entry of
        Inl e \<Rightarrow> Inl e
      | Inr (token, username) \<Rightarrow>
          (case map_get credentials token of
             Some previousUser \<Rightarrow> Inl (CredDupToken token previousUser username)
           | None \<Rightarrow>
               (case map_get userTokens username of
                  Some previousToken \<Rightarrow> Inl (CredDupUser username previousToken token)
                | None \<Rightarrow> add_credentials U entries (map_put token username credentials)
                    (map_put username token userTokens))))"

definition credential_entries :: "go_unicode \<Rightarrow> string \<Rightarrow> string list \<Rightarrow> string list" where
  "credential_entries U envValue cliValues =
     (let trimmed = trim_space U envValue in
      (if trimmed \<noteq> [] then splitCredentialEnv U trimmed else []) @ cliValues)"

definition parseCredentials ::
  "go_unicode \<Rightarrow> string \<Rightarrow> string list \<Rightarrow> credential_error + (string, string) gomap" where
  "parseCredentials U envValue cliValues = add_credentials U (credential_entries U envValue cliValues) [] []"

definition parseBoolString :: "go_unicode \<Rightarrow> string \<Rightarrow> bool" where
  "parseBoolString U v \<longleftrightarrow> to_lower U (trim_space U v) \<in> set [''1'', ''t'', ''true'', ''y'', ''yes'', ''on'']"

definition resolvePositiveEnvInt :: "go_unicode \<Rightarrow> (string \<Rightarrow> string) \<Rightarrow> string \<Rightarrow> config_error + int" where
  "resolvePositiveEnvInt U getenv key =
     (let v = trim_space U (getenv key) in
      if v = [] then Inr 0
      else case atoi v of
        None \<Rightarrow> Inl (ConfigNotInt key)
      | Some resolved \<Rightarrow> if resolved \<le> 0 then Inl (ConfigNotPositive key) else Inr resolved)"

definition resolveMaxInflightPerSession :: "go_unicode \<Rightarrow> (string \<Rightarrow> string) \<Rightarrow> config_error + int" where
  "resolveMaxInflightPerSession U getenv = resolvePositiveEnvInt U getenv maxInflightEnv"

definition resolveMaxTotalInflight :: "go_unicode \<Rightarrow> (string \<Rightarrow> string) \<Rightarrow> config_error + int" where
  "resolveMaxTotalInflight U getenv = resolvePositiveEnvInt U getenv maxTotalInflightEnv"

definition resolveDataDir :: "go_unicode \<Rightarrow> string option \<Rightarrow> (string \<Rightarrow> string) \<Rightarrow> string" where
  "resolveDataDir U home getenv =
     (case filter (\<lambda>d. d \<noteq> []) (map (trim_space U \<circ> getenv) [dataDirEnv, dataDirCompatEnv]) of
        dir # _ \<Rightarrow> path_clean dir
      | [] \<Rightarrow>
          (case home of
             Some homeDir \<Rightarrow>
               if trim_space U homeDir \<noteq> [] then path_join [homeDir, ''.local'', ''share'', ''muxbridge'']
               else path_clean ''muxbridge-data''
           | None \<Rightarrow> path_clean ''muxbridge-data''))"

text \<open>\<open>--client-credential\<close> is a flag that may be repeated.\<close>

definition repeatedFlag_String :: "string list \<Rightarrow> string" where
  "repeatedFlag_String f = join_byte CHR '','' f"

definition repeatedFlag_Set :: "string list \<Rightarrow> string \<Rightarrow> string list" where
  "repeatedFlag_Set f v = f @ [v]"

lemma repeatedFlag_all: "foldl repeatedFlag_Set [] (all_settings name sets) = all_settings name sets"
proof -
  have "foldl repeatedFlag_Set f vs = f @ vs" for f vs by (induction vs arbitrary: f) (simp_all add: repeatedFlag_Set_def)
  then show ?thesis by simp
qed

definition edge_flags :: "string \<Rightarrow> bool option" where
  "edge_flags name =
     (if name = ''debug'' then Some True
      else if name \<in> set [''public-domain'', ''tls-cert-file'', ''tls-key-file'', ''client-credential''] then Some False
      else None)"

definition edge_flag_ok :: "string \<Rightarrow> string \<Rightarrow> bool" where
  "edge_flag_ok name v \<longleftrightarrow> (name = ''debug'' \<longrightarrow> parse_bool v \<noteq> None)"

definition debug_setting :: "bool \<Rightarrow> (string \<times> string) list \<Rightarrow> bool" where
  "debug_setting d sets = foldl (\<lambda>b v. case parse_bool v of Some b' \<Rightarrow> b' | None \<Rightarrow> b) d (all_settings ''debug'' sets)"

definition or_env :: "string \<Rightarrow> string \<Rightarrow> string" where
  "or_env v env = (if v = [] then env else v)"

definition loadConfig ::
  "go_unicode \<Rightarrow> string option \<Rightarrow> string list \<Rightarrow> (string \<Rightarrow> string) \<Rightarrow> config_error + edgeConfig" where
  "loadConfig U home args getenv =
     (case parse_flags edge_flags edge_flag_ok args of
        Inl e \<Rightarrow> Inl (ConfigFlag e)
      | Inr (sets, _) \<Rightarrow>
          let debug = debug_setting (parseBoolString U (getenv debugEnv)) sets;
              publicDomain = or_env (last_setting ''public-domain'' [] sets) (getenv publicDomainEnv);
              tlsCertFile = or_env (last_setting ''tls-cert-file'' [] sets) (trim_space U (getenv tlsCertFileEnv));
              tlsKeyFile = or_env (last_setting ''tls-key-file'' [] sets) (trim_space U (getenv tlsKeyFileEnv));
              dataDir = resolveDataDir U home getenv
          in
          case resolveMaxInflightPerSession U getenv of
            Inl e \<Rightarrow> Inl e
          | Inr maxInflightPerSession \<Rightarrow>
              case resolveMaxTotalInflight U getenv of
                Inl e \<Rightarrow> Inl e
              | Inr maxTotalInflight \<Rightarrow>
                  let publicDomain = NormalizeDomain U publicDomain in
                  case ValidateDomain U publicDomain of
                    Some e \<Rightarrow> Inl (ConfigDomain e)
                  | None \<Rightarrow>
                      if (tlsCertFile = []) \<noteq> (tlsKeyFile = []) then Inl ConfigTLSPair
                      else case parseCredentials U (getenv clientCredentialsEnv) (all_settings ''client-credential'' sets) of
                        Inl e \<Rightarrow> Inl (ConfigCredential e)
                      | Inr credentials \<Rightarrow> Inr
                          \<lparr>ec_PublicDomain = publicDomain, ec_EdgeDomain = Subdomain U ''edge'' publicDomain,
                           ec_ClientCredentials = credentials, ec_TLSCertFile = tlsCertFile,
                           ec_TLSKeyFile = tlsKeyFile, ec_Debug = debug, ec_DataDir = dataDir,
                           ec_MaxInflightPerSession = maxInflightPerSession, ec_MaxTotalInflight = maxTotalInflight\<rparr>)"


text \<open>The part of \<open>run\<close> that turns a loaded configuration into the server's.\<close>

definition server_config :: "edgeConfig \<Rightarrow> server_Config" where
  "server_config cfg =
     \<lparr>cfg_PublicDomain = ec_PublicDomain cfg, cfg_TokenUsers = ec_ClientCredentials cfg, cfg_HeartbeatInterval = 0,
      cfg_MaxInflightPerSession = ec_MaxInflightPerSession cfg, cfg_MaxTotalInflight = ec_MaxTotalInflight cfg\<rparr>"

text \<open>Credentials as the server accepts them.\<close>

definition credential_ok :: "string \<times> string \<Rightarrow> bool" where
  "credential_ok = (\<lambda>(t, u). t \<noteq> [] \<and> ldh_label u \<and> u \<noteq> ''edge'')"

definition credential_text :: "string \<times> string \<Rightarrow> string" where
  "credential_text = (\<lambda>(t, u). t @ CHR ''='' # u)"

definition plain_token :: "string \<Rightarrow> bool" where
  "plain_token t \<longleftrightarrow> t \<noteq> [] \<and> list_all ascii t \<and> CHR ''='' \<notin> set t \<and> CHR '','' \<notin> set t \<and>
     \<not> ascii_space (hd t) \<and> \<not> ascii_space (last t)"

lemma parseCredential_Inr: "parseCredential U e = Inr c \<Longrightarrow> credential_ok c"
  by (auto simp: parseCredential_def credential_ok_def Let_def ValidateLabel_None split: if_splits option.splits)

lemma map_put_new: "map_get m k = None \<Longrightarrow> map_put k v m = m @ [(k, v)]"
  by (induction m) (auto simp: map_get_def map_put_def split: if_splits)

lemma map_get_None: "map_get m k = None \<longleftrightarrow> k \<notin> set (map fst m)"
  by (auto simp: map_get_def map_of_eq_None_iff)

lemma fresh_pairs:
  "(\<forall>(a, b) \<in> set ps. (P a \<and> a \<noteq> t) \<and> (b \<noteq> u \<and> Q b)) \<longleftrightarrow>
     t \<notin> set (map fst ps) \<and> u \<notin> set (map snd ps) \<and> (\<forall>(a, b) \<in> set ps. P a \<and> Q b)"
  by (induction ps) auto

text \<open>The credentials that are added to tables which may not hold their tokens and users yet.\<close>

definition addable :: "go_unicode \<Rightarrow> string list \<Rightarrow> (string, string) gomap \<Rightarrow> (string, string) gomap \<Rightarrow> (string \<times> string) list \<Rightarrow> bool" where
  "addable U es cr ut ps \<longleftrightarrow> map (parseCredential U) es = map Inr ps \<and> distinct (map fst ps) \<and> distinct (map snd ps) \<and>
     (\<forall>(t, u) \<in> set ps. map_get cr t = None \<and> map_get ut u = None)"

lemma addable_Cons:
  assumes "parseCredential U e = Inr (t, u)" "map_get cr t = None" "map_get ut u = None"
  shows "addable U (e # es) cr ut ps \<longleftrightarrow> (\<exists>qs. ps = (t, u) # qs \<and> addable U es (cr @ [(t, u)]) (map_put u t ut) qs)"
proof (cases ps)
  case (Cons p qs)
  have g: "map_get (cr @ [(t, u)]) k = None \<longleftrightarrow> map_get cr k = None \<and> k \<noteq> t"
    "map_get (map_put u t ut) k = None \<longleftrightarrow> k \<noteq> u \<and> map_get ut k = None" for k
    by (auto simp: map_get_None [of "cr @ [(t, u)]"] map_get_None [of cr] gm.get_put)
  show ?thesis unfolding addable_def g fresh_pairs using assms Cons by (auto simp: image_iff)
qed (simp add: addable_def)

lemma add_credentials_addable:
  "add_credentials U es cr ut = Inr m \<longleftrightarrow> (\<exists>ps. m = cr @ ps \<and> addable U es cr ut ps)"
proof (induction es arbitrary: cr ut)
  case Nil
  then show ?case by (auto simp: addable_def)
next
  case (Cons e es)
  show ?case
  proof (cases "parseCredential U e")
    case (Inl x)
    then show ?thesis by (auto simp: addable_def Cons_eq_map_conv)
  next
    case (Inr c)
    obtain t u where c: "c = (t, u)" by (cases c)
    show ?thesis
    proof (cases "map_get cr t = None \<and> map_get ut u = None")
      case False
      then show ?thesis using Inr c by (auto simp: addable_def Cons_eq_map_conv split: option.splits)
    next
      case True
      then have "add_credentials U (e # es) cr ut = add_credentials U es (cr @ [(t, u)]) (map_put u t ut)"
        using Inr c by (simp add: map_put_new)
      then show ?thesis using Cons.IH Inr c True by (auto simp: addable_Cons)
    qed
  qed
qed

lemmas add_credentials_Inr = add_credentials_addable [unfolded addable_def]

lemma parseCredentials_Inr:
  "parseCredentials U env cli = Inr m \<longleftrightarrow>
     map (parseCredential U) (credential_entries U env cli) = map Inr m \<and> distinct (map fst m) \<and> distinct (map snd m)"
  by (auto simp: parseCredentials_def add_credentials_Inr gm.get_mt)

lemma parseCredentials_ok: "parseCredentials U env cli = Inr m \<Longrightarrow> c \<in> set m \<Longrightarrow> credential_ok c"
proof -
  assume "parseCredentials U env cli = Inr m" "c \<in> set m"
  then have "Inr c \<in> set (map (parseCredential U) (credential_entries U env cli))"
    by (auto simp: parseCredentials_Inr)
  then obtain e where "Inr c = parseCredential U e" unfolding set_map by blast
  then show ?thesis by (metis parseCredential_Inr)
qed


lemma plain_bytes: "ascii CHR ''=''" "ascii CHR '',''"
  by (simp_all add: ascii_def byte_val_def)

lemma ldh_label_ends:
  assumes "ldh_label u"
  shows "u \<noteq> []" "list_all ascii u" "\<not> ascii_space (last u)" "CHR '','' \<notin> set u"
proof -
  have c: "label_char x" if "x \<in> set u" for x using assms that by (simp add: ldh_label_def list_all_iff)
  show "u \<noteq> []" using assms by (simp add: ldh_label_def)
  then show "\<not> ascii_space (last u)" using c label_char_facts(3) by simp
  show "list_all ascii u" using c label_char_facts(1) by (auto simp: list_all_iff)
  show "CHR '','' \<notin> set u" using c label_char_facts(7) by blast
qed

lemma credential_text_clean:
  assumes "plain_token t" "credential_ok (t, u)"
  shows "list_all ascii (credential_text (t, u))" "credential_text (t, u) \<noteq> []"
    "\<not> ascii_space (hd (credential_text (t, u)))" "\<not> ascii_space (last (credential_text (t, u)))"
    "CHR '','' \<notin> set (credential_text (t, u))"
  using assms ldh_label_ends [of u] plain_bytes
  by (auto simp: credential_text_def plain_token_def credential_ok_def)

lemma parseCredential_text:
  assumes t: "plain_token t" and c: "credential_ok (t, u)"
  shows "parseCredential U (credential_text (t, u)) = Inr (t, u)"
proof -
  note clean = credential_text_clean [OF assms]
  have "trim_space U (credential_text (t, u)) = credential_text (t, u)"
    using clean by (intro trim_space_clean) auto
  moreover have "trim_space U t = t" using t by (intro trim_space_clean) (auto simp: plain_token_def)
  moreover have "cut_byte CHR ''='' (credential_text (t, u)) = Some (t, u)"
    using t by (simp add: credential_text_def plain_token_def cut_byte_append)
  moreover have "NormalizeLabel U u = u" "ValidateLabel u = None" "u \<noteq> ''edge''" "t \<noteq> []"
    using c by (auto simp: credential_ok_def NormalizeLabel_ldh ValidateLabel_None)
  ultimately show ?thesis using clean(2) by (simp add: parseCredential_def)
qed

lemma credential_entries_text:
  assumes "\<forall>(t, u) \<in> set ps. plain_token t \<and> credential_ok (t, u)"
  shows "credential_entries U (join_byte CHR '','' (map credential_text ps)) [] = map credential_text ps"
proof (cases "ps = []")
  case True
  then show ?thesis by (simp add: credential_entries_def trim_space_def Let_def)
next
  case False
  let ?ss = "map credential_text ps"
  have clean: "list_all ascii s" "s \<noteq> []" "\<not> ascii_space (hd s)" "\<not> ascii_space (last s)" "CHR '','' \<notin> set s"
    if "s \<in> set ?ss" for s
    using that assms credential_text_clean by auto
  have ss: "?ss \<noteq> []" "hd ?ss \<in> set ?ss" "last ?ss \<in> set ?ss"
    using False by (simp, metis hd_in_set map_is_Nil_conv, metis last_in_set map_is_Nil_conv)
  have "list_all ascii (join_byte CHR '','' ?ss)"
    using join_byte_bytes [of "CHR '',''" ?ss] clean(1) plain_bytes(2) unfolding list_all_iff by blast
  moreover have "join_byte CHR '','' ?ss \<noteq> []" "\<not> ascii_space (hd (join_byte CHR '','' ?ss))"
    "\<not> ascii_space (last (join_byte CHR '','' ?ss))"
    using join_byte_ends(1) [OF ss(1) clean(2) [OF ss(2)]] join_byte_ends(2) [OF ss(1) clean(2) [OF ss(3)]]
      clean(3) [OF ss(2)] clean(4) [OF ss(3)] by auto
  ultimately have "trim_space U (join_byte CHR '','' ?ss) = join_byte CHR '','' ?ss" "join_byte CHR '','' ?ss \<noteq> []"
    by (auto intro: trim_space_clean)
  moreover have "split_byte CHR '','' (join_byte CHR '','' ?ss) = ?ss"
    by (rule split_byte_join) (use ss clean in auto)
  moreover have "map (trim_space U) ?ss = ?ss"
    by (rule map_idI) (use clean in \<open>auto intro: trim_space_clean\<close>)
  ultimately show ?thesis by (simp add: credential_entries_def splitCredentialEnv_def Let_def)
qed

subsection \<open>Properties\<close>

text \<open>
  \<open>parseCredentials\<close> accepts exactly when every entry parses and neither a token nor a username
  occurs twice, and then returns all the parsed pairs.
\<close>
lemma parseCredentials_accepts:
  "parseCredentials U env cli = Inr m \<longleftrightarrow>
     map (parseCredential U) (credential_entries U env cli) = map Inr m \<and> distinct (map fst m) \<and> distinct (map snd m)"
  by (rule parseCredentials_Inr)

text \<open>
  Credentials survive being written as the environment variable documents them: a list of
  pairs with plain tokens and valid, unreserved usernames, printed as \<open>token=username\<close> entries
  joined by commas, parses back to itself.
\<close>
lemma parseCredentials_roundtrip:
  assumes "\<forall>(t, u) \<in> set ps. plain_token t \<and> credential_ok (t, u)" "distinct (map fst ps)" "distinct (map snd ps)"
  shows "parseCredentials U (join_byte CHR '','' (map credential_text ps)) [] = Inr ps"
proof -
  have "map (parseCredential U) (map credential_text ps) = map Inr ps"
    using assms(1) parseCredential_text by (auto simp: comp_def)
  then show ?thesis
    using assms(2,3) by (simp add: parseCredentials_Inr credential_entries_text [OF assms(1)])
qed

theorem parseCredentials_roundtrip_witness:
  "parseCredentials no_tables ''tok-1=demo,tok-2=other'' [] = Inr [(''tok-1'', ''demo''), (''tok-2'', ''other'')]"
proof -
  let ?ps = "[(''tok-1'', ''demo''), (''tok-2'', ''other'')]"
  have "list_all (\<lambda>(t, u). plain_token t \<and> credential_ok (t, u)) ?ps" "distinct (map fst ?ps)" "distinct (map snd ?ps)"
    "join_byte CHR '','' (map credential_text ?ps) = ''tok-1=demo,tok-2=other''" by code_simp+
  then show ?thesis using parseCredentials_roundtrip [of ?ps no_tables] by (simp only: list_all_iff)
qed


lemma loadConfig_Inr:
  assumes "loadConfig U home args getenv = Inr cfg"
  obtains sets left d where
    "parse_flags edge_flags edge_flag_ok args = Inr (sets, left)"
    "ec_PublicDomain cfg = NormalizeDomain U d" "ValidateDomain U (ec_PublicDomain cfg) = None"
    "ec_EdgeDomain cfg = Subdomain U ''edge'' (ec_PublicDomain cfg)"
    "parseCredentials U (getenv clientCredentialsEnv) (all_settings ''client-credential'' sets) = Inr (ec_ClientCredentials cfg)"
    "(ec_TLSCertFile cfg = []) = (ec_TLSKeyFile cfg = [])"
    "resolveMaxInflightPerSession U getenv = Inr (ec_MaxInflightPerSession cfg)"
    "resolveMaxTotalInflight U getenv = Inr (ec_MaxTotalInflight cfg)"
  using assms
  by (auto simp: loadConfig_def Let_def split: sum.splits option.splits if_splits)

lemma resolvePositiveEnvInt_range: "resolvePositiveEnvInt U getenv key = Inr n \<Longrightarrow> 0 \<le> n \<and> n < 2 ^ 63"
proof -
  assume r: "resolvePositiveEnvInt U getenv key = Inr n"
  have "z < 2 ^ 63" if "atoi v = Some z" for v z
    using that by (auto simp: atoi_def split: list.splits if_splits option.splits)
  with r show ?thesis by (auto simp: resolvePositiveEnvInt_def Let_def split: if_splits option.splits)
qed

lemma ValidateDomain_normal: "ValidateDomain U d = None \<Longrightarrow> ValidateDomain U (NormalizeDomain U d) = None"
  unfolding ValidateDomain_None by (simp add: NormalizeDomain_def NormalizeHost_dns_name)

lemma loadConfig_credentials:
  assumes "loadConfig U home args getenv = Inr cfg"
  shows "list_all credential_ok (ec_ClientCredentials cfg)" "distinct (map fst (ec_ClientCredentials cfg))"
    "distinct (map snd (ec_ClientCredentials cfg))" "ValidateDomain U (ec_PublicDomain cfg) = None"
    "ec_EdgeDomain cfg = Subdomain U ''edge'' (ec_PublicDomain cfg)"
proof -
  obtain env cli where c: "parseCredentials U env cli = Inr (ec_ClientCredentials cfg)"
    using loadConfig_Inr [OF assms] by blast
  show "list_all credential_ok (ec_ClientCredentials cfg)"
    using parseCredentials_ok [OF c] by (simp add: list_all_iff)
  show "distinct (map fst (ec_ClientCredentials cfg))" "distinct (map snd (ec_ClientCredentials cfg))"
    using c by (simp_all add: parseCredentials_Inr)
  show "ValidateDomain U (ec_PublicDomain cfg) = None" "ec_EdgeDomain cfg = Subdomain U ''edge'' (ec_PublicDomain cfg)"
    using loadConfig_Inr [OF assms] by blast+
qed

lemma credentials_accepted:
  assumes "list_all credential_ok ps" "distinct (map snd ps)" "ValidateDomain U d = None"
    "cfg_PublicDomain c = d" "cfg_TokenUsers c = ps"
  shows "\<exists>s. New U c = Inr s"
proof -
  have "map (NormalizeLabel U \<circ> snd) ps = map snd ps"
    using assms(1) by (auto simp: list_all_iff credential_ok_def NormalizeLabel_ldh)
  then have d: "distinct (map (NormalizeLabel U \<circ> snd) ps)" using assms(2) by (simp only:)
  have "\<forall>(t, u) \<in> set ps. t \<noteq> [] \<and> ldh_label (NormalizeLabel U u) \<and> NormalizeLabel U u \<noteq> ''edge''
      \<and> map_get [] (NormalizeLabel U u) = None"
    using assms(1) by (auto simp: list_all_iff credential_ok_def NormalizeLabel_ldh gm.get_mt)
  from new_users_accepts [OF this d] obtain tu ph where
    "new_users U (NormalizeDomain U d) ps [] [] [] = Inr (tu, ph)" by fastforce
  with assms(3-5) ValidateDomain_normal show ?thesis by (simp add: New_def Let_def)
qed

text \<open>
  C24: a configuration that \<open>loadConfig\<close> returns never makes the edge fail later: the server accepts
  it, in whatever order it visits the credentials; certificate and key are given together or not
  at all; a limit that is set is the limit the server enforces, and an unset one is its default.
\<close>
theorem loadConfig_sound:
  assumes "loadConfig U home args getenv = Inr cfg" "mset ps = mset (ec_ClientCredentials cfg)"
  shows "(\<exists>s. New U (server_config (cfg\<lparr>ec_ClientCredentials := ps\<rparr>)) = Inr s
      \<and> srv_maxInflight s = (if ec_MaxInflightPerSession cfg = 0 then 128 else ec_MaxInflightPerSession cfg)
      \<and> srv_maxTotalInflight s = (if ec_MaxTotalInflight cfg = 0 then 512 else ec_MaxTotalInflight cfg))
    \<and> (ec_TLSCertFile cfg = [] \<longleftrightarrow> ec_TLSKeyFile cfg = [])
    \<and> 0 \<le> ec_MaxInflightPerSession cfg \<and> 0 \<le> ec_MaxTotalInflight cfg"
proof -
  have lim: "0 \<le> ec_MaxInflightPerSession cfg" "0 \<le> ec_MaxTotalInflight cfg"
    and tls: "(ec_TLSCertFile cfg = []) = (ec_TLSKeyFile cfg = [])"
    using loadConfig_Inr [OF assms(1)] resolvePositiveEnvInt_range
    by (metis resolveMaxInflightPerSession_def, metis resolveMaxTotalInflight_def, blast)
  have "list_all credential_ok ps" "distinct (map snd ps)"
    using loadConfig_credentials [OF assms(1)] assms(2)
    by (metis list_all_iff mset_eq_setD, metis distinct_map_mset)
  from credentials_accepted [OF this loadConfig_credentials(4) [OF assms(1)],
      of "server_config (cfg\<lparr>ec_ClientCredentials := ps\<rparr>)"]
  obtain s where s: "New U (server_config (cfg\<lparr>ec_ClientCredentials := ps\<rparr>)) = Inr s"
    by (auto simp: server_config_def)
  then have "srv_maxInflight s = positive_or (ec_MaxInflightPerSession cfg) 128"
    "srv_maxTotalInflight s = positive_or (ec_MaxTotalInflight cfg) 512"
    by (auto simp: New_def server_config_def Let_def defaultMaxInflightPerSession_def defaultMaxTotalInflight_def
        split: option.splits sum.splits)
  with s lim tls show ?thesis by (auto simp: positive_or_def)
qed


definition demo_env :: "string \<Rightarrow> string" where
  "demo_env key =
     (if key = publicDomainEnv then ''Example.com'' else if key = clientCredentialsEnv then ''tok=Demo, t2=other''
      else if key = maxInflightEnv then '' 7 '' else [])"

definition demo_edge :: edgeConfig where
  "demo_edge =
     \<lparr>ec_PublicDomain = ''example.com'', ec_EdgeDomain = ''edge.example.com'',
      ec_ClientCredentials = [(''tok'', ''demo''), (''t2'', ''other'')], ec_TLSCertFile = [], ec_TLSKeyFile = [],
      ec_Debug = True, ec_DataDir = ''/home/u/.local/share/muxbridge'', ec_MaxInflightPerSession = 7,
      ec_MaxTotalInflight = 0\<rparr>"

lemma loadConfig_demo: "loadConfig no_tables (Some ''/home/u/'') [''-debug''] demo_env = Inr demo_edge"
proof -
  let ?sets = "[(''debug'', ''true'')]"
  have "trim_space no_tables (demo_env maxInflightEnv) = ''7''" "trim_space no_tables (demo_env maxTotalInflightEnv) = []"
    by code_simp+
  moreover have "atoi ''7'' = Some 7" by (simp add: atoi_def parse_uint_def digit_val_def byte_val_def)
  ultimately have "resolveMaxInflightPerSession no_tables demo_env = Inr 7" "resolveMaxTotalInflight no_tables demo_env = Inr 0"
    by (simp_all add: resolveMaxInflightPerSession_def resolveMaxTotalInflight_def resolvePositiveEnvInt_def)
  moreover have "parse_flags edge_flags edge_flag_ok [''-debug''] = Inr (?sets, [])" by code_simp
  moreover have "debug_setting (parseBoolString no_tables (demo_env debugEnv)) ?sets"
    "or_env (last_setting ''public-domain'' [] ?sets) (demo_env publicDomainEnv) = ''Example.com''"
    "or_env (last_setting ''tls-cert-file'' [] ?sets) (trim_space no_tables (demo_env tlsCertFileEnv)) = []"
    "or_env (last_setting ''tls-key-file'' [] ?sets) (trim_space no_tables (demo_env tlsKeyFileEnv)) = []"
    "resolveDataDir no_tables (Some ''/home/u/'') demo_env = ''/home/u/.local/share/muxbridge''"
    "NormalizeDomain no_tables ''Example.com'' = ''example.com''" "ValidateDomain no_tables ''example.com'' = None"
    "parseCredentials no_tables (demo_env clientCredentialsEnv) (all_settings ''client-credential'' ?sets) =
       Inr [(''tok'', ''demo''), (''t2'', ''other'')]"
    "Subdomain no_tables ''edge'' ''example.com'' = ''edge.example.com''"
    by code_simp+
  ultimately show ?thesis by (simp add: loadConfig_def demo_edge_def Let_def)
qed

theorem loadConfig_sound_witness:
  "\<exists>s. New no_tables (server_config (demo_edge\<lparr>ec_ClientCredentials := [(''t2'', ''other''), (''tok'', ''demo'')]\<rparr>)) = Inr s
     \<and> srv_maxInflight s = 7 \<and> srv_maxTotalInflight s = 512"
  using loadConfig_sound [OF loadConfig_demo, of "[(''t2'', ''other''), (''tok'', ''demo'')]"]
  by (simp add: demo_edge_def)

text \<open>
  The hosts certificates are requested for are pairwise distinct valid names, when the public
  domain is a name in normal form: the domain itself, the edge, and one host per user.  No user
  can hold the edge's host or the domain's, since \<open>edge\<close> is reserved.
\<close>
lemma managedHosts_distinct:
  assumes "loadConfig U home args getenv = Inr cfg" "NormalizeDomain U (ec_PublicDomain cfg) = ec_PublicDomain cfg"
  shows "distinct (managedHosts U cfg) \<and> list_all dns_name (managedHosts U cfg)
    \<and> set (managedHosts U cfg) = {ec_PublicDomain cfg, ec_EdgeDomain cfg}
        \<union> (\<lambda>(t, u). Subdomain U u (ec_PublicDomain cfg)) ` set (ec_ClientCredentials cfg)"
proof -
  let ?d = "ec_PublicDomain cfg"
  note c = loadConfig_credentials [OF assms(1)]
  have d: "dns_name ?d" using c(4) assms(2) by (simp add: ValidateDomain_None)
  have e: "ldh_label ''edge''" by code_simp
  have us: "ldh_label u" "u \<noteq> ''edge''" if "u \<in> set (sortedUsers cfg)" for u
    using that c(1) by (auto simp: sortedUsers_def list_all_iff credential_ok_def)
  have "distinct (sortedUsers cfg)" using c(3) by (simp add: sortedUsers_def)
  then have "distinct (map (\<lambda>u. Subdomain U u ?d) (sortedUsers cfg))"
    using us(1) d by (auto simp: distinct_map inj_on_def Subdomain_inject)
  moreover have dom: "?d \<noteq> Subdomain U l ?d" if "ldh_label l" for l
    using Subdomain_neq_domain [OF that d] by metis
  have "?d \<notin> set (ec_EdgeDomain cfg # map (\<lambda>u. Subdomain U u ?d) (sortedUsers cfg))"
    using dom us(1) e c(5) by auto
  moreover have "Subdomain U ''edge'' ?d \<noteq> Subdomain U u ?d" if "u \<in> set (sortedUsers cfg)" for u
    using us [OF that] e d by (simp add: Subdomain_inject)
  then have "ec_EdgeDomain cfg \<notin> set (map (\<lambda>u. Subdomain U u ?d) (sortedUsers cfg))"
    using c(5) by auto
  ultimately have "distinct (managedHosts U cfg)" by (simp add: managedHosts_def)
  moreover have "dns_name (Subdomain U l ?d)" if "ldh_label l" for l
    using that d by (simp add: Subdomain_eq dns_name_subdomain)
  then have "list_all dns_name (managedHosts U cfg)"
    using us(1) e d c(5) by (auto simp: managedHosts_def list_all_iff)
  moreover have "set (managedHosts U cfg) = {?d, ec_EdgeDomain cfg} \<union>
      (\<lambda>(t, u). Subdomain U u ?d) ` set (ec_ClientCredentials cfg)"
    by (simp add: managedHosts_def sortedUsers_def image_image case_prod_beta)
  ultimately show ?thesis by blast
qed

theorem managedHosts_distinct_witness:
  "distinct (managedHosts no_tables demo_edge) \<and> ''other.example.com'' \<in> set (managedHosts no_tables demo_edge)"
proof -
  have "NormalizeDomain no_tables (ec_PublicDomain demo_edge) = ec_PublicDomain demo_edge"
    "Subdomain no_tables ''other'' (ec_PublicDomain demo_edge) = ''other.example.com''"
    "(''t2'', ''other'') \<in> set (ec_ClientCredentials demo_edge)" by code_simp+
  with managedHosts_distinct [OF loadConfig_demo] show ?thesis by force
qed

end
