(* ===== verification/EdgeMain.thy ===== *)
theory EdgeMain
  imports EdgeConfig ServerServe
begin

text \<open>
  The edge process (\<open>cmd/edge/main.go\<close>): which handler serves a request, the status page, the
  pprof paths, the redirect to HTTPS, and the order in which \<open>run\<close> acquires and gives back its
  listeners.  TLS, certificate management and the gRPC server are library code; what \<open>run\<close>
  observes of them is part of its environment.
\<close>

datatype edge_route = ToGRPC | ToPprof | ToStatus | ToPublic | ToNotFound

definition isGRPCRequest :: "http_request \<Rightarrow> bool" where
  "isGRPCRequest r \<longleftrightarrow>
     r_ProtoMajor r = 2 \<and> has_prefix (header_get (r_Header r) ''Content-Type'') ''application/grpc''"

definition isPprofPath :: "string \<Rightarrow> bool" where
  "isPprofPath path \<longleftrightarrow> path = ''/pprof'' \<or> path = ''/pprof/'' \<or> has_prefix path ''/pprof/''"

definition newHTTPSHandler ::
  "go_unicode \<Rightarrow> string \<Rightarrow> string \<Rightarrow> (string \<Rightarrow> bool) \<Rightarrow> bool \<Rightarrow> http_request \<Rightarrow> edge_route" where
  "newHTTPSHandler U publicDomain edgeDomain isPublicHost pprof r =
     (let host = NormalizeHost U (r_Host r) in
      if host = edgeDomain \<and> isGRPCRequest r then ToGRPC
      else if host = edgeDomain \<and> pprof \<and> isPprofPath (r_Path r) then ToPprof
      else if host = edgeDomain then ToNotFound
      else if host = publicDomain then ToStatus
      else if isPublicHost host then ToPublic
      else ToNotFound)"

datatype pprof_action = PprofRedirect string | PprofServe string

definition newPprofHandler :: "string \<Rightarrow> pprof_action" where
  "newPprofHandler path =
     (if path = ''/pprof'' then PprofRedirect ''/pprof/''
      else let suffix = (if has_prefix path ''/pprof'' then drop 6 path else path);
               suffix = (if suffix = [] then ''/'' else suffix)
           in PprofServe (''/debug/pprof'' @ suffix))"

text \<open>The request URI of the URL in its encoded form is an argument.\<close>

definition redirectToHTTPS :: "go_unicode \<Rightarrow> http_request \<Rightarrow> string \<Rightarrow> string \<times> int" where
  "redirectToHTTPS U r requestURI = (''https://'' @ NormalizeHost U (r_Host r) @ requestURI, 301)"

subsection \<open>The status page\<close>

text \<open>\<open>Duration.String\<close> on a whole number of seconds.\<close>

definition format_seconds :: "nat \<Rightarrow> string" where
  "format_seconds n =
     (let h = n div 3600; m = n div 60 mod 60; sec = n mod 60 in
      if h > 0 then format_uint h @ ''h'' @ format_uint m @ ''m'' @ format_uint sec @ ''s''
      else if m > 0 then format_uint m @ ''m'' @ format_uint sec @ ''s''
      else format_uint sec @ ''s'')"

definition newStatusHandler :: "int \<Rightarrow> int \<Rightarrow> int \<times> int \<Rightarrow> string" where
  "newStatusHandler startedAt now inflight =
     (let uptime = now - startedAt;
          uptime = (if uptime < 0 then 0 else uptime)
      in ''MuxBridgh active with uptime '' @ format_seconds (nat (uptime div 10 ^ 9)) @
         [CHR 0x0A] @ ''inflight requests: '' @ format_int (fst inflight) @ ''/'' @ format_int (snd inflight))"

subsection \<open>Lists and servers\<close>

fun append_values :: "string list \<Rightarrow> (string, unit) gomap \<Rightarrow> string list \<Rightarrow> string list" where
  "append_values out present [] = out"
| "append_values out present (v # vs) =
     (if map_get present v \<noteq> None then append_values out present vs
      else append_values (out @ [v]) (map_put v () present) vs)"

definition appendMissing :: "string list \<Rightarrow> string list \<Rightarrow> string list" where
  "appendMissing existing vs = append_values existing (fold (\<lambda>v. map_put v ()) existing []) vs"

definition errServerClosed :: go_error where
  "errServerClosed = ErrNew ''http: Server closed''"

definition serveOnce :: "go_error option \<Rightarrow> go_error option" where
  "serveOnce res = (case res of Some e \<Rightarrow> if e \<noteq> errServerClosed then Some e else None | None \<Rightarrow> None)"

definition edge_serve :: "go_error option \<Rightarrow> go_error option list \<Rightarrow> go_error option list" where
  "edge_serve res errCh = errCh @ [serveOnce res]"

text \<open>The error that \<open>serveOrDie\<close> ends the process with, if it does.\<close>

definition serveOrDie :: "go_error option \<Rightarrow> go_error option" where
  "serveOrDie res = (case serveOnce res of Some err \<Rightarrow> Some err | None \<Rightarrow> None)"

definition edge_getenv :: "go_unicode \<Rightarrow> (string \<Rightarrow> string) \<Rightarrow> string \<Rightarrow> string" where
  "edge_getenv U environ key = trim_space U (environ key)"

text \<open>\<open>shutdownServers\<close> on the servers given, nil or with the result of their \<open>Shutdown\<close>.\<close>

fun shutdownServers_from :: "go_error option \<Rightarrow> go_error option option list \<Rightarrow> go_error option" where
  "shutdownServers_from firstErr [] = firstErr"
| "shutdownServers_from firstErr (None # servers) = shutdownServers_from firstErr servers"
| "shutdownServers_from firstErr (Some res # servers) =
     shutdownServers_from (if res \<noteq> None \<and> res \<noteq> Some errServerClosed \<and> firstErr = None then res else firstErr) servers"

definition shutdownServers :: "go_error option option list \<Rightarrow> go_error option" where
  "shutdownServers servers = shutdownServers_from None servers"

subsection \<open>\<open>run\<close>\<close>

datatype run_event =
    ListenHTTP | ListenHTTPS | CloseHTTP | CloseHTTPS | StartHTTP | StartHTTPS
  | ShutdownHTTP | ShutdownHTTPS | StopGRPC

datatype run_error = RunConfig config_error | RunServer new_error | RunFailed go_error

record run_env =
  re_tlsAssets :: "go_error option"
  re_listenHTTP :: "go_error option"
  re_listenHTTPS :: "go_error option"
  re_configureH2 :: "go_error option"
  re_manage :: "go_error option"
  re_stop :: "go_error option + go_error"

text \<open>
  \<open>run\<close> with nil listeners, as \<open>main\<close> calls it.  \<open>re_stop\<close> is what ends the serving phase: the
  result of a server, or the error of the context.  The effects are listed in order.
\<close>

definition run ::
  "go_unicode \<Rightarrow> string option \<Rightarrow> string list \<Rightarrow> (string \<Rightarrow> string) \<Rightarrow> run_env \<Rightarrow>
   (run_error option) \<times> run_event list" where
  "run U home args getenv env =
     (case loadConfig U home args getenv of
        Inl e \<Rightarrow> (Some (RunConfig e), [])
      | Inr cfg \<Rightarrow>
          case New U (server_config cfg) of
            Inl e \<Rightarrow> (Some (RunServer e), [])
          | Inr srv \<Rightarrow>
              case re_tlsAssets env of
                Some e \<Rightarrow> (Some (RunFailed e), [])
              | None \<Rightarrow>
                  case re_listenHTTP env of
                    Some e \<Rightarrow> (Some (RunFailed e), [])
                  | None \<Rightarrow>
                      case re_listenHTTPS env of
                        Some e \<Rightarrow> (Some (RunFailed e), [ListenHTTP, CloseHTTP])
                      | None \<Rightarrow>
                          case re_configureH2 env of
                            Some e \<Rightarrow> (Some (RunFailed e), [ListenHTTP, ListenHTTPS, CloseHTTP, CloseHTTPS])
                          | None \<Rightarrow>
                              case re_manage env of
                                Some e \<Rightarrow> (Some (RunFailed e),
                                  [ListenHTTP, ListenHTTPS, StartHTTP, CloseHTTPS, ShutdownHTTP])
                              | None \<Rightarrow>
                                  ((case re_stop env of
                                      Inl res \<Rightarrow> map_option RunFailed (serveOnce res)
                                    | Inr e \<Rightarrow> Some (RunFailed e)),
                                   [ListenHTTP, ListenHTTPS, StartHTTP, StartHTTPS, ShutdownHTTP, ShutdownHTTPS, StopGRPC]))"

text \<open>
  \<open>main\<close>: the error it ends the process with, and the effects of \<open>run\<close>.  It gives \<open>run\<close> no arguments, so
  the command line is not among its own.
\<close>

definition edge_main :: "go_unicode \<Rightarrow> string option \<Rightarrow> (string \<Rightarrow> string) \<Rightarrow> run_env \<Rightarrow> run_error option \<times> run_event list" where
  "edge_main U home environ env =
     (let (err, effects) = run U home [] (edge_getenv U environ) env in
      (if err \<noteq> None \<and> err \<noteq> Some (RunFailed ErrCanceled) then err else None, effects))"

text \<open>Which listeners are open after a list of effects; \<open>Shutdown\<close> closes the listener of its server.\<close>

fun listeners :: "bool \<times> bool \<Rightarrow> run_event list \<Rightarrow> bool \<times> bool" where
  "listeners s [] = s"
| "listeners (h, t) (e # es) =
     listeners (case e of
         ListenHTTP \<Rightarrow> (True, t) | CloseHTTP \<Rightarrow> (False, t) | ShutdownHTTP \<Rightarrow> (False, t)
       | ListenHTTPS \<Rightarrow> (h, True) | CloseHTTPS \<Rightarrow> (h, False) | ShutdownHTTPS \<Rightarrow> (h, False)
       | _ \<Rightarrow> (h, t)) es"


subsection \<open>Properties\<close>

text \<open>
  \<open>run\<close> leaks no listener: on every path, whichever step fails, both ports are closed when it
  returns; and a configuration that loads never fails in \<open>server.New\<close>.
\<close>
lemma run_closes_listeners:
  "listeners (False, False) (snd (run U home args getenv env)) = (False, False)
   \<and> fst (run U home args getenv env) \<noteq> Some (RunServer e)"
proof (cases "loadConfig U home args getenv")
  case (Inl x)
  then show ?thesis by (simp add: run_def)
next
  case (Inr cfg)
  note c = loadConfig_credentials [OF Inr]
  obtain s where "New U (server_config cfg) = Inr s"
    using credentials_accepted [OF c(1,3,4), of "server_config cfg"] by (auto simp: server_config_def)
  with Inr show ?thesis
    by (cases "re_stop env")
      (simp_all add: run_def split: option.splits)
qed

text \<open>A signal ends a running edge without an error, and an error is reported only with both ports closed.\<close>

lemma edge_main_signal:
  assumes "re_stop env = Inr ErrCanceled" "StartHTTPS \<in> set (snd (edge_main U home environ env))"
  shows "fst (edge_main U home environ env) = None"
  using assms by (auto simp: edge_main_def run_def Let_def split: sum.splits option.splits)

lemma edge_main_closes_listeners: "listeners (False, False) (snd (edge_main U home environ env)) = (False, False)"
  using run_closes_listeners [of U home "[]" "edge_getenv U environ" env] by (auto simp: edge_main_def split: prod.splits)

lemma append_values_spec:
  "(\<forall>v. map_get present v \<noteq> None \<longleftrightarrow> v \<in> set out) \<Longrightarrow>
     \<exists>ys. append_values out present vs = out @ ys \<and> distinct ys \<and> set ys = set vs - set out"
proof (induction vs arbitrary: out present)
  case (Cons v vs)
  show ?case
  proof (cases "v \<in> set out")
    case True
    then show ?thesis using Cons.IH [OF Cons.prems] Cons.prems by auto
  next
    case False
    have "\<forall>w. map_get (map_put v () present) w \<noteq> None \<longleftrightarrow> w \<in> set (out @ [v])"
      using Cons.prems by (auto simp: gm.get_put)
    from Cons.IH [OF this] obtain ys where
      "append_values (out @ [v]) (map_put v () present) vs = (out @ [v]) @ ys" "distinct ys" "set ys = set vs - set (out @ [v])"
      by blast
    then show ?thesis using False Cons.prems by (intro exI [of _ "v # ys"]) auto
  qed
qed simp

lemma present_keys: "map_get (fold (\<lambda>v. map_put v ()) xs m) v \<noteq> None \<longleftrightarrow> v \<in> set xs \<or> map_get m v \<noteq> None"
  by (induction xs arbitrary: m) (auto simp: gm.get_put)

text \<open>
  \<open>appendMissing\<close> keeps the existing protocols as they are and adds each missing one once, so
  that both \<open>h2\<close> and \<open>http/1.1\<close> are offered whatever the TLS library configured.
\<close>
lemma appendMissing_spec:
  "\<exists>ys. appendMissing xs vs = xs @ ys \<and> distinct ys \<and> set ys = set vs - set xs"
  unfolding appendMissing_def by (rule append_values_spec) (simp only: present_keys gm.get_mt simp_thms)

lemma appendMissing_superset: "set vs \<subseteq> set (appendMissing xs vs)"
  using appendMissing_spec [of xs vs] by auto

lemma HasPublicHost_user:
  assumes "New U (server_config cfg) = Inr s0" "srv_publicHosts s = srv_publicHosts s0"
    and "list_all credential_ok (ec_ClientCredentials cfg)" "distinct (map fst (ec_ClientCredentials cfg))"
  shows "HasPublicHost U h s \<longleftrightarrow>
    (\<exists>(t, u) \<in> set (ec_ClientCredentials cfg). NormalizeHost U h = Subdomain U u (srv_publicDomain s0))"
proof -
  have "map_wf (ec_ClientCredentials cfg)" using assms(4) by (simp add: map_wf_def)
  moreover have "NormalizeLabel U u = u" if "(t, u) \<in> set (ec_ClientCredentials cfg)" for t u
    using assms(3) that by (auto simp: list_all_iff credential_ok_def NormalizeLabel_ldh)
  moreover have "new_users U (srv_publicDomain s0) (ec_ClientCredentials cfg) [] [] [] =
      Inr (srv_tokenUsers s0, srv_publicHosts s0)"
    using New_Inr(3) [OF assms(1)] by (simp add: server_config_def)
  ultimately show ?thesis
    using new_users_maps [of U "srv_publicDomain s0" "ec_ClientCredentials cfg" "[]" "[]" "[]" "srv_tokenUsers s0"
        "srv_publicHosts s0" _ "NormalizeHost U h"] assms(2)
    by (fastforce simp: HasPublicHost_def gm.get_mt)
qed

lemma edge_routing_parts:
  assumes "loadConfig U home args getenv = Inr cfg" "NormalizeDomain U (ec_PublicDomain cfg) = ec_PublicDomain cfg"
    and "New U (server_config cfg) = Inr s0" "srv_publicHosts s = srv_publicHosts s0"
    and "host = NormalizeHost U (r_Host r)"
    and "route = newHTTPSHandler U (ec_PublicDomain cfg) (ec_EdgeDomain cfg) (\<lambda>h. HasPublicHost U h s) (ec_Debug cfg) r"
  shows "(route = ToGRPC \<longleftrightarrow> host = ec_EdgeDomain cfg \<and> isGRPCRequest r)
    \<and> (route = ToStatus \<longleftrightarrow> host = ec_PublicDomain cfg)
    \<and> (\<forall>(t, u) \<in> set (ec_ClientCredentials cfg). host = Subdomain U u (ec_PublicDomain cfg) \<longrightarrow> route = ToPublic)
    \<and> (route = ToPublic \<longrightarrow>
        (\<exists>(t, u) \<in> set (ec_ClientCredentials cfg). NormalizeHost U host = Subdomain U u (ec_PublicDomain cfg)))"
proof -
  let ?d = "ec_PublicDomain cfg"
  note c = loadConfig_credentials [OF assms(1)]
  have d: "dns_name ?d" using c(4) assms(2) by (simp add: ValidateDomain_None)
  have pd: "srv_publicDomain s0 = ?d" using New_Inr(2) [OF assms(3)] assms(2) by (simp add: server_config_def)
  have e: "ldh_label ''edge''" by code_simp
  have edge: "ec_EdgeDomain cfg \<noteq> ?d" using Subdomain_neq_domain [OF e d] c(5) by simp
  have user: "Subdomain U u ?d \<noteq> ec_EdgeDomain cfg" "Subdomain U u ?d \<noteq> ?d"
    "NormalizeHost U (Subdomain U u ?d) = Subdomain U u ?d" if "(t, u) \<in> set (ec_ClientCredentials cfg)" for t u
  proof -
    have u: "ldh_label u" "u \<noteq> ''edge''" using c(1) that by (auto simp: list_all_iff credential_ok_def)
    then show "Subdomain U u ?d \<noteq> ec_EdgeDomain cfg" using e d c(5) by (simp add: Subdomain_inject)
    show "Subdomain U u ?d \<noteq> ?d" by (rule Subdomain_neq_domain [OF u(1) d])
    show "NormalizeHost U (Subdomain U u ?d) = Subdomain U u ?d"
      using NormalizeHost_dns_name [OF dns_name_subdomain [OF u(1) d]] u(1) d by (simp add: Subdomain_eq)
  qed
  note pub = HasPublicHost_user [OF assms(3,4) c(1,2), unfolded pd]
  have "route = ToPublic" if "(t, u) \<in> set (ec_ClientCredentials cfg)" "host = Subdomain U u ?d" for t u
  proof -
    have "HasPublicHost U host s" using user(3) [OF that(1)] that pub by fastforce
    then show ?thesis using user(1,2) [OF that(1)] that(2) by (simp add: assms(5,6) newHTTPSHandler_def Let_def)
  qed
  moreover have "route = ToPublic \<longrightarrow> HasPublicHost U host s"
    by (auto simp: assms(5,6) newHTTPSHandler_def Let_def split: if_splits)
  moreover have "route = ToGRPC \<longleftrightarrow> host = ec_EdgeDomain cfg \<and> isGRPCRequest r" "route = ToStatus \<longleftrightarrow> host = ?d"
    using edge by (auto simp: assms(5,6) newHTTPSHandler_def Let_def)
  ultimately show ?thesis using pub by auto
qed

text \<open>
  C21: the hosts of the edge never overlap.  With a loaded configuration whose domain is in normal
  form, the edge's own host reaches the tunnel service exactly for gRPC requests and is never
  proxied; the bare domain is the status page; a request for a user's host reaches the public
  handler, and only a host that normalises to a user's does.
\<close>
theorem edge_routing:
  assumes "loadConfig U home args getenv = Inr cfg" "NormalizeDomain U (ec_PublicDomain cfg) = ec_PublicDomain cfg"
    and "New U (server_config cfg) = Inr s0" "srv_publicHosts s = srv_publicHosts s0"
    and "host = NormalizeHost U (r_Host r)"
    and "route = newHTTPSHandler U (ec_PublicDomain cfg) (ec_EdgeDomain cfg) (\<lambda>h. HasPublicHost U h s) (ec_Debug cfg) r"
  shows "(route = ToGRPC \<longleftrightarrow> host = ec_EdgeDomain cfg \<and> isGRPCRequest r)
    \<and> (route = ToStatus \<longleftrightarrow> host = ec_PublicDomain cfg)
    \<and> (\<forall>(t, u) \<in> set (ec_ClientCredentials cfg). host = Subdomain U u (ec_PublicDomain cfg) \<longrightarrow> route = ToPublic)
    \<and> (route = ToPublic \<longrightarrow>
        (\<exists>(t, u) \<in> set (ec_ClientCredentials cfg). NormalizeHost U host = Subdomain U u (ec_PublicDomain cfg)))"
  using edge_routing_parts [OF assms] .


definition demo_edge_server :: Server where
  "demo_edge_server = demo_server\<lparr>srv_tokenUsers := [(''tok'', ''demo''), (''t2'', ''other'')],
     srv_publicHosts := [(''demo.example.com'', ()), (''other.example.com'', ())], srv_maxInflight := 7,
     srv_maxTotalInflight := 512\<rparr>"

theorem edge_routing_witness:
  "newHTTPSHandler no_tables ''example.com'' ''edge.example.com''
     (\<lambda>h. HasPublicHost no_tables h demo_edge_server) True (demo_request\<lparr>r_Host := ''Other.example.com:443''\<rparr>) = ToPublic"
proof -
  let ?r = "demo_request\<lparr>r_Host := ''Other.example.com:443''\<rparr>"
  have "NormalizeDomain no_tables (ec_PublicDomain demo_edge) = ec_PublicDomain demo_edge"
    "New no_tables (server_config demo_edge) = Inr demo_edge_server"
    "NormalizeHost no_tables (r_Host ?r) = Subdomain no_tables ''other'' (ec_PublicDomain demo_edge)" by code_simp+
  note h = this
  have "(''t2'', ''other'') \<in> set (ec_ClientCredentials demo_edge)" by (simp add: demo_edge_def)
  with edge_routing [OF loadConfig_demo h(1,2) refl refl refl, of ?r] h(3)
  have "newHTTPSHandler no_tables (ec_PublicDomain demo_edge) (ec_EdgeDomain demo_edge)
     (\<lambda>h. HasPublicHost no_tables h demo_edge_server) (ec_Debug demo_edge) ?r = ToPublic" by blast
  then show ?thesis by (simp add: demo_edge_def)
qed

end
