(* ===== verification/ClientLifecycle.thy ===== *)
theory ClientLifecycle
  imports ResponseWriter
begin

text \<open>
  The life of a tunnel client (\<open>tunnel/client.go\<close>): \<open>New\<close>, the reconnect loop \<open>Run\<close> with the
  connection a session holds, and \<open>Close\<close>, which may be called from any goroutine at any time.
\<close>

record client_Config =
  cc_EdgeAddr :: string
  cc_TunnelID :: string
  cc_Token :: string
  cc_Handler :: bool
  cc_Insecure :: bool
  cc_Debug :: bool
  cc_ReconnectBackoff :: int
  cc_DialTimeout :: int

datatype client_error = NoEdgeAddr | NoHandler | NoToken

text \<open>
  A client: its configuration, \<open>closed\<close>, the connection it holds and whether \<open>closeCh\<close> is closed.
  Connections are numbered; \<open>cl_closedConns\<close> lists those that \<open>Close\<close> was called on.
\<close>

record Client =
  cl_cfg :: client_Config
  cl_closed :: bool
  cl_conn :: "nat option"
  cl_closeCh :: bool
  cl_closedConns :: "nat list"

definition client_New :: "client_Config \<Rightarrow> client_error + Client" where
  "client_New cfg =
     (if cc_EdgeAddr cfg = [] then Inl NoEdgeAddr
      else if \<not> cc_Handler cfg then Inl NoHandler
      else if cc_Token cfg = [] then Inl NoToken
      else Inr
        \<lparr>cl_cfg = cfg\<lparr>cc_ReconnectBackoff := positive_or (cc_ReconnectBackoff cfg) (2 * 10 ^ 9),
                       cc_DialTimeout := positive_or (cc_DialTimeout cfg) (10 * 10 ^ 9)\<rparr>,
         cl_closed = False, cl_conn = None, cl_closeCh = False, cl_closedConns = []\<rparr>)"

definition isClosed :: "Client \<Rightarrow> bool" where
  "isClosed c = cl_closed c"

definition close_conn :: "nat \<Rightarrow> Client \<Rightarrow> Client" where
  "close_conn n c = c\<lparr>cl_closedConns := n # cl_closedConns c\<rparr>"

definition setConn :: "nat \<Rightarrow> Client \<Rightarrow> Client" where
  "setConn n c = (if cl_closed c then close_conn n c else c\<lparr>cl_conn := Some n\<rparr>)"

definition clearConn :: "nat \<Rightarrow> Client \<Rightarrow> Client" where
  "clearConn n c = (if cl_conn c = Some n then c\<lparr>cl_conn := None\<rparr> else c)"

text \<open>
  \<open>Close\<close> has three parts: the section under the mutex, the close of the channel by the first
  caller, and the close of the connection it found.
\<close>

datatype close_pc =
    K_Channel bool "nat option"
  | K_Conn "nat option"
  | K_Returned

definition Close_locked :: "Client \<Rightarrow> close_pc \<times> Client" where
  "Close_locked c =
     (K_Channel (cl_closed c) (cl_conn c), c\<lparr>cl_closed := True, cl_conn := None\<rparr>)"

text \<open>How \<open>runSession\<close> dials: the credentials of the transport, and until when it waits for the connection.\<close>

datatype transport_credentials = InsecureCredentials | TLSCredentials

definition dial_credentials :: "Client \<Rightarrow> transport_credentials" where
  "dial_credentials c = (if cc_Insecure (cl_cfg c) then InsecureCredentials else TLSCredentials)"

definition dial_deadline :: "int \<Rightarrow> Client \<Rightarrow> int" where
  "dial_deadline now c = now + cc_DialTimeout (cl_cfg c)"

text \<open>
  \<open>Run\<close> and the connection handling of \<open>runSession\<close>: \<open>L_Dial\<close> is the call of \<open>grpc.NewClient\<close>,
  \<open>L_Wait\<close> is \<open>waitForConnReady\<close>, \<open>L_Ready\<close> the point before \<open>setConn\<close>, \<open>L_Session\<close> the stream and its
  receive loop (it may end at any time), \<open>L_Ended\<close> the return of \<open>runSession\<close> after its deferred
  \<open>clearConn\<close> and close, \<open>L_Backoff\<close> the select on the timer.
\<close>

datatype run_pc =
    L_Dial
  | L_Wait nat
  | L_Ready nat
  | L_Session nat
  | L_Ended
  | L_Backoff
  | L_Returned "go_error option"

record life =
  lf_client :: Client
  lf_run :: run_pc
  lf_closers :: "close_pc list"
  lf_ctxErr :: "go_error option"
  lf_nextConn :: nat
  lf_panic :: bool

inductive run_loop :: "life \<Rightarrow> life \<Rightarrow> bool" where
  dial_fails: "lf_run x = L_Dial \<Longrightarrow> run_loop x (x\<lparr>lf_run := L_Ended\<rparr>)"
| dial_conn: "lf_run x = L_Dial \<Longrightarrow>
     run_loop x (x\<lparr>lf_run := L_Wait (lf_nextConn x), lf_nextConn := Suc (lf_nextConn x)\<rparr>)"
| not_ready: "lf_run x = L_Wait n \<Longrightarrow>
     run_loop x (x\<lparr>lf_client := close_conn n (lf_client x), lf_run := L_Ended\<rparr>)"
| ready: "lf_run x = L_Wait n \<Longrightarrow> run_loop x (x\<lparr>lf_run := L_Ready n\<rparr>)"
| set_conn: "lf_run x = L_Ready n \<Longrightarrow>
     run_loop x (x\<lparr>lf_client := setConn n (lf_client x), lf_run := L_Session n\<rparr>)"
| session_ends: "lf_run x = L_Session n \<Longrightarrow>
     run_loop x (x\<lparr>lf_client := close_conn n (clearConn n (lf_client x)), lf_run := L_Ended\<rparr>)"
| ended_ctx: "lf_run x = L_Ended \<Longrightarrow> lf_ctxErr x = Some e \<Longrightarrow> run_loop x (x\<lparr>lf_run := L_Returned (Some e)\<rparr>)"
| ended_closed: "lf_run x = L_Ended \<Longrightarrow> lf_ctxErr x = None \<Longrightarrow> isClosed (lf_client x) \<Longrightarrow>
     run_loop x (x\<lparr>lf_run := L_Returned None\<rparr>)"
| ended_retry: "lf_run x = L_Ended \<Longrightarrow> lf_ctxErr x = None \<Longrightarrow> \<not> isClosed (lf_client x) \<Longrightarrow>
     run_loop x (x\<lparr>lf_run := L_Backoff\<rparr>)"
| backoff_ctx: "lf_run x = L_Backoff \<Longrightarrow> lf_ctxErr x = Some e \<Longrightarrow> run_loop x (x\<lparr>lf_run := L_Returned (Some e)\<rparr>)"
| backoff_closed: "lf_run x = L_Backoff \<Longrightarrow> cl_closeCh (lf_client x) \<Longrightarrow> run_loop x (x\<lparr>lf_run := L_Returned None\<rparr>)"
| backoff_timer: "lf_run x = L_Backoff \<Longrightarrow> run_loop x (x\<lparr>lf_run := L_Dial\<rparr>)"

text \<open>A close of a closed channel is a run-time panic in Go; \<open>lf_panic\<close> records it.\<close>

inductive life_step :: "life \<Rightarrow> life \<Rightarrow> bool" where
  by_run: "run_loop x y \<Longrightarrow> life_step x y"
| close_call: "Close_locked (lf_client x) = (k, c) \<Longrightarrow>
     life_step x (x\<lparr>lf_client := c, lf_closers := lf_closers x @ [k]\<rparr>)"
| close_channel: "i < length (lf_closers x) \<Longrightarrow> lf_closers x ! i = K_Channel False conn \<Longrightarrow>
     life_step x (x\<lparr>lf_client := (lf_client x)\<lparr>cl_closeCh := True\<rparr>,
       lf_closers := (lf_closers x)[i := K_Conn conn], lf_panic := lf_panic x \<or> cl_closeCh (lf_client x)\<rparr>)"
| close_again: "i < length (lf_closers x) \<Longrightarrow> lf_closers x ! i = K_Channel True conn \<Longrightarrow>
     life_step x (x\<lparr>lf_closers := (lf_closers x)[i := K_Conn conn]\<rparr>)"
| close_found: "i < length (lf_closers x) \<Longrightarrow> lf_closers x ! i = K_Conn (Some n) \<Longrightarrow>
     life_step x (x\<lparr>lf_client := close_conn n (lf_client x), lf_closers := (lf_closers x)[i := K_Returned]\<rparr>)"
| close_none: "i < length (lf_closers x) \<Longrightarrow> lf_closers x ! i = K_Conn None \<Longrightarrow>
     life_step x (x\<lparr>lf_closers := (lf_closers x)[i := K_Returned]\<rparr>)"
| ctx_done: "lf_ctxErr x = None \<Longrightarrow> life_step x (x\<lparr>lf_ctxErr := Some e\<rparr>)"

definition life_start :: "Client \<Rightarrow> life" where
  "life_start c =
     \<lparr>lf_client = c, lf_run = L_Dial, lf_closers = [], lf_ctxErr = None, lf_nextConn = 0, lf_panic = False\<rparr>"

definition life_init :: "life \<Rightarrow> bool" where
  "life_init x \<longleftrightarrow> (\<exists>cfg c. client_New cfg = Inr c \<and> x = life_start c)"

text \<open>
  The callers of \<open>Close\<close> that still have to close the channel or a given connection.
\<close>

fun owes_channel :: "close_pc \<Rightarrow> bool" where
  "owes_channel (K_Channel again conn) \<longleftrightarrow> \<not> again"
| "owes_channel _ \<longleftrightarrow> False"

fun owes_conn :: "close_pc \<Rightarrow> nat option" where
  "owes_conn (K_Channel again conn) = conn"
| "owes_conn (K_Conn conn) = conn"
| "owes_conn K_Returned = None"

definition channel_ok :: "bool \<Rightarrow> bool \<Rightarrow> close_pc list \<Rightarrow> bool" where
  "channel_ok closed ch ks \<longleftrightarrow>
     length (filter owes_channel ks) + (if ch then 1 else 0) = (if closed then 1 else 0)"

definition conn_ok :: "Client \<Rightarrow> run_pc \<Rightarrow> close_pc list \<Rightarrow> bool" where
  "conn_ok c pc ks \<longleftrightarrow>
     (cl_closed c \<longrightarrow> cl_conn c = None) \<and>
     (\<forall>n. pc = L_Session n \<longrightarrow>
        cl_conn c = Some n \<or> n \<in> set (cl_closedConns c) \<or> (\<exists>k \<in> set ks. owes_conn k = Some n)) \<and>
     (\<forall>n. cl_conn c = Some n \<longrightarrow> pc = L_Session n)"

fun pc_conn :: "run_pc \<Rightarrow> nat option" where
  "pc_conn (L_Wait n) = Some n"
| "pc_conn (L_Ready n) = Some n"
| "pc_conn (L_Session n) = Some n"
| "pc_conn _ = None"

definition leak_free :: "Client \<Rightarrow> run_pc \<Rightarrow> nat \<Rightarrow> bool" where
  "leak_free c pc next \<longleftrightarrow> (\<forall>n < next. n \<in> set (cl_closedConns c) \<or> pc_conn pc = Some n)"

definition life_ok :: "life \<Rightarrow> bool" where
  "life_ok x \<longleftrightarrow>
     \<not> lf_panic x \<and> leak_free (lf_client x) (lf_run x) (lf_nextConn x) \<and> channel_ok (cl_closed (lf_client x)) (cl_closeCh (lf_client x)) (lf_closers x) \<and>
     conn_ok (lf_client x) (lf_run x) (lf_closers x)"

subsection \<open>The invariant\<close>

lemma filter_update_length:
  "i < length ks \<Longrightarrow> length (filter P (ks[i := k])) + (if P (ks ! i) then 1 else 0) =
     length (filter P ks) + (if P k then 1 else 0)"
proof (induction ks arbitrary: i)
  case (Cons a ks)
  show ?case
  proof (cases i)
    case (Suc j)
    then show ?thesis using Cons.IH [of j] Cons.prems by simp
  qed simp
qed simp

lemma owes_update:
  assumes "\<exists>k' \<in> set ks. owes_conn k' = Some m" "i < length ks"
  shows "owes_conn (ks ! i) = Some m \<or> (\<exists>k' \<in> set (ks[i := k]). owes_conn k' = Some m)"
proof -
  from assms(1) obtain j where j: "j < length ks" "owes_conn (ks ! j) = Some m" by (metis in_set_conv_nth)
  show ?thesis
  proof (cases "i = j")
    case False
    then have "ks[i := k] ! j = ks ! j" by simp
    moreover have "ks[i := k] ! j \<in> set (ks[i := k])" using j(1) by (intro nth_mem) simp
    ultimately show ?thesis using j(2) by metis
  qed (use j in simp)
qed

lemma owes_here: "i < length ks \<Longrightarrow> owes_conn k = Some m \<Longrightarrow> \<exists>k' \<in> set (ks[i := k]). owes_conn k' = Some m"
  using set_update_memI by metis

lemma conn_ok_move:
  assumes "conn_ok c pc ks" "i < length ks" "owes_conn k = owes_conn (ks ! i)"
  shows "conn_ok c pc (ks[i := k])"
  using assms owes_update [OF _ assms(2)] owes_here [OF assms(2)] unfolding conn_ok_def by metis

lemma conn_ok_closed:
  assumes "conn_ok c pc ks" "i < length ks" "owes_conn (ks ! i) = Some n"
  shows "conn_ok (close_conn n c) pc (ks[i := K_Returned])"
proof -
  have "m = n \<or> (\<exists>k' \<in> set (ks[i := K_Returned]). owes_conn k' = Some m)"
    if "\<exists>k' \<in> set ks. owes_conn k' = Some m" for m
    using owes_update [OF that assms(2)] assms(3) by (metis option.inject)
  with assms(1) show ?thesis unfolding conn_ok_def close_conn_def by simp metis
qed

lemma conn_ok_idle [simp]:
  "conn_ok c L_Dial ks \<longleftrightarrow> cl_conn c = None" "conn_ok c (L_Wait n) ks \<longleftrightarrow> cl_conn c = None"
  "conn_ok c (L_Ready n) ks \<longleftrightarrow> cl_conn c = None" "conn_ok c L_Ended ks \<longleftrightarrow> cl_conn c = None"
  "conn_ok c L_Backoff ks \<longleftrightarrow> cl_conn c = None" "conn_ok c (L_Returned e) ks \<longleftrightarrow> cl_conn c = None"
  by (auto simp: conn_ok_def)

lemma conn_ok_set: "conn_ok c (L_Ready n) ks \<Longrightarrow> conn_ok (setConn n c) (L_Session n) ks"
  by (simp add: conn_ok_def setConn_def close_conn_def)

lemma conn_ok_end: "conn_ok c (L_Session n) ks \<Longrightarrow> conn_ok (close_conn n (clearConn n c)) L_Ended ks"
  by (cases "cl_conn c") (auto simp: conn_ok_def clearConn_def close_conn_def)

lemma client_marks [simp]:
  "cl_closed (setConn n c) = cl_closed c" "cl_closeCh (setConn n c) = cl_closeCh c"
  "cl_closed (clearConn n c) = cl_closed c" "cl_closeCh (clearConn n c) = cl_closeCh c"
  "cl_closed (close_conn n c) = cl_closed c" "cl_closeCh (close_conn n c) = cl_closeCh c"
  "cl_conn (close_conn n c) = cl_conn c" "cl_closedConns (clearConn n c) = cl_closedConns c"
  "cl_closedConns (close_conn n c) = n # cl_closedConns c"
  by (simp_all add: setConn_def clearConn_def close_conn_def)

lemma setConn_closedConns: "set (cl_closedConns c) \<subseteq> set (cl_closedConns (setConn n c))"
  by (auto simp: setConn_def)

lemma leak_free_mono:
  "leak_free c pc n \<Longrightarrow> set (cl_closedConns c) \<subseteq> set (cl_closedConns c') \<Longrightarrow> pc_conn pc = pc_conn pc' \<Longrightarrow>
     leak_free c' pc' n"
  unfolding leak_free_def by auto

lemma leak_free_close: "leak_free c pc m \<Longrightarrow> pc_conn pc = Some n \<Longrightarrow> pc_conn pc' = None \<Longrightarrow>
     cl_closedConns c' = n # cl_closedConns c \<Longrightarrow> leak_free c' pc' m"
  unfolding leak_free_def by auto

lemma leak_free_dial: "leak_free c pc n \<Longrightarrow> pc_conn pc = None \<Longrightarrow> leak_free c (L_Wait n) (Suc n)"
  unfolding leak_free_def by (auto simp: less_Suc_eq)

lemma life_ok_run:
  assumes ok: "life_ok x" and step: "run_loop x y"
  shows "life_ok y"
  using step
proof cases
  case dial_conn
  then show ?thesis using ok leak_free_dial [of "lf_client x" L_Dial] by (simp add: life_ok_def)
next
  case (not_ready n)
  then show ?thesis
    using ok leak_free_close [of "lf_client x" "L_Wait n" _ n L_Ended] by (simp add: life_ok_def)
next
  case (set_conn n)
  then show ?thesis
    using ok conn_ok_set [of _ n] leak_free_mono [OF _ setConn_closedConns, of _ "L_Ready n" _ "L_Session n"]
    by (simp add: life_ok_def)
next
  case (session_ends n)
  then show ?thesis
    using ok conn_ok_end [of "lf_client x" n "lf_closers x"] leak_free_close [of "lf_client x" "L_Session n" _ n L_Ended]
    by (simp add: life_ok_def)
qed (use ok in \<open>auto simp: life_ok_def elim: leak_free_mono\<close>)

lemma conn_ok_call:
  "conn_ok c pc ks \<Longrightarrow> conn_ok (c\<lparr>cl_closed := True, cl_conn := None\<rparr>) pc (ks @ [K_Channel again (cl_conn c)])"
  by (auto simp: conn_ok_def)

lemma conn_ok_closeCh [simp]: "conn_ok (c\<lparr>cl_closeCh := b\<rparr>) pc ks \<longleftrightarrow> conn_ok c pc ks"
  by (simp add: conn_ok_def)

lemma channel_ok_call:
  "channel_ok closed ch ks \<Longrightarrow> channel_ok True ch (ks @ [K_Channel closed conn])"
  by (cases closed) (auto simp: channel_ok_def)

lemma channel_ok_move:
  assumes "channel_ok closed ch ks" "i < length ks" "owes_channel (ks ! i) = owes_channel k"
  shows "channel_ok closed ch (ks[i := k])"
  using assms filter_update_length [OF assms(2), of owes_channel k] by (simp add: channel_ok_def)

lemma channel_ok_paid:
  assumes "channel_ok closed ch ks" "i < length ks" "owes_channel (ks ! i)" "\<not> owes_channel k"
  shows "\<not> ch" "channel_ok closed True (ks[i := k])"
proof -
  from assms(2,3) have "filter owes_channel ks \<noteq> []" by (metis empty_filter_conv nth_mem)
  then have "0 < length (filter owes_channel ks)" by simp
  with assms filter_update_length [OF assms(2), of owes_channel k]
  show "\<not> ch" "channel_ok closed True (ks[i := k])" by (auto simp: channel_ok_def split: if_splits)
qed

lemma life_ok_step:
  assumes ok: "life_ok x" and step: "life_step x y"
  shows "life_ok y"
  using step
proof cases
  case by_run
  then show ?thesis using ok life_ok_run by blast
next
  case (close_call k c)
  then show ?thesis using ok by (auto simp: life_ok_def Close_locked_def leak_free_def conn_ok_call channel_ok_call)
next
  case (close_channel i conn)
  then have "owes_channel (lf_closers x ! i)" "\<not> owes_channel (K_Conn conn)"
    "owes_conn (K_Conn conn) = owes_conn (lf_closers x ! i)" by simp_all
  with close_channel ok show ?thesis
    using channel_ok_paid [of _ _ "lf_closers x" i "K_Conn conn"] by (auto simp: life_ok_def leak_free_def conn_ok_move)
next
  case (close_again i conn)
  then show ?thesis using ok by (simp add: life_ok_def conn_ok_move channel_ok_move)
next
  case (close_found i n)
  then show ?thesis using ok by (auto simp: life_ok_def leak_free_def conn_ok_closed channel_ok_move)
next
  case (close_none i)
  then show ?thesis using ok by (simp add: life_ok_def conn_ok_move channel_ok_move)
next
  case (ctx_done e)
  then show ?thesis using ok by (simp add: life_ok_def)
qed

lemma client_New_fresh:
  "client_New cfg = Inr c \<Longrightarrow>
     \<not> cl_closed c \<and> cl_conn c = None \<and> \<not> cl_closeCh c \<and> cl_closedConns c = [] \<and>
     0 < cc_ReconnectBackoff (cl_cfg c) \<and> 0 < cc_DialTimeout (cl_cfg c)"
  by (auto simp: client_New_def positive_or_def split: if_splits)

text \<open>A client never waits for ever for a connection, and sends its token in the clear only when told to.\<close>

lemma dial_bounded:
  assumes "client_New cfg = Inr c"
  shows "now < dial_deadline now c" "dial_credentials c = InsecureCredentials \<longleftrightarrow> cc_Insecure cfg"
proof -
  show "now < dial_deadline now c" using client_New_fresh [OF assms] by (simp add: dial_deadline_def)
  show "dial_credentials c = InsecureCredentials \<longleftrightarrow> cc_Insecure cfg"
    using assms by (auto simp: client_New_def dial_credentials_def split: if_splits)
qed

definition returns_ok :: "life \<Rightarrow> bool" where
  "returns_ok x \<longleftrightarrow>
     (\<forall>e. lf_run x = L_Returned e \<longrightarrow>
        (case e of None \<Rightarrow> cl_closed (lf_client x) | Some _ \<Rightarrow> lf_ctxErr x = e))"

definition life_inv :: "life \<Rightarrow> bool" where
  "life_inv x \<longleftrightarrow> life_ok x \<and> returns_ok x"

lemma closeCh_closed: "life_ok x \<Longrightarrow> cl_closeCh (lf_client x) \<Longrightarrow> cl_closed (lf_client x)"
  by (auto simp: life_ok_def channel_ok_def split: if_splits)

lemma returns_ok_run:
  assumes "life_ok x" "run_loop x y"
  shows "returns_ok y"
  using assms(2,1) by cases (auto simp: returns_ok_def isClosed_def closeCh_closed)

lemma life_inv_step:
  assumes "life_inv x" "life_step x y"
  shows "life_inv y"
proof -
  have "returns_ok y" using assms(2)
  proof cases
    case by_run
    then show ?thesis using assms(1) returns_ok_run unfolding life_inv_def by blast
  qed (use assms(1) in \<open>auto simp: life_inv_def returns_ok_def Close_locked_def split: option.splits\<close>)
  then show ?thesis using assms life_ok_step unfolding life_inv_def by blast
qed

interpretation life: invariant_system life_init life_step life_inv
proof
  fix x
  assume "life_init x"
  then obtain cfg c where "client_New cfg = Inr c" "x = life_start c" by (auto simp: life_init_def)
  with client_New_fresh show "life_inv x"
    by (auto simp: life_inv_def returns_ok_def life_start_def life_ok_def leak_free_def channel_ok_def)
qed (rule life_inv_step)

subsection \<open>The reconnect loop ends once the client is closed\<close>

fun run_weight :: "run_pc \<Rightarrow> nat" where
  "run_weight L_Backoff = 6"
| "run_weight L_Dial = 5"
| "run_weight (L_Wait n) = 4"
| "run_weight (L_Ready n) = 3"
| "run_weight (L_Session n) = 2"
| "run_weight L_Ended = 1"
| "run_weight (L_Returned e) = 0"

interpretation closing: terminating_system "\<lambda>x. cl_closed (lf_client x)" run_loop "\<lambda>x. cl_closed (lf_client x)"
  "\<lambda>x. \<exists>e. lf_run x = L_Returned e" "\<lambda>x. run_weight (lf_run x)"
proof
  show "cl_closed (lf_client y)" if "cl_closed (lf_client x)" "run_loop x y" for x y
    using that(2,1) by cases auto
  show "\<exists>y. run_loop x y" if "\<not> (\<exists>e. lf_run x = L_Returned e)" for x
  proof (cases "lf_run x")
    case L_Ended
    then show ?thesis by (cases "lf_ctxErr x"; cases "isClosed (lf_client x)") (blast intro: run_loop.intros)+
  qed (use that in \<open>blast intro: run_loop.intros\<close>)+
  show "run_weight (lf_run y) < run_weight (lf_run x)" if "cl_closed (lf_client x)" "run_loop x y" for x y
    using that(2,1) by cases (auto simp: isClosed_def)
qed

subsection \<open>What the client promises\<close>

lemma client_lifecycle_parts:
  assumes "reachable life_init life_step x"
  shows "\<not> lf_panic x"
    and "cl_closed (lf_client x) \<Longrightarrow> cl_conn (lf_client x) = None"
    and "cl_closed (lf_client x) \<Longrightarrow> lf_run x = L_Session n \<Longrightarrow> set (lf_closers x) \<subseteq> {K_Returned} \<Longrightarrow>
           n \<in> set (cl_closedConns (lf_client x))"
    and "lf_run x = L_Returned e \<Longrightarrow> (case e of None \<Rightarrow> cl_closed (lf_client x) | Some _ \<Rightarrow> lf_ctxErr x = e)"
    and "lf_run x = L_Returned e \<Longrightarrow> n < lf_nextConn x \<Longrightarrow> n \<in> set (cl_closedConns (lf_client x))"
proof -
  from assms have ok: "life_ok x" "returns_ok x" using life.reachable_inv by (auto simp: life_inv_def)
  then show "\<not> lf_panic x" by (simp add: life_ok_def)
  show none: "cl_conn (lf_client x) = None" if "cl_closed (lf_client x)"
    using ok(1) that by (simp add: life_ok_def conn_ok_def)
  show "n \<in> set (cl_closedConns (lf_client x))"
    if "cl_closed (lf_client x)" "lf_run x = L_Session n" "set (lf_closers x) \<subseteq> {K_Returned}"
  proof -
    have "\<not> (\<exists>k \<in> set (lf_closers x). owes_conn k = Some n)" using that(3) by auto
    then show ?thesis using ok(1) none that by (simp add: life_ok_def conn_ok_def)
  qed
  show "case e of None \<Rightarrow> cl_closed (lf_client x) | Some _ \<Rightarrow> lf_ctxErr x = e" if "lf_run x = L_Returned e"
    using ok(2) that by (simp add: returns_ok_def)
  show "n \<in> set (cl_closedConns (lf_client x))" if "lf_run x = L_Returned e" "n < lf_nextConn x"
    using ok(1) that by (auto simp: life_ok_def leak_free_def)
qed

text \<open>
  C33: \<open>Close\<close> is safe and reaches the session.  In every interleaving of \<open>Run\<close> with any number of
  calls of \<open>Close\<close>, the channel \<open>closeCh\<close> is never closed twice; a closed client stores no connection;
  once all calls of \<open>Close\<close> have returned, the connection of a session still running has been closed,
  even if the session came up while \<open>Close\<close> was running; \<open>Run\<close> returns nil only on a closed client and
  otherwise the error of its context; and when it has returned, every connection it opened is closed.
\<close>
theorem client_lifecycle:
  assumes "reachable life_init life_step x"
  shows "\<not> lf_panic x \<and> (cl_closed (lf_client x) \<longrightarrow> cl_conn (lf_client x) = None) \<and>
    (\<forall>n. cl_closed (lf_client x) \<and> lf_run x = L_Session n \<and> set (lf_closers x) \<subseteq> {K_Returned} \<longrightarrow>
       n \<in> set (cl_closedConns (lf_client x))) \<and>
    (\<forall>e. lf_run x = L_Returned e \<longrightarrow>
       (case e of None \<Rightarrow> cl_closed (lf_client x) | Some _ \<Rightarrow> lf_ctxErr x = e) \<and>
       (\<forall>n < lf_nextConn x. n \<in> set (cl_closedConns (lf_client x))))"
  using client_lifecycle_parts [OF assms] by blast

definition demo_client_Config :: client_Config where
  "demo_client_Config =
     \<lparr>cc_EdgeAddr = ''edge.example.com:443'', cc_TunnelID = ''demo'', cc_Token = ''secret'', cc_Handler = True,
      cc_Insecure = False, cc_Debug = False, cc_ReconnectBackoff = 0, cc_DialTimeout = 0\<rparr>"

definition demo_client :: Client where
  "demo_client =
     \<lparr>cl_cfg = demo_client_Config\<lparr>cc_ReconnectBackoff := 2000000000, cc_DialTimeout := 10000000000\<rparr>,
      cl_closed = False, cl_conn = None, cl_closeCh = False, cl_closedConns = []\<rparr>"

lemma demo_client_New: "client_New demo_client_Config = Inr demo_client"
  by (simp add: client_New_def demo_client_Config_def demo_client_def positive_or_def)

definition demo_life :: life where
  "demo_life =
     \<lparr>lf_client = demo_client\<lparr>cl_closed := True, cl_conn := None, cl_closeCh := True, cl_closedConns := [0]\<rparr>,
      lf_run = L_Session 0, lf_closers = [K_Returned], lf_ctxErr = None, lf_nextConn = 1, lf_panic = False\<rparr>"

lemma life_go: "reachable life_init life_step x \<Longrightarrow> life_step x y \<Longrightarrow> reachable life_init life_step y"
  by (rule reach_step)

lemma life_run: "reachable life_init life_step x \<Longrightarrow> run_loop x y \<Longrightarrow> reachable life_init life_step y"
  by (rule life_go) (auto intro: life_step.by_run)

lemma demo_life_reachable: "reachable life_init life_step demo_life"
proof -
  have 0: "reachable life_init life_step (life_start demo_client)"
    by (rule reach_init) (use demo_client_New in \<open>auto simp: life_init_def\<close>)
  note 1 = life_run [OF 0 run_loop.dial_conn, unfolded life_start_def, simplified]
  note 2 = life_run [OF 1 run_loop.ready, simplified]
  note 3 = life_run [OF 2 run_loop.set_conn, simplified setConn_def demo_client_def, simplified]
  note 4 = life_go [OF 3 life_step.close_call [OF Close_locked_def], simplified]
  note 5 = life_go [OF 4 life_step.close_channel [of 0], simplified]
  note 6 = life_go [OF 5 life_step.close_found [of 0], simplified]
  then show ?thesis by (simp add: demo_life_def demo_client_def setConn_def close_conn_def)
qed

theorem client_lifecycle_witness:
  "\<not> lf_panic demo_life \<and> (0::nat) \<in> set (cl_closedConns (lf_client demo_life))"
  using client_lifecycle [OF demo_life_reachable] by (simp add: demo_life_def)

lemma run_ends_after_close_parts:
  assumes "cl_closed (lf_client x)" "(run_loop ^^ n) x y"
  shows "n \<le> 6" and "\<exists>z e. run_loop\<^sup>*\<^sup>* y z \<and> lf_run z = L_Returned e"
    and "\<nexists>z. run_loop y z \<Longrightarrow> \<exists>e. lf_run y = L_Returned e"
proof -
  have "run_weight (lf_run x) \<le> 6" by (cases "lf_run x") auto
  with closing.run_bound [OF assms(2,1)] show "n \<le> 6" by simp
  have "run_loop\<^sup>*\<^sup>* x y" using assms(2) by (rule relpowp_imp_rtranclp)
  then have "cl_closed (lf_client y)" using assms(1) closing.steps_inv by blast
  then show "\<exists>z e. run_loop\<^sup>*\<^sup>* y z \<and> lf_run z = L_Returned e" using closing.ends_final by blast
  show "\<exists>e. lf_run y = L_Returned e" if "\<nexists>z. run_loop y z"
    using closing.progress [OF \<open>cl_closed (lf_client y)\<close>] that by blast
qed



end
