(* ===== verification/ClientSession.thy ===== *)
theory ClientSession
  imports ClientLifecycle
begin

text \<open>
  The session of a tunnel client: the receive loop of \<open>runSession\<close> (\<open>tunnel/client.go\<close>) with the
  tables it keeps, the goroutines of \<open>serveRequest\<close> that it starts, and the clean-up when it returns.
  Request bodies travel through an \<open>io.Pipe\<close>, WebSocket payloads through a channel of 16 slots.

  The stream is the parameter \<open>F\<close> of the theory of the response writer; the parameter \<open>N\<close> says
  whether \<open>http.NewRequestWithContext\<close> refuses a method and a URL, and with which text.
\<close>

subsection \<open>\<open>io.Pipe\<close>\<close>

definition ErrClosedPipe :: go_error where
  "ErrClosedPipe = ErrNew ''io: read/write on closed pipe''"

definition errSessionEnded :: go_error where
  "errSessionEnded = ErrNew ''tunnel session ended''"

text \<open>
  A pipe: the errors its two ends were closed with and the rest of the slice a blocked \<open>Write\<close> hands
  over.  Two histories go with it: the chunks that \<open>Write\<close> was entered with on an open pipe, and the
  bytes read so far.
\<close>

record pipe =
  p_rerr :: "go_error option"
  p_werr :: "go_error option"
  p_pending :: "bytes option"
  p_fed :: "bytes list"
  p_got :: bytes

definition io_Pipe :: pipe where
  "io_Pipe = \<lparr>p_rerr = None, p_werr = None, p_pending = None, p_fed = [], p_got = []\<rparr>"

definition pipe_done :: "pipe \<Rightarrow> bool" where
  "pipe_done p \<longleftrightarrow> p_rerr p \<noteq> None \<or> p_werr p \<noteq> None"

definition readCloseError :: "pipe \<Rightarrow> go_error" where
  "readCloseError p = (case (p_rerr p, p_werr p) of (None, Some e) \<Rightarrow> e | _ \<Rightarrow> ErrClosedPipe)"

definition closeRead :: "go_error option \<Rightarrow> pipe \<Rightarrow> pipe" where
  "closeRead err p =
     (if p_rerr p = None then p\<lparr>p_rerr := Some (case err of None \<Rightarrow> ErrClosedPipe | Some e \<Rightarrow> e)\<rparr> else p)"

definition closeWrite :: "go_error option \<Rightarrow> pipe \<Rightarrow> pipe" where
  "closeWrite err p =
     (if p_werr p = None then p\<lparr>p_werr := Some (case err of None \<Rightarrow> ErrEOF | Some e \<Rightarrow> e)\<rparr> else p)"

definition pipe_write :: "bytes \<Rightarrow> pipe \<Rightarrow> pipe" where
  "pipe_write b p = (if pipe_done p then p else p\<lparr>p_pending := Some b, p_fed := p_fed p @ [b]\<rparr>)"

text \<open>A read into a buffer of \<open>n\<close> bytes: \<^term>\<open>None\<close> while it blocks, otherwise an error or bytes.\<close>

definition pipe_read :: "nat \<Rightarrow> pipe \<Rightarrow> ((go_error + bytes) \<times> pipe) option" where
  "pipe_read n p =
     (if pipe_done p then Some (Inl (readCloseError p), p)
      else
        case p_pending p of
          None \<Rightarrow> None
        | Some b \<Rightarrow>
            Some (Inr (take n b),
              p\<lparr>p_pending := (if drop n b = [] then None else Some (drop n b)), p_got := p_got p @ take n b\<rparr>))"

subsection \<open>The request a handler gets\<close>

definition isWebSocketUpgrade :: "go_unicode \<Rightarrow> RequestStart \<Rightarrow> bool" where
  "isWebSocketUpgrade U start \<longleftrightarrow>
     list_ex (\<lambda>h. case h of
         None \<Rightarrow> False
       | Some kv \<Rightarrow> equal_fold U (Header_Key kv) ''Upgrade'' \<and>
           list_ex (\<lambda>v. equal_fold U v ''websocket'') (Header_Values kv))
       (RequestStart_Headers start)"

definition upper_hex :: "nat \<Rightarrow> char" where
  "upper_hex n = ''0123456789ABCDEF'' ! n"

definition alnum :: "char \<Rightarrow> bool" where
  "alnum c \<longleftrightarrow> (let n = byte_val c in 48 \<le> n \<and> n \<le> 57 \<or> 65 \<le> n \<and> n \<le> 90 \<or> 97 \<le> n \<and> n \<le> 122)"

text \<open>\<open>net/url\<close>: the bytes kept as they are in a path and in a host, and the escape of the others.\<close>

definition keep_in_path :: "char \<Rightarrow> bool" where
  "keep_in_path c \<longleftrightarrow> alnum c \<or> c \<in> set ''-_.~$&+,/:;=@''"

definition keep_in_host :: "char \<Rightarrow> bool" where
  "keep_in_host c \<longleftrightarrow> alnum c \<or> c \<in> set ''-_.~!$&()*+,;=:[]<>'' \<or> byte_val c = 34 \<or> byte_val c = 39"

definition url_escape :: "(char \<Rightarrow> bool) \<Rightarrow> string \<Rightarrow> string" where
  "url_escape keep s =
     concat (map (\<lambda>c. if keep c then [c] else [CHR ''%'', upper_hex (byte_val c div 16), upper_hex (byte_val c mod 16)]) s)"

definition unhex :: "char \<Rightarrow> nat option" where
  "unhex c =
     (let n = byte_val c in
      if 48 \<le> n \<and> n \<le> 57 then Some (n - 48)
      else if 97 \<le> n \<and> n \<le> 102 then Some (n - 87)
      else if 65 \<le> n \<and> n \<le> 70 then Some (n - 55)
      else None)"

fun path_unescape :: "string \<Rightarrow> string option" where
  "path_unescape [] = Some []"
| "path_unescape (c # cs) =
     (if c = CHR ''%'' then
        (case cs of
           a # b # rest \<Rightarrow>
             (case (unhex a, unhex b) of
                (Some x, Some y) \<Rightarrow> map_option (Cons (char_of (16 * x + y))) (path_unescape rest)
              | _ \<Rightarrow> None)
         | _ \<Rightarrow> None)
      else map_option (Cons c) (path_unescape cs))"

definition valid_encoded :: "string \<Rightarrow> bool" where
  "valid_encoded s = list_all (\<lambda>c. keep_in_path c \<or> c \<in> set ''!()*[]%'' \<or> byte_val c = 39) s"

definition EscapedPath :: "string \<Rightarrow> string \<Rightarrow> string" where
  "EscapedPath path rawPath =
     (if rawPath \<noteq> [] \<and> valid_encoded rawPath \<and> path_unescape rawPath = Some path then rawPath
      else if path = ''*'' then ''*''
      else url_escape keep_in_path path)"

text \<open>\<open>URL.String\<close> for a URL with these five fields; \<open>requestURL\<close> never leaves the path empty.\<close>

definition url_String :: "string \<Rightarrow> string \<Rightarrow> string \<Rightarrow> string \<Rightarrow> string \<Rightarrow> string" where
  "url_String scheme host path rawPath rawQuery =
     (let pre = (if scheme \<noteq> [] then scheme @ '':'' else []) @
                (if scheme \<noteq> [] \<or> host \<noteq> [] then
                   (if host \<noteq> [] \<or> path \<noteq> [] then ''//'' else []) @ url_escape keep_in_host host
                 else []);
          p = EscapedPath path rawPath;
          pre1 = pre @ (if p \<noteq> [] \<and> hd p \<noteq> CHR ''/'' \<and> host \<noteq> [] then ''/'' else []);
          pre2 = (if pre1 = [] \<and> CHR '':'' \<in> set (takeWhile (\<lambda>c. c \<noteq> CHR ''/'') p) then ''./'' else pre1)
      in pre2 @ p @ (if rawQuery \<noteq> [] then ''?'' @ rawQuery else []))"

definition requestURL :: "RequestStart \<Rightarrow> string" where
  "requestURL start =
     (let path = (if RequestStart_Path start = [] then ''/'' else RequestStart_Path start) in
      url_String (RequestStart_Scheme start) (RequestStart_Host start) path (RequestStart_RawPath start)
        (RequestStart_RawQuery start))"

record client_request =
  q_Method :: string
  q_URL :: string
  q_Header :: http_header
  q_Host :: string
  q_RemoteAddr :: string

definition new_request :: "go_unicode \<Rightarrow> RequestStart \<Rightarrow> client_request" where
  "new_request U start =
     \<lparr>q_Method = RequestStart_Method start, q_URL = requestURL start,
      q_Header = FromProto U (RequestStart_Headers start), q_Host = RequestStart_Host start,
      q_RemoteAddr = RequestStart_RemoteAddr start\<rparr>"

subsection \<open>The state of a session\<close>

text \<open>
  An \<open>inflightRequest\<close>: whether its context was cancelled, and the pipe with both ends.  A WebSocket
  channel: its buffer and whether it was closed; the request it was made for and the payloads taken from
  it are history.  Both live in a heap and the tables map request ids to addresses.
\<close>

record inflightRequest =
  ir_cancelled :: bool
  ir_body :: pipe

record inbound_chan =
  ic_chan :: "bytes chan"
  ic_closed :: bool
  ic_owner :: string
  ic_taken :: "bytes list"

text \<open>
  The receive loop: at \<open>stream.Recv\<close>, in the \<open>Write\<close> of a request body, in the select of
  \<open>dispatchWSInbound\<close>, before the deferred clean-up, and returned.
\<close>

datatype dispatch_pc =
    D_Recv
  | D_Write nat
  | D_Inbound nat bytes
  | D_Cleanup "go_error option"
  | D_Returned "go_error option"

text \<open>
  The goroutines: \<open>serveRequest\<close> while its handler runs and at each of its deferred calls, and
  \<open>handleWebSocket\<close> before and after the upgrade and at its deferred \<open>done\<close>.
\<close>

datatype task =
    G_Handler string nat client_request tunnelResponseWriter
  | G_CloseBody string nat
  | G_CancelCtx string nat
  | G_DeleteRequest string
  | G_Upgrade string nat RequestStart
  | G_Pump string nat
  | G_DeleteWS string
  | G_Gone string

fun task_rid :: "task \<Rightarrow> string" where
  "task_rid (G_Handler rid a q w) = rid"
| "task_rid (G_CloseBody rid a) = rid"
| "task_rid (G_CancelCtx rid a) = rid"
| "task_rid (G_DeleteRequest rid) = rid"
| "task_rid (G_Upgrade rid ch st) = rid"
| "task_rid (G_Pump rid ch) = rid"
| "task_rid (G_DeleteWS rid) = rid"
| "task_rid (G_Gone rid) = rid"

text \<open>\<open>cs_received\<close> is the history of the frames that \<open>stream.Recv\<close> returned.\<close>

record client_session =
  cs_pc :: dispatch_pc
  cs_received :: "ServerFrame list"
  cs_inflight :: "(string, nat) gomap"
  cs_reqs :: "inflightRequest list"
  cs_wsInbound :: "(string, nat) gomap"
  cs_chans :: "inbound_chan list"
  cs_sent :: sent
  cs_tasks :: "task list"
  cs_ctxErr :: "go_error option"
  cs_panic :: bool

definition runSession_open :: "stream \<Rightarrow> client_Config \<Rightarrow> go_error + client_session" where
  "runSession_open F cfg =
     (case send F (ClientFrame_Register
         \<lparr>Register_TunnelId = cc_TunnelID cfg, Register_Token = cc_Token cfg\<rparr>) [] of
        (Some e, l) \<Rightarrow> Inl e
      | (None, l) \<Rightarrow> Inr
          \<lparr>cs_pc = D_Recv, cs_received = [], cs_inflight = [], cs_reqs = [], cs_wsInbound = [], cs_chans = [],
           cs_sent = l, cs_tasks = [], cs_ctxErr = None, cs_panic = False\<rparr>)"

subsection \<open>Its operations\<close>

definition getRequest :: "string \<Rightarrow> client_session \<Rightarrow> nat option" where
  "getRequest rid s = map_get (cs_inflight s) rid"

definition putRequest :: "string \<Rightarrow> nat \<Rightarrow> client_session \<Rightarrow> client_session" where
  "putRequest rid a s = s\<lparr>cs_inflight := map_put rid a (cs_inflight s)\<rparr>"

definition deleteRequest :: "string \<Rightarrow> client_session \<Rightarrow> client_session" where
  "deleteRequest rid s = s\<lparr>cs_inflight := map_del rid (cs_inflight s)\<rparr>"

definition getWSInbound :: "string \<Rightarrow> client_session \<Rightarrow> nat option" where
  "getWSInbound rid s = map_get (cs_wsInbound s) rid"

definition putWSInbound :: "string \<Rightarrow> nat \<Rightarrow> client_session \<Rightarrow> client_session" where
  "putWSInbound rid ch s = s\<lparr>cs_wsInbound := map_put rid ch (cs_wsInbound s)\<rparr>"

definition deleteWSInbound :: "string \<Rightarrow> client_session \<Rightarrow> client_session" where
  "deleteWSInbound rid s = s\<lparr>cs_wsInbound := map_del rid (cs_wsInbound s)\<rparr>"

definition upd_req :: "nat \<Rightarrow> (inflightRequest \<Rightarrow> inflightRequest) \<Rightarrow> client_session \<Rightarrow> client_session" where
  "upd_req a f s = s\<lparr>cs_reqs := (cs_reqs s)[a := f (cs_reqs s ! a)]\<rparr>"

definition upd_pipe :: "nat \<Rightarrow> (pipe \<Rightarrow> pipe) \<Rightarrow> client_session \<Rightarrow> client_session" where
  "upd_pipe a f = upd_req a (\<lambda>q. q\<lparr>ir_body := f (ir_body q)\<rparr>)"

definition cancel_ctx :: "nat \<Rightarrow> client_session \<Rightarrow> client_session" where
  "cancel_ctx a = upd_req a (\<lambda>q. q\<lparr>ir_cancelled := True\<rparr>)"

text \<open>Closing a closed channel, or sending on one, is a run-time panic in Go.\<close>

definition close_chan :: "nat \<Rightarrow> client_session \<Rightarrow> client_session" where
  "close_chan ch s =
     (if ic_closed (cs_chans s ! ch) then s\<lparr>cs_panic := True\<rparr>
      else s\<lparr>cs_chans := (cs_chans s)[ch := (cs_chans s ! ch)\<lparr>ic_closed := True\<rparr>]\<rparr>)"

definition send_chan :: "nat \<Rightarrow> bytes \<Rightarrow> client_session \<Rightarrow> client_session" where
  "send_chan ch b s =
     (if ic_closed (cs_chans s ! ch) then s\<lparr>cs_panic := True\<rparr>
      else s\<lparr>cs_chans := (cs_chans s)[ch := (cs_chans s ! ch)\<lparr>ic_chan := chan_send b (ic_chan (cs_chans s ! ch))\<rparr>]\<rparr>)"

definition session_send :: "stream \<Rightarrow> ClientFrame_Msg \<Rightarrow> client_session \<Rightarrow> go_error option \<times> client_session" where
  "session_send F f s = (case send F f (cs_sent s) of (err, l) \<Rightarrow> (err, s\<lparr>cs_sent := l\<rparr>))"

definition spawn :: "task \<Rightarrow> client_session \<Rightarrow> client_session" where
  "spawn g s = s\<lparr>cs_tasks := cs_tasks s @ [g]\<rparr>"

definition start_request ::
  "go_unicode \<Rightarrow> stream \<Rightarrow> (string \<Rightarrow> string \<Rightarrow> string option) \<Rightarrow> RequestStart \<Rightarrow> client_session \<Rightarrow> client_session" where
  "start_request U F N start s =
     (let rid = RequestStart_RequestId start in
      if isWebSocketUpgrade U start then
        let ch = length (cs_chans s);
            s1 = s\<lparr>cs_chans := cs_chans s @ [\<lparr>ic_chan = chan_make 16, ic_closed = False, ic_owner = rid, ic_taken = []\<rparr>]\<rparr>
        in spawn (G_Upgrade rid ch start) (putWSInbound rid ch s1)
      else
        case N (RequestStart_Method start) (requestURL start) of
          Some m \<Rightarrow> snd (session_send F (response_error rid m) s)
        | None \<Rightarrow>
            let a = length (cs_reqs s);
                s1 = s\<lparr>cs_reqs := cs_reqs s @ [\<lparr>ir_cancelled = False, ir_body = io_Pipe\<rparr>]\<rparr>
            in spawn (G_Handler rid a (new_request U start) (newTunnelResponseWriter rid)) (putRequest rid a s1))"

text \<open>One turn of the receive loop, up to the point where it may block.\<close>

definition dispatch ::
  "go_unicode \<Rightarrow> stream \<Rightarrow> (string \<Rightarrow> string \<Rightarrow> string option) \<Rightarrow> ServerFrame \<Rightarrow> client_session \<Rightarrow> client_session" where
  "dispatch U F N frame s =
     (case frame of
        None \<Rightarrow> s
      | Some (ServerFrame_RequestStart start) \<Rightarrow> start_request U F N start s
      | Some (ServerFrame_RequestBody b) \<Rightarrow>
          (case getRequest (RequestBody_RequestId b) s of
             None \<Rightarrow> s
           | Some a \<Rightarrow> (upd_pipe a (pipe_write (RequestBody_Chunk b)) s)\<lparr>cs_pc := D_Write a\<rparr>)
      | Some (ServerFrame_RequestEnd e) \<Rightarrow>
          (case getRequest (RequestEnd_RequestId e) s of
             None \<Rightarrow> s
           | Some a \<Rightarrow> upd_pipe a (closeWrite None) s)
      | Some (ServerFrame_CancelRequest c) \<Rightarrow>
          (case getRequest (CancelRequest_RequestId c) s of
             None \<Rightarrow> s
           | Some a \<Rightarrow> upd_pipe a (closeWrite (Some ErrCanceled)) (cancel_ctx a s))
      | Some (ServerFrame_WsData d) \<Rightarrow>
          (case getWSInbound (WebSocketData_RequestId d) s of
             None \<Rightarrow> s
           | Some ch \<Rightarrow> s\<lparr>cs_pc := D_Inbound ch (WebSocketData_Payload d)\<rparr>)
      | Some (ServerFrame_WsClose c) \<Rightarrow>
          (case getWSInbound (WebSocketClose_RequestId c) s of
             None \<Rightarrow> s
           | Some ch \<Rightarrow> close_chan ch (deleteWSInbound (WebSocketClose_RequestId c) s))
      | Some (ServerFrame_Ping p) \<Rightarrow>
          (case session_send F (ClientFrame_Pong \<lparr>Pong_UnixNano = Ping_UnixNano p\<rparr>) s of
             (None, s1) \<Rightarrow> s1
           | (Some e, s1) \<Rightarrow> s1\<lparr>cs_pc := D_Cleanup (Some e)\<rparr>))"

text \<open>The deferred clean-up of \<open>runSession\<close>.\<close>

definition end_request :: "nat \<Rightarrow> client_session \<Rightarrow> client_session" where
  "end_request a s =
     upd_pipe a (closeRead (Some errSessionEnded)) (upd_pipe a (closeWrite (Some errSessionEnded)) (cancel_ctx a s))"

definition session_cleanup :: "client_session \<Rightarrow> client_session" where
  "session_cleanup s =
     (let s1 = fold (\<lambda>(rid, a) x. deleteRequest rid (end_request a x)) (cs_inflight s) s in
      fold (\<lambda>(rid, ch) x. close_chan ch x) (cs_wsInbound s1) s1)"

definition set_task :: "nat \<Rightarrow> task \<Rightarrow> client_session \<Rightarrow> client_session" where
  "set_task i g s = s\<lparr>cs_tasks := (cs_tasks s)[i := g]\<rparr>"

text \<open>
  The steps of a session.  The receive loop takes the first group, the goroutine at position \<open>i\<close> the
  second: its handler may read the body, call the writer and return or panic; a WebSocket goroutine
  may send frames, take payloads from its channel and leave.  The context may end at any time.
\<close>

inductive recv_step ::
  "go_unicode \<Rightarrow> stream \<Rightarrow> (string \<Rightarrow> string \<Rightarrow> string option) \<Rightarrow> client_session \<Rightarrow> client_session \<Rightarrow> bool"
  for U F N where
  recv_frame: "cs_pc s = D_Recv \<Longrightarrow> recv_step U F N s (dispatch U F N f (s\<lparr>cs_received := cs_received s @ [f]\<rparr>))"
| recv_error: "cs_pc s = D_Recv \<Longrightarrow>
     recv_step U F N s (s\<lparr>cs_pc := D_Cleanup (if e = ErrEOF then None else Some e)\<rparr>)"
| write_taken: "cs_pc s = D_Write a \<Longrightarrow> p_pending (ir_body (cs_reqs s ! a)) = None \<Longrightarrow>
     recv_step U F N s (s\<lparr>cs_pc := D_Recv\<rparr>)"
| write_failed: "cs_pc s = D_Write a \<Longrightarrow> pipe_done (ir_body (cs_reqs s ! a)) \<Longrightarrow>
     recv_step U F N s (upd_pipe a (\<lambda>p. p\<lparr>p_pending := None\<rparr>) s\<lparr>cs_pc := D_Recv\<rparr>)"
| inbound_put: "cs_pc s = D_Inbound ch b \<Longrightarrow> chan_send_ready (ic_chan (cs_chans s ! ch)) \<or> ic_closed (cs_chans s ! ch) \<Longrightarrow>
     recv_step U F N s (send_chan ch b s\<lparr>cs_pc := D_Recv\<rparr>)"
| inbound_ctx: "cs_pc s = D_Inbound ch b \<Longrightarrow> cs_ctxErr s = Some e \<Longrightarrow>
     recv_step U F N s (s\<lparr>cs_pc := D_Cleanup (Some e)\<rparr>)"
| recv_cleanup: "cs_pc s = D_Cleanup e \<Longrightarrow> recv_step U F N s (session_cleanup s\<lparr>cs_pc := D_Returned e\<rparr>)"

inductive task_step :: "go_unicode \<Rightarrow> stream \<Rightarrow> nat \<Rightarrow> task \<Rightarrow> client_session \<Rightarrow> client_session \<Rightarrow> bool"
  for U F i where
  body_read: "pipe_read n (ir_body (cs_reqs s ! a)) = Some (r, p) \<Longrightarrow>
     task_step U F i (G_Handler rid a q w) s (upd_pipe a (\<lambda>_. p) s)"
| writer_call: "do_op U F c (w, cs_sent s) = (w', l) \<Longrightarrow>
     task_step U F i (G_Handler rid a q w) s (set_task i (G_Handler rid a q w') s\<lparr>cs_sent := l\<rparr>)"
| handler_returns: "Finish U F (w, cs_sent s) = (e, w', l) \<Longrightarrow>
     task_step U F i (G_Handler rid a q w) s (set_task i (G_CloseBody rid a) s\<lparr>cs_sent := l\<rparr>)"
| handler_panics: "Fail F (Some (''panic while serving request: '' @ m)) (w, cs_sent s) = (e, w', l) \<Longrightarrow>
     task_step U F i (G_Handler rid a q w) s (set_task i (G_CloseBody rid a) s\<lparr>cs_sent := l\<rparr>)"
| close_body: "task_step U F i (G_CloseBody rid a) s (set_task i (G_CancelCtx rid a) (upd_pipe a (closeRead None) s))"
| cancel_own: "task_step U F i (G_CancelCtx rid a) s (set_task i (G_DeleteRequest rid) (cancel_ctx a s))"
| delete_own: "task_step U F i (G_DeleteRequest rid) s (set_task i (G_Gone rid) (deleteRequest rid s))"
| upgrade_done: "task_step U F i (G_Upgrade rid ch st) s (set_task i (G_Pump rid ch) s)"
| upgrade_refused: "task_step U F i (G_Upgrade rid ch st) s (set_task i (G_DeleteWS rid) s)"
| upgrade_send: "session_send F f s = (e, s') \<Longrightarrow> task_step U F i (G_Upgrade rid ch st) s s'"
| pump_send: "session_send F f s = (e, s') \<Longrightarrow> task_step U F i (G_Pump rid ch) s s'"
| pump_recv: "chan_recv (ic_chan (cs_chans s ! ch)) = Some (b, c) \<Longrightarrow>
     task_step U F i (G_Pump rid ch) s (s\<lparr>cs_chans := (cs_chans s)[ch := (cs_chans s ! ch)
       \<lparr>ic_chan := c, ic_taken := ic_taken (cs_chans s ! ch) @ [b]\<rparr>]\<rparr>)"
| pump_leave: "task_step U F i (G_Pump rid ch) s (set_task i (G_DeleteWS rid) s)"
| delete_ws: "task_step U F i (G_DeleteWS rid) s (set_task i (G_Gone rid) (deleteWSInbound rid s))"

inductive client_step ::
  "go_unicode \<Rightarrow> stream \<Rightarrow> (string \<Rightarrow> string \<Rightarrow> string option) \<Rightarrow> client_session \<Rightarrow> client_session \<Rightarrow> bool"
  for U F N where
  by_recv: "recv_step U F N s t \<Longrightarrow> client_step U F N s t"
| by_task: "i < length (cs_tasks s) \<Longrightarrow> task_step U F i (cs_tasks s ! i) s t \<Longrightarrow> client_step U F N s t"
| by_ctx: "cs_ctxErr s = None \<Longrightarrow> client_step U F N s (s\<lparr>cs_ctxErr := Some e\<rparr>)"

definition client_init :: "stream \<Rightarrow> client_Config \<Rightarrow> client_session \<Rightarrow> bool" where
  "client_init F cfg s \<longleftrightarrow> runSession_open F cfg = Inr s"

lemmas session_ops = getRequest_def putRequest_def deleteRequest_def getWSInbound_def putWSInbound_def
  deleteWSInbound_def upd_req_def upd_pipe_def cancel_ctx_def session_send_def send_def spawn_def set_task_def

subsection \<open>No goroutine panics on a channel\<close>

definition marks :: "client_session \<Rightarrow> bool list" where
  "marks s = map ic_closed (cs_chans s)"

definition returned :: "client_session \<Rightarrow> bool" where
  "returned s \<longleftrightarrow> (\<exists>e. cs_pc s = D_Returned e)"

text \<open>The channels of the table are distinct, allocated and open.\<close>

definition table_ok :: "(string, nat) gomap \<Rightarrow> bool list \<Rightarrow> bool" where
  "table_ok ws m \<longleftrightarrow> map_wf ws \<and> distinct (map snd ws) \<and> (\<forall>ch \<in> snd ` set ws. ch < length m \<and> \<not> m ! ch)"

definition chans_ok :: "client_session \<Rightarrow> bool" where
  "chans_ok s \<longleftrightarrow>
     \<not> cs_panic s \<and> (\<not> returned s \<longrightarrow> table_ok (cs_wsInbound s) (marks s)) \<and>
     (\<forall>ch b. cs_pc s = D_Inbound ch b \<longrightarrow> ch < length (marks s) \<and> \<not> marks s ! ch)"

lemma map_del_filter: "map_del k m = filter (\<lambda>x. fst x \<noteq> k) m"
  unfolding map_del_def AList.delete_eq by (rule filter_cong) auto

lemma distinct_map_del: "distinct (map snd m) \<Longrightarrow> distinct (map snd (map_del k m))"
  by (simp add: map_del_filter distinct_map_filter)

lemma table_ok_del: "table_ok ws m \<Longrightarrow> table_ok (map_del rid ws) m"
  using set_map_del [of rid ws] by (auto simp: table_ok_def distinct_map_del go_map)

lemma distinct_snd_put:
  "distinct (map snd m) \<Longrightarrow> v \<notin> snd ` set m \<Longrightarrow> distinct (map snd (map_put k v m))"
proof (induction m)
  case (Cons x m)
  then show ?case using set_map_put [of k v m] by (cases x) (auto simp: map_put_def)
qed (simp add: map_put_def)

lemma table_ok_put:
  assumes "table_ok ws m"
  shows "table_ok (map_put rid (length m) ws) (m @ [False])"
proof -
  from assms have "length m \<notin> snd ` set ws" by (auto simp: table_ok_def)
  with assms show ?thesis
    using set_map_put [of rid "length m" ws] unfolding table_ok_def
    by (auto simp: distinct_snd_put nth_append go_map dest!: subsetD)
qed

lemma map_get_in: "map_get m k = Some v \<Longrightarrow> (k, v) \<in> set m"
  by (simp add: map_get_def map_of_SomeD)

lemma snd_not_in_del:
  assumes "distinct (map snd ws)" "(rid, ch) \<in> set ws"
  shows "ch \<notin> snd ` set (map_del rid ws)"
proof
  assume "ch \<in> snd ` set (map_del rid ws)"
  then obtain k where "(k, ch) \<in> set ws" "k \<noteq> rid" by (auto simp: map_del_filter)
  moreover from assms(1) have "inj_on snd (set ws)" by (simp add: distinct_map)
  ultimately show False using assms(2) inj_onD [of snd "set ws" "(k, ch)" "(rid, ch)"] by simp
qed

lemma table_ok_close:
  assumes ok: "table_ok ws m" and g: "map_get ws rid = Some ch"
  shows "ch < length m" "\<not> m ! ch" "table_ok (map_del rid ws) (m[ch := True])"
proof -
  have i: "(rid, ch) \<in> set ws" using g by (rule map_get_in)
  then show *: "ch < length m" "\<not> m ! ch" using ok by (force simp: table_ok_def)+
  from ok i have "ch \<notin> snd ` set (map_del rid ws)" by (intro snd_not_in_del) (auto simp: table_ok_def)
  then have "m[ch := True] ! c = m ! c" if "c \<in> snd ` set (map_del rid ws)" for c
    using that by (intro nth_list_update_neq) blast
  with table_ok_del [OF ok, of rid] show "table_ok (map_del rid ws) (m[ch := True])"
    by (simp add: table_ok_def)
qed

lemma marks_update [simp]:
  "marks (s\<lparr>cs_chans := (cs_chans s)[ch := (cs_chans s ! ch)\<lparr>ic_chan := c\<rparr>]\<rparr>) = marks s"
  "marks (s\<lparr>cs_chans := (cs_chans s)[ch := (cs_chans s ! ch)\<lparr>ic_chan := c, ic_taken := bs\<rparr>]\<rparr>) = marks s"
  by (simp_all add: marks_def map_update) (metis list_update_beyond list_update_id map_update nth_map not_less length_map)+

lemma close_chan_open:
  assumes "ch < length (marks s)" "\<not> marks s ! ch"
  shows "cs_panic (close_chan ch s) = cs_panic s" "marks (close_chan ch s) = (marks s)[ch := True]"
  using assms by (auto simp: close_chan_def marks_def map_update)

lemma close_chan_keeps [simp]:
  "cs_pc (close_chan ch s) = cs_pc s" "cs_wsInbound (close_chan ch s) = cs_wsInbound s"
  "cs_inflight (close_chan ch s) = cs_inflight s" "cs_reqs (close_chan ch s) = cs_reqs s"
  "cs_tasks (close_chan ch s) = cs_tasks s" "cs_received (close_chan ch s) = cs_received s"
  "cs_sent (close_chan ch s) = cs_sent s"
  by (simp_all add: close_chan_def)

lemma close_all:
  assumes "distinct (map snd ws)" "\<forall>ch \<in> snd ` set ws. ch < length (marks s) \<and> \<not> marks s ! ch"
  shows "cs_panic (fold (\<lambda>(rid, ch) x. close_chan ch x) ws s) = cs_panic s \<and>
    marks (fold (\<lambda>(rid, ch) x. close_chan ch x) ws s) = fold (\<lambda>ch m. m[ch := True]) (map snd ws) (marks s)"
  using assms
proof (induction ws arbitrary: s)
  case (Cons x ws)
  obtain rid ch where x: "x = (rid, ch)" by (cases x)
  with Cons.prems have o: "ch < length (marks s)" "\<not> marks s ! ch" "ch \<notin> snd ` set ws" by auto
  have m: "(marks s)[ch := True] ! c = marks s ! c" if "c \<in> snd ` set ws" for c
    using that o(3) by (intro nth_list_update_neq) blast
  have "\<forall>c \<in> snd ` set ws. c < length (marks (close_chan ch s)) \<and> \<not> marks (close_chan ch s) ! c"
    using Cons.prems(2) m by (simp add: close_chan_open [OF o(1,2)])
  with Cons.IH [of "close_chan ch s"] Cons.prems(1) x show ?case
    by (simp add: close_chan_open [OF o(1,2)])
qed simp

lemma fold_close_keeps [simp]:
  "cs_pc (fold (\<lambda>(rid, ch) x. close_chan ch x) ws s) = cs_pc s"
  "cs_wsInbound (fold (\<lambda>(rid, ch) x. close_chan ch x) ws s) = cs_wsInbound s"
  "cs_inflight (fold (\<lambda>(rid, ch) x. close_chan ch x) ws s) = cs_inflight s"
  "cs_reqs (fold (\<lambda>(rid, ch) x. close_chan ch x) ws s) = cs_reqs s"
  "cs_tasks (fold (\<lambda>(rid, ch) x. close_chan ch x) ws s) = cs_tasks s"
  "cs_received (fold (\<lambda>(rid, ch) x. close_chan ch x) ws s) = cs_received s"
  by (induction ws arbitrary: s) auto

abbreviation end_requests :: "client_session \<Rightarrow> client_session" where
  "end_requests s \<equiv> fold (\<lambda>(rid, a) x. deleteRequest rid (end_request a x)) (cs_inflight s) s"

lemma end_requests_keeps [simp]:
  "cs_pc (fold (\<lambda>(rid, a) x. deleteRequest rid (end_request a x)) es s) = cs_pc s"
  "cs_wsInbound (fold (\<lambda>(rid, a) x. deleteRequest rid (end_request a x)) es s) = cs_wsInbound s"
  "cs_chans (fold (\<lambda>(rid, a) x. deleteRequest rid (end_request a x)) es s) = cs_chans s"
  "cs_panic (fold (\<lambda>(rid, a) x. deleteRequest rid (end_request a x)) es s) = cs_panic s"
  "cs_tasks (fold (\<lambda>(rid, a) x. deleteRequest rid (end_request a x)) es s) = cs_tasks s"
  "cs_received (fold (\<lambda>(rid, a) x. deleteRequest rid (end_request a x)) es s) = cs_received s"
  by (induction es arbitrary: s) (auto simp: end_request_def session_ops)

lemma marks_end_requests [simp]:
  "marks (fold (\<lambda>(rid, a) x. deleteRequest rid (end_request a x)) es s) = marks s"
  by (simp add: marks_def)

lemma marks_cong: "cs_chans s = cs_chans t \<Longrightarrow> marks s = marks t"
  by (simp add: marks_def)

lemma cleanup_chans_ok:
  assumes "chans_ok s" "\<not> returned s"
  shows "chans_ok (session_cleanup s\<lparr>cs_pc := D_Returned e\<rparr>)"
  using assms close_all [of "cs_wsInbound s" "end_requests s"]
  by (auto simp: session_cleanup_def chans_ok_def returned_def table_ok_def)

lemma dispatch_chans_ok:
  assumes ok: "chans_ok s" and pc: "cs_pc s = D_Recv"
  shows "chans_ok (dispatch U F N f s)"
proof -
  have t: "table_ok (cs_wsInbound s) (marks s)" "\<not> cs_panic s"
    using ok pc by (auto simp: chans_ok_def returned_def)
  show ?thesis
  proof (cases f)
    case (Some m)
    then show ?thesis
    proof (cases m)
      case (ServerFrame_RequestStart start)
      then show ?thesis using Some t pc table_ok_put [OF t(1)]
        by (auto simp: dispatch_def start_request_def session_ops chans_ok_def returned_def marks_def Let_def
            split: option.splits)
    next
      case (ServerFrame_WsData d)
      then show ?thesis using Some t pc table_ok_close(1,2) [OF t(1)]
        by (auto simp: dispatch_def session_ops chans_ok_def returned_def marks_def split: option.splits)
    next
      case (ServerFrame_WsClose c)
      then show ?thesis using Some t pc table_ok_close [OF t(1)]
        by (auto simp: dispatch_def session_ops chans_ok_def returned_def marks_def close_chan_def map_update split: option.splits)
    qed (use Some t pc in \<open>auto simp: dispatch_def session_ops chans_ok_def returned_def marks_def split: option.splits\<close>)
  qed (use ok in \<open>simp add: dispatch_def\<close>)
qed

lemma send_chan_open:
  "ch < length (marks s) \<Longrightarrow> \<not> marks s ! ch \<Longrightarrow>
     send_chan ch b s = s\<lparr>cs_chans := (cs_chans s)[ch := (cs_chans s ! ch)\<lparr>ic_chan := chan_send b (ic_chan (cs_chans s ! ch))\<rparr>]\<rparr>"
  by (simp add: send_chan_def marks_def)

lemma marks_pc [simp]: "marks (s\<lparr>cs_pc := pc\<rparr>) = marks s" "marks (s\<lparr>cs_received := r\<rparr>) = marks s"
  "marks (s\<lparr>cs_sent := l\<rparr>) = marks s" "marks (s\<lparr>cs_tasks := g\<rparr>) = marks s" "marks (s\<lparr>cs_reqs := q\<rparr>) = marks s"
  "marks (s\<lparr>cs_inflight := m\<rparr>) = marks s" "marks (s\<lparr>cs_wsInbound := m\<rparr>) = marks s" "marks (s\<lparr>cs_ctxErr := e\<rparr>) = marks s"
  by (simp_all add: marks_def)

lemma recv_chans_ok:
  assumes ok: "chans_ok s" and step: "recv_step U F N s t"
  shows "chans_ok t"
  using step
proof cases
  case (recv_frame f)
  have "chans_ok (s\<lparr>cs_received := cs_received s @ [f]\<rparr>)" using ok by (simp add: chans_ok_def returned_def)
  then show ?thesis using recv_frame dispatch_chans_ok by simp
next
  case (inbound_put ch b)
  then have "ch < length (marks s)" "\<not> marks s ! ch" using ok by (auto simp: chans_ok_def)
  then show ?thesis using ok inbound_put by (simp add: send_chan_open chans_ok_def returned_def)
next
  case (recv_cleanup e)
  then show ?thesis using cleanup_chans_ok ok by (simp add: returned_def)
qed (use ok in \<open>simp_all add: chans_ok_def returned_def session_ops\<close>)

lemma chans_ok_cong:
  assumes "chans_ok s" "cs_pc t = cs_pc s" "cs_panic t = cs_panic s" "marks t = marks s"
    "cs_wsInbound t = cs_wsInbound s \<or> (\<exists>rid. cs_wsInbound t = map_del rid (cs_wsInbound s))"
  shows "chans_ok t"
  using assms table_ok_del unfolding chans_ok_def returned_def by metis

lemma task_chans_ok:
  assumes ok: "chans_ok s" and step: "task_step U F i g s t"
  shows "chans_ok t"
  using step
proof cases
  case (delete_ws rid)
  show ?thesis by (rule chans_ok_cong [OF ok]) (auto simp: delete_ws session_ops)
next
  case (pump_recv ch b c rid)
  show ?thesis by (rule chans_ok_cong [OF ok]) (simp_all add: pump_recv)
qed (auto intro!: chans_ok_cong [OF ok] simp: session_ops)

lemma client_chans_ok:
  assumes ok: "chans_ok s" and step: "client_step U F N s t"
  shows "chans_ok t"
  using step
proof cases
  case by_recv
  then show ?thesis by (rule recv_chans_ok [OF ok])
next
  case (by_task i)
  then show ?thesis using task_chans_ok [OF ok] by blast
next
  case (by_ctx e)
  then show ?thesis using ok by (simp add: chans_ok_def returned_def)
qed

lemma client_initE:
  assumes "client_init F cfg s"
  obtains l where "s = \<lparr>cs_pc = D_Recv, cs_received = [], cs_inflight = [], cs_reqs = [], cs_wsInbound = [],
    cs_chans = [], cs_sent = l, cs_tasks = [], cs_ctxErr = None, cs_panic = False\<rparr>"
  using assms by (auto simp: client_init_def runSession_open_def split: prod.splits option.splits)

interpretation chans: invariant_system "client_init F cfg" "client_step U F N" chans_ok for U F N cfg
proof
  show "chans_ok s" if "client_init F cfg s" for s
    using that by (elim client_initE) (simp add: chans_ok_def table_ok_def map_wf_def)
qed (rule client_chans_ok)

end
