(* ===== verification/ClientBodies.thy ===== *)
theory ClientBodies
  imports ClientSession "HOL-Library.Sublist"
begin

text \<open>
  What the handlers of a tunnel client see of their requests, in every interleaving of the receive
  loop with the goroutines it starts (\<open>tunnel/client.go\<close>): the body bytes, the end of the body, the
  cancellation, and the clean-up when the session ends.
\<close>

subsection \<open>Request bodies\<close>

text \<open>
  What the received frames say about the body of a request: the chunks since its start, and what has
  closed it: nothing, its end (the handler is to see EOF) or its cancellation.
\<close>

fun start_id :: "ServerFrame \<Rightarrow> string list" where
  "start_id (Some (ServerFrame_RequestStart st)) = [RequestStart_RequestId st]"
| "start_id _ = []"

definition start_ids :: "ServerFrame list \<Rightarrow> string list" where
  "start_ids fs = concat (map start_id fs)"

fun body_feed :: "string \<Rightarrow> ServerFrame \<Rightarrow> bytes list \<times> go_error option \<Rightarrow> bytes list \<times> go_error option" where
  "body_feed rid (Some (ServerFrame_RequestStart st)) x = (if RequestStart_RequestId st = rid then ([], None) else x)"
| "body_feed rid (Some (ServerFrame_RequestBody b)) x =
     (if RequestBody_RequestId b = rid \<and> snd x = None then (fst x @ [RequestBody_Chunk b], None) else x)"
| "body_feed rid (Some (ServerFrame_RequestEnd e)) x =
     (if RequestEnd_RequestId e = rid \<and> snd x = None then (fst x, Some ErrEOF) else x)"
| "body_feed rid (Some (ServerFrame_CancelRequest c)) x =
     (if CancelRequest_RequestId c = rid \<and> snd x = None then (fst x, Some ErrCanceled) else x)"
| "body_feed rid _ x = x"

definition request_feed :: "string \<Rightarrow> ServerFrame list \<Rightarrow> bytes list \<times> go_error option" where
  "request_feed rid fs = fold (body_feed rid) fs ([], Some ErrClosedPipe)"

definition pend :: "pipe \<Rightarrow> bytes" where
  "pend p = (case p_pending p of None \<Rightarrow> [] | Some b \<Rightarrow> b)"

definition pipe_ok :: "bool \<Rightarrow> pipe \<Rightarrow> bool" where
  "pipe_ok busy p \<longleftrightarrow>
     (p_pending p \<noteq> None \<longrightarrow> busy \<and> p_werr p = None) \<and> prefix (p_got p @ pend p) (concat (p_fed p)) \<and>
     (p_rerr p = None \<longrightarrow> concat (p_fed p) = p_got p @ pend p)"

definition pipes_ok :: "client_session \<Rightarrow> bool" where
  "pipes_ok s \<longleftrightarrow> (\<forall>a < length (cs_reqs s). pipe_ok (cs_pc s = D_Write a) (ir_body (cs_reqs s ! a)))"

lemma pipe_ok_idle: "pipe_ok False p \<Longrightarrow> p_pending p = None"
  by (simp add: pipe_ok_def)

lemma pipe_ok_busy: "pipe_ok b p \<Longrightarrow> p_pending p = None \<Longrightarrow> pipe_ok b' p"
  by (simp add: pipe_ok_def)

lemma pipe_ok_read:
  assumes "pipe_ok b p" "pipe_read n p = Some (r, p')"
  shows "pipe_ok b p'"
proof (cases "pipe_done p")
  case False
  then obtain x where x: "p_pending p = Some x" "p' = p\<lparr>p_pending := (if drop n x = [] then None else Some (drop n x)),
      p_got := p_got p @ take n x\<rparr>"
    using assms(2) by (auto simp: pipe_read_def split: option.splits)
  then have "p_got p' @ pend p' = p_got p @ pend p"
    by (simp add: pend_def)
  with assms(1) x show ?thesis by (simp add: pipe_ok_def del: append_eq_append_conv)
qed (use assms in \<open>simp add: pipe_read_def\<close>)

lemma pipe_ok_closeRead: "pipe_ok b p \<Longrightarrow> pipe_ok b (closeRead e p)"
  by (simp add: pipe_ok_def closeRead_def pend_def)

lemma pipe_ok_closeWrite: "pipe_ok b p \<Longrightarrow> p_pending p = None \<Longrightarrow> pipe_ok b (closeWrite e p)"
  by (simp add: pipe_ok_def closeWrite_def pend_def)

lemma pipe_ok_write: "pipe_ok False p \<Longrightarrow> pipe_ok True (pipe_write c p)"
  by (auto simp: pipe_ok_def pipe_write_def pend_def pipe_done_def)

lemma pipe_ok_failed: "pipe_ok b p \<Longrightarrow> pipe_done p \<Longrightarrow> pipe_ok b' (p\<lparr>p_pending := None\<rparr>)"
  by (cases "p_pending p") (auto simp: pipe_ok_def pipe_done_def pend_def dest: append_prefixD)

lemma pipe_ok_new: "pipe_ok b io_Pipe"
  by (simp add: pipe_ok_def io_Pipe_def pend_def)

lemma pc_ops [simp]: "cs_pc (cancel_ctx a s) = cs_pc s" "cs_pc (upd_pipe a f s) = cs_pc s"
  by (simp_all add: session_ops)

lemma nth_upd_pipe:
  "b < length (cs_reqs s) \<Longrightarrow>
     ir_body (cs_reqs (upd_pipe a f s) ! b) = (if b = a then f (ir_body (cs_reqs s ! a)) else ir_body (cs_reqs s ! b))"
  "b < length (cs_reqs s) \<Longrightarrow> ir_cancelled (cs_reqs (upd_pipe a f s) ! b) = ir_cancelled (cs_reqs s ! b)"
  by (cases "b = a"; simp add: session_ops)+

lemma nth_cancel_ctx:
  "b < length (cs_reqs s) \<Longrightarrow> ir_body (cs_reqs (cancel_ctx a s) ! b) = ir_body (cs_reqs s ! b)"
  "b < length (cs_reqs s) \<Longrightarrow> ir_cancelled (cs_reqs (cancel_ctx a s) ! b) = (b = a \<or> ir_cancelled (cs_reqs s ! b))"
  by (cases "b = a"; simp add: session_ops)+

lemma length_reqs [simp]:
  "length (cs_reqs (upd_pipe a f s)) = length (cs_reqs s)" "length (cs_reqs (cancel_ctx a s)) = length (cs_reqs s)"
  by (simp_all add: session_ops)

lemma pipes_ok_upd:
  assumes "pipes_ok s"
    "pipe_ok (cs_pc s = D_Write a) (ir_body (cs_reqs s ! a)) \<Longrightarrow> pipe_ok (cs_pc s = D_Write a) (f (ir_body (cs_reqs s ! a)))"
  shows "pipes_ok (upd_pipe a f s)"
  using assms unfolding pipes_ok_def length_reqs pc_ops by (simp add: nth_upd_pipe)

lemma pipes_ok_cong:
  assumes "pipes_ok s" "cs_pc t = cs_pc s" "map ir_body (cs_reqs t) = map ir_body (cs_reqs s)"
  shows "pipes_ok t"
proof -
  have "length (cs_reqs t) = length (cs_reqs s)" using assms(3) by (metis length_map)
  moreover have "ir_body (cs_reqs t ! a) = ir_body (cs_reqs s ! a)" if "a < length (cs_reqs s)" for a
    using that calculation assms(3) by (metis nth_map)
  ultimately show ?thesis using assms(1,2) by (simp add: pipes_ok_def)
qed

lemma bodies_cancel [simp]: "map ir_body (cs_reqs (cancel_ctx a s)) = map ir_body (cs_reqs s)"
  by (simp add: session_ops map_update) (metis list_update_beyond list_update_id nth_map not_less length_map)

lemma pipes_ok_cancel: "pipes_ok s \<Longrightarrow> pipes_ok (cancel_ctx a s)"
  by (erule pipes_ok_cong) simp_all

lemma task_pipes_ok:
  assumes ok: "pipes_ok s" and step: "task_step U F i g s t"
  shows "pipes_ok t"
  using step
proof cases
  case (body_read n a r p rid q w)
  have "pipes_ok (upd_pipe a (\<lambda>_. p) s)"
    by (rule pipes_ok_upd [OF ok]) (rule pipe_ok_read [OF _ body_read(3)])
  then show ?thesis using body_read by simp
next
  case (close_body rid a)
  have "pipes_ok (upd_pipe a (closeRead None) s)" by (rule pipes_ok_upd [OF ok pipe_ok_closeRead])
  then show ?thesis by (rule pipes_ok_cong) (simp_all add: close_body set_task_def)
next
  case (cancel_own rid a)
  have "pipes_ok (cancel_ctx a s)" by (rule pipes_ok_cancel [OF ok])
  then show ?thesis by (rule pipes_ok_cong) (simp_all add: cancel_own set_task_def)
qed (auto intro!: pipes_ok_cong [OF ok] simp: session_ops)

definition idle :: "client_session \<Rightarrow> bool" where
  "idle s \<longleftrightarrow> (\<forall>a < length (cs_reqs s). pipe_ok False (ir_body (cs_reqs s ! a)))"

lemma idle_pipes_ok: "idle s \<Longrightarrow> pipes_ok s"
  by (auto simp: idle_def pipes_ok_def intro: pipe_ok_busy dest: pipe_ok_idle)

lemma pipes_ok_idle: "pipes_ok s \<Longrightarrow> (\<And>a. cs_pc s \<noteq> D_Write a) \<Longrightarrow> idle s"
  by (simp add: idle_def pipes_ok_def)

lemma idle_cong: "idle s \<Longrightarrow> cs_reqs t = cs_reqs s \<Longrightarrow> idle t"
  by (simp add: idle_def)

lemma idle_end: "idle s \<Longrightarrow> idle (end_request a s)"
  unfolding idle_def end_request_def
  by (simp add: nth_upd_pipe nth_cancel_ctx pipe_ok_closeRead pipe_ok_closeWrite pipe_ok_idle)

lemma idle_end_requests: "idle s \<Longrightarrow> idle (fold (\<lambda>(rid, a) x. deleteRequest rid (end_request a x)) es s)"
proof (induction es arbitrary: s)
  case (Cons e es)
  obtain rid a where e: "e = (rid, a)" by (cases e)
  have "idle (deleteRequest rid (end_request a s))"
    using idle_end [OF Cons.prems] by (rule idle_cong) (simp add: deleteRequest_def)
  then show ?case using Cons.IH e by simp
qed simp

lemma start_pipes_ok: "idle s \<Longrightarrow> idle (start_request U F N start s)"
  by (auto simp: idle_def start_request_def session_ops Let_def nth_append pipe_ok_new less_Suc_eq split: option.splits)

lemma dispatch_pipes_ok:
  assumes i: "idle s"
  shows "pipes_ok (dispatch U F N f s)"
proof (cases f)
  case None
  then show ?thesis using i by (simp add: dispatch_def idle_pipes_ok)
next
  case (Some m)
  show ?thesis
  proof (cases m)
    case (ServerFrame_RequestStart start)
    then show ?thesis using Some i by (simp add: dispatch_def start_pipes_ok idle_pipes_ok)
  next
    case (ServerFrame_RequestBody b)
    have "pipes_ok (upd_pipe a (pipe_write c) s\<lparr>cs_pc := D_Write a\<rparr>)" for a c
    proof -
      have "pipe_ok (cs_pc s' = D_Write x) (ir_body (cs_reqs s' ! x))"
        if "s' = upd_pipe a (pipe_write c) s\<lparr>cs_pc := D_Write a\<rparr>" "x < length (cs_reqs s')" for s' x
        using that i pipe_ok_write [of "ir_body (cs_reqs s ! a)"] by (auto simp: idle_def nth_upd_pipe)
      then show ?thesis by (simp add: pipes_ok_def)
    qed
    then show ?thesis using Some ServerFrame_RequestBody i by (simp add: dispatch_def idle_pipes_ok split: option.splits)
  next
    case (ServerFrame_RequestEnd e)
    have "idle (upd_pipe a (closeWrite x) s)" for a x
      using i unfolding idle_def length_reqs by (simp add: nth_upd_pipe pipe_ok_closeWrite pipe_ok_idle)
    then show ?thesis using Some ServerFrame_RequestEnd i
      by (simp add: dispatch_def idle_pipes_ok split: option.splits)
  next
    case (ServerFrame_CancelRequest c)
    have "idle (upd_pipe a (closeWrite x) (cancel_ctx a s))" for a x
      using i unfolding idle_def length_reqs
      by (simp add: nth_upd_pipe nth_cancel_ctx pipe_ok_closeWrite pipe_ok_idle)
    then show ?thesis using Some ServerFrame_CancelRequest i
      by (simp add: dispatch_def idle_pipes_ok split: option.splits)
  next
    case (ServerFrame_Ping p)
    then show ?thesis using Some i
      by (auto simp: dispatch_def session_ops split: option.splits intro!: idle_pipes_ok idle_cong [OF i])
  next
    case (ServerFrame_WsData d)
    then show ?thesis using Some i
      by (auto simp: dispatch_def session_ops split: option.splits intro!: idle_pipes_ok idle_cong [OF i])
  next
    case (ServerFrame_WsClose c)
    then show ?thesis using Some i
      by (auto simp: dispatch_def session_ops split: option.splits intro!: idle_pipes_ok idle_cong [OF i])
  qed
qed

lemma recv_pipes_ok:
  assumes ok: "pipes_ok s" and step: "recv_step U F N s t"
  shows "pipes_ok t"
  using step
proof cases
  case (recv_frame f)
  have "idle (s\<lparr>cs_received := cs_received s @ [f]\<rparr>)"
    by (rule idle_cong [OF pipes_ok_idle [OF ok]]) (simp_all add: recv_frame)
  then show ?thesis using recv_frame dispatch_pipes_ok by simp
next
  case (write_taken a)
  have "idle s" unfolding idle_def
  proof safe
    fix b
    assume b: "b < length (cs_reqs s)"
    then show "pipe_ok False (ir_body (cs_reqs s ! b))"
      using ok write_taken pipe_ok_busy unfolding pipes_ok_def by (metis dispatch_pc.inject(1))
  qed
  then show ?thesis using write_taken by (auto intro!: idle_pipes_ok elim: idle_cong)
next
  case (write_failed a)
  have "idle (upd_pipe a (\<lambda>p. p\<lparr>p_pending := None\<rparr>) s)" unfolding idle_def length_reqs
  proof safe
    fix b
    assume b: "b < length (cs_reqs s)"
    then have "pipe_ok (a = b) (ir_body (cs_reqs s ! b))" using ok write_failed by (simp add: pipes_ok_def)
    then show "pipe_ok False (ir_body (cs_reqs (upd_pipe a (\<lambda>p. p\<lparr>p_pending := None\<rparr>) s) ! b))"
      using b write_failed pipe_ok_failed by (auto simp: nth_upd_pipe)
  qed
  then show ?thesis using write_failed by (auto intro!: idle_pipes_ok elim: idle_cong)
next
  case (recv_cleanup e)
  have "idle s" by (rule pipes_ok_idle [OF ok]) (simp add: recv_cleanup)
  then have "idle (end_requests s)" by (rule idle_end_requests)
  then show ?thesis using recv_cleanup
    by (auto simp: session_cleanup_def intro!: idle_pipes_ok elim: idle_cong)
qed (auto intro!: idle_pipes_ok idle_cong [OF pipes_ok_idle [OF ok]] simp: send_chan_def)

subsection \<open>Goroutines and the entries of the tables\<close>

definition inflight_ok :: "client_session \<Rightarrow> bool" where
  "inflight_ok s \<longleftrightarrow> table_ok (cs_inflight s) (map (\<lambda>_. False) (cs_reqs s))"

text \<open>
  The cell of a request that is being served is the one in the table until the session returns, and
  cancelled and closed from then on; its pipe was fed the chunks that were received.
\<close>

definition cell_fed :: "bytes list \<times> go_error option \<Rightarrow> pipe \<Rightarrow> bool" where
  "cell_fed fd p \<longleftrightarrow> prefix (p_fed p) (fst fd) \<and> (p_rerr p = None \<longrightarrow> fd = (p_fed p, p_werr p))"

definition cell_ok :: "client_session \<Rightarrow> string \<Rightarrow> nat \<Rightarrow> bool" where
  "cell_ok s rid a \<longleftrightarrow>
     a < length (cs_reqs s) \<and> cell_fed (request_feed rid (cs_received s)) (ir_body (cs_reqs s ! a)) \<and>
     (if returned s then ir_cancelled (cs_reqs s ! a) \<and> pipe_done (ir_body (cs_reqs s ! a))
      else map_get (cs_inflight s) rid = Some a)"

definition chan_owned :: "client_session \<Rightarrow> string \<Rightarrow> nat \<Rightarrow> bool" where
  "chan_owned s rid ch \<longleftrightarrow>
     ch < length (marks s) \<and> (marks s ! ch \<or> \<not> returned s \<and> map_get (cs_wsInbound s) rid = Some ch)"

fun task_ok :: "client_session \<Rightarrow> task \<Rightarrow> bool" where
  "task_ok s (G_Handler rid a q w) = cell_ok s rid a"
| "task_ok s (G_CloseBody rid a) = cell_ok s rid a"
| "task_ok s (G_CancelCtx rid a) = cell_ok s rid a"
| "task_ok s (G_Upgrade rid ch st) = chan_owned s rid ch"
| "task_ok s (G_Pump rid ch) = chan_owned s rid ch"
| "task_ok s _ = True"

definition owned :: "client_session \<Rightarrow> bool" where
  "owned s \<longleftrightarrow>
     distinct (start_ids (cs_received s)) \<longrightarrow>
       distinct (map task_rid (cs_tasks s)) \<and> set (map task_rid (cs_tasks s)) \<subseteq> set (start_ids (cs_received s)) \<and>
       (\<forall>g \<in> set (cs_tasks s). task_ok s g)"

text \<open>What a step of a goroutine does to the cells of the others.\<close>

definition pipe_le :: "pipe \<Rightarrow> pipe \<Rightarrow> bool" where
  "pipe_le p p' \<longleftrightarrow> p_fed p' = p_fed p \<and> p_werr p' = p_werr p \<and> (p_rerr p' = p_rerr p \<or> p_rerr p' \<noteq> None)"

definition cells_le :: "client_session \<Rightarrow> client_session \<Rightarrow> bool" where
  "cells_le s t \<longleftrightarrow>
     length (cs_reqs t) = length (cs_reqs s) \<and>
     (\<forall>a < length (cs_reqs s). pipe_le (ir_body (cs_reqs s ! a)) (ir_body (cs_reqs t ! a)) \<and>
        (ir_cancelled (cs_reqs s ! a) \<longrightarrow> ir_cancelled (cs_reqs t ! a)))"

lemma pipe_le_refl [simp]: "pipe_le p p"
  by (simp add: pipe_le_def)

lemma cells_le_same: "cs_reqs t = cs_reqs s \<Longrightarrow> cells_le s t"
  by (simp add: cells_le_def)

lemma pipe_le_fed: "cell_fed fd p \<Longrightarrow> pipe_le p p' \<Longrightarrow> cell_fed fd p'"
  by (auto simp: cell_fed_def pipe_le_def)

lemma pipe_le_done: "pipe_done p \<Longrightarrow> pipe_le p p' \<Longrightarrow> pipe_done p'"
  by (auto simp: pipe_done_def pipe_le_def)

lemma cell_ok_local:
  assumes "cell_ok s rid a" "a < length (cs_reqs t)" "pipe_le (ir_body (cs_reqs s ! a)) (ir_body (cs_reqs t ! a))"
    "ir_cancelled (cs_reqs s ! a) \<longrightarrow> ir_cancelled (cs_reqs t ! a)"
    "request_feed rid (cs_received t) = request_feed rid (cs_received s)" "returned t = returned s"
    "map_get (cs_inflight t) rid = map_get (cs_inflight s) rid"
  shows "cell_ok t rid a"
  using assms pipe_le_done [OF _ assms(3)] pipe_le_fed [OF _ assms(3)] unfolding cell_ok_def by metis

lemma cell_ok_le:
  assumes "cell_ok s rid a" "cells_le s t" "request_feed rid (cs_received t) = request_feed rid (cs_received s)"
    "returned t = returned s" "map_get (cs_inflight t) rid = map_get (cs_inflight s) rid"
  shows "cell_ok t rid a"
  using assms by (intro cell_ok_local [OF assms(1)]) (auto simp: cells_le_def cell_ok_def)

lemma task_cells_le:
  assumes "task_step U F i g s t"
  shows "cells_le s t \<and> cs_received t = cs_received s \<and> cs_pc t = cs_pc s \<and> marks t = marks s"
  using assms
proof cases
  case (body_read n a r p rid q w)
  then have "pipe_le (ir_body (cs_reqs s ! a)) p" by (auto simp: pipe_read_def pipe_le_def split: if_splits option.splits)
  then have "cells_le s (upd_pipe a (\<lambda>_. p) s)" by (simp add: cells_le_def nth_upd_pipe)
  then show ?thesis using body_read by (simp add: session_ops)
next
  case (close_body rid a)
  have "cells_le s (upd_pipe a (closeRead None) s)"
    by (simp add: cells_le_def nth_upd_pipe closeRead_def pipe_le_def)
  then show ?thesis using close_body by (simp add: session_ops cells_le_def)
next
  case (cancel_own rid a)
  have "cells_le s (cancel_ctx a s)" by (simp add: cells_le_def nth_cancel_ctx)
  then show ?thesis using cancel_own by (simp add: session_ops cells_le_def)
qed (auto intro!: cells_le_same simp: session_ops)

text \<open>
  A goroutine removes at most the table entries of its own request, and its next state has the same
  request and nothing that it did not have before.
\<close>

definition succ_task :: "task \<Rightarrow> task \<Rightarrow> bool" where
  "succ_task g g' \<longleftrightarrow> task_rid g' = task_rid g \<and> (\<forall>s. task_ok s g \<longrightarrow> task_ok s g')"

lemma task_tables:
  assumes "task_step U F i g s t" "i < length (cs_tasks s)" "cs_tasks s ! i = g"
  obtains (same) g' where "cs_tasks t = (cs_tasks s)[i := g']" "succ_task g g'"
      "cs_inflight t = cs_inflight s" "cs_wsInbound t = cs_wsInbound s"
    | (request) g' where "cs_tasks t = (cs_tasks s)[i := g']" "task_rid g' = task_rid g" "\<And>x. task_ok x g'"
      "cs_inflight t = map_del (task_rid g) (cs_inflight s)" "cs_wsInbound t = cs_wsInbound s"
    | (websocket) g' where "cs_tasks t = (cs_tasks s)[i := g']" "task_rid g' = task_rid g" "\<And>x. task_ok x g'"
      "cs_inflight t = cs_inflight s" "cs_wsInbound t = map_del (task_rid g) (cs_wsInbound s)"
proof -
  have self: "cs_tasks s = (cs_tasks s)[i := g]" using assms(3) by (metis list_update_id)
  from assms(1) show thesis
  proof cases
    case (delete_own rid)
    then show thesis using request [of "G_Gone rid"] by (simp add: session_ops)
  next
    case (delete_ws rid)
    then show thesis using websocket [of "G_Gone rid"] by (simp add: session_ops)
  next
    case (body_read n a r p rid q w)
    then show thesis using self by (intro same [of g]) (auto simp: session_ops succ_task_def)
  next
    case (upgrade_send f e rid ch st)
    then show thesis using self by (intro same [of g]) (auto simp: session_ops succ_task_def)
  next
    case (pump_send f e rid ch)
    then show thesis using self by (intro same [of g]) (auto simp: session_ops succ_task_def)
  next
    case (pump_recv ch b c rid)
    then show thesis using self by (intro same [of g]) (auto simp: session_ops succ_task_def)
  next
    case (writer_call c w w' l rid a q)
    then show thesis using same [of "G_Handler rid a q w'"] by (simp add: session_ops succ_task_def)
  next
    case (handler_returns w e w' l rid a q)
    then show thesis using same [of "G_CloseBody rid a"] by (simp add: session_ops succ_task_def)
  next
    case (handler_panics m w e w' l rid a q)
    then show thesis using same [of "G_CloseBody rid a"] by (simp add: session_ops succ_task_def)
  next
    case (close_body rid a)
    then show thesis using same [of "G_CancelCtx rid a"] by (simp add: session_ops succ_task_def)
  next
    case (cancel_own rid a)
    then show thesis using same [of "G_DeleteRequest rid"] by (simp add: session_ops succ_task_def)
  next
    case (upgrade_done rid ch st)
    then show thesis using same [of "G_Pump rid ch"] by (simp add: session_ops succ_task_def)
  next
    case (upgrade_refused rid ch st)
    then show thesis using same [of "G_DeleteWS rid"] by (simp add: session_ops succ_task_def)
  next
    case (pump_leave rid ch)
    then show thesis using same [of "G_DeleteWS rid"] by (simp add: session_ops succ_task_def)
  qed
qed

lemma task_ok_le:
  assumes "task_ok s g" "cells_le s t"
    "request_feed (task_rid g) (cs_received t) = request_feed (task_rid g) (cs_received s)"
    "returned t = returned s" "marks t = marks s"
    "map_get (cs_inflight t) (task_rid g) = map_get (cs_inflight s) (task_rid g)"
    "map_get (cs_wsInbound t) (task_rid g) = map_get (cs_wsInbound s) (task_rid g)"
  shows "task_ok t g"
  using assms cell_ok_le [OF _ assms(2)] by (cases g) (auto simp: chan_owned_def)

lemma task_ok_after:
  assumes step: "task_step U F i (cs_tasks s ! i) s t" and i: "i < length (cs_tasks s)" and ok: "\<forall>g \<in> set (cs_tasks s). task_ok s g"
  shows "(\<forall>g \<in> set (cs_tasks s). task_rid g \<noteq> task_rid (cs_tasks s ! i) \<longrightarrow> task_ok t g) \<and>
    (\<exists>g'. cs_tasks t = (cs_tasks s)[i := g'] \<and> task_rid g' = task_rid (cs_tasks s ! i) \<and> task_ok t g')"
proof -
  note le = task_cells_le [OF step]
  have keeps: "task_ok t g" if "g \<in> set (cs_tasks s)"
      "map_get (cs_inflight t) (task_rid g) = map_get (cs_inflight s) (task_rid g)"
      "map_get (cs_wsInbound t) (task_rid g) = map_get (cs_wsInbound s) (task_rid g)" for g
    using le by (intro task_ok_le [OF bspec [OF ok that(1)] _ _ _ _ that(2,3)]) (simp_all add: returned_def)
  from step i refl show ?thesis
  proof (cases rule: task_tables)
    case (same g')
    have t: "task_ok t g" if "g \<in> set (cs_tasks s)" for g by (rule keeps [OF that]) (simp_all add: same(3,4))
    then have "task_ok t g'" using same(2) i by (simp add: succ_task_def)
    with t same show ?thesis unfolding succ_task_def by blast
  next
    case (request g')
    have "task_ok t g" if "g \<in> set (cs_tasks s)" "task_rid g \<noteq> task_rid (cs_tasks s ! i)" for g
      by (rule keeps [OF that(1)]) (simp_all add: request(4,5) that(2) go_map)
    with request show ?thesis by blast
  next
    case (websocket g')
    have "task_ok t g" if "g \<in> set (cs_tasks s)" "task_rid g \<noteq> task_rid (cs_tasks s ! i)" for g
      by (rule keeps [OF that(1)]) (simp_all add: websocket(4,5) that(2) go_map)
    with websocket show ?thesis by blast
  qed
qed

lemma task_owned_step:
  assumes ok: "owned s" and step: "task_step U F i (cs_tasks s ! i) s t" and i: "i < length (cs_tasks s)"
  shows "owned t"
  unfolding owned_def
proof
  let ?g = "cs_tasks s ! i"
  note le = task_cells_le [OF step]
  assume "distinct (start_ids (cs_received t))"
  with ok le have o: "distinct (map task_rid (cs_tasks s))"
    "set (map task_rid (cs_tasks s)) \<subseteq> set (start_ids (cs_received s))" "\<forall>g \<in> set (cs_tasks s). task_ok s g"
    by (simp_all add: owned_def)
  from task_ok_after [OF step i o(3)] obtain g' where others: "\<forall>g \<in> set (cs_tasks s). task_rid g \<noteq> task_rid ?g \<longrightarrow> task_ok t g"
    and g': "cs_tasks t = (cs_tasks s)[i := g']" "task_rid g' = task_rid ?g" "task_ok t g'" by blast
  have r: "map task_rid (cs_tasks t) = map task_rid (cs_tasks s)"
    using g'(1,2) i by (simp add: map_update) (metis list_update_id nth_map)
  have "task_ok t g" if "g \<in> set (cs_tasks t)" for g
    by (rule ball_list_update [OF o(1) i others g'(3)]) (use that g'(1) in simp)
  with o r le show "distinct (map task_rid (cs_tasks t)) \<and>
      set (map task_rid (cs_tasks t)) \<subseteq> set (start_ids (cs_received t)) \<and> (\<forall>g \<in> set (cs_tasks t). task_ok t g)"
    by simp
qed

subsection \<open>The receive loop and the goroutines it serves\<close>

lemma feed_snoc: "request_feed rid (fs @ [f]) = body_feed rid f (request_feed rid fs)"
  by (simp add: request_feed_def)

lemma start_ids_snoc [simp]: "start_ids (fs @ [f]) = start_ids fs @ start_id f"
  by (simp add: start_ids_def)

lemma cell_fed_write:
  "cell_fed fd p \<Longrightarrow> RequestBody_RequestId b = rid \<Longrightarrow>
     cell_fed (body_feed rid (Some (ServerFrame_RequestBody b)) fd) (pipe_write (RequestBody_Chunk b) p)"
  by (cases fd) (auto simp: cell_fed_def pipe_write_def pipe_done_def prefix_append)

lemma cell_fed_end:
  "cell_fed fd p \<Longrightarrow> cell_fed (if snd fd = None then (fst fd, Some e) else fd) (closeWrite (Some e) p)"
  "cell_fed fd p \<Longrightarrow> cell_fed (if snd fd = None then (fst fd, Some ErrEOF) else fd) (closeWrite None p)"
  by (cases fd; auto simp: cell_fed_def closeWrite_def)+

lemma cell_ok_fed:
  assumes "cell_ok s rid a" "\<not> returned s" "\<not> returned t" "length (cs_reqs t) = length (cs_reqs s)"
    "cell_fed (request_feed rid (cs_received t)) (ir_body (cs_reqs t ! a))"
    "cs_inflight t = cs_inflight s"
  shows "cell_ok t rid a"
  using assms by (simp add: cell_ok_def)

text \<open>A frame that changes the pipe at one entry of the table changes the feed of that request alone.\<close>

lemma cell_ok_frame:
  assumes ok: "cell_ok s rid a" and tab: "inflight_ok s" and nr: "\<not> returned s" "\<not> returned t"
    and t: "cs_inflight t = cs_inflight s" "cs_received t = cs_received s @ [f]" "length (cs_reqs t) = length (cs_reqs s)"
    and other: "\<And>rid fd. rid \<noteq> rid' \<Longrightarrow> body_feed rid f fd = fd"
    and at: "map_get (cs_inflight s) rid' = Some a'"
    and pipes: "\<And>b. b < length (cs_reqs s) \<Longrightarrow>
      ir_body (cs_reqs t ! b) = (if b = a' then h (ir_body (cs_reqs s ! a')) else ir_body (cs_reqs s ! b))"
    and fed: "\<And>fd p. cell_fed fd p \<Longrightarrow> cell_fed (body_feed rid' f fd) (h p)"
  shows "cell_ok t rid a"
proof (rule cell_ok_fed [OF ok nr t(3) _ t(1)])
  have a: "a < length (cs_reqs s)" "map_get (cs_inflight s) rid = Some a"
    "cell_fed (request_feed rid (cs_received s)) (ir_body (cs_reqs s ! a))"
    using ok nr by (auto simp: cell_ok_def)
  show "cell_fed (request_feed rid (cs_received t)) (ir_body (cs_reqs t ! a))"
  proof (cases "rid = rid'")
    case True
    then show ?thesis using a at fed [OF a(3)] pipes [OF a(1)] by (simp add: t(2) feed_snoc)
  next
    case False
    have "a \<noteq> a'"
    proof
      assume "a = a'"
      with a(2) at False have "(rid, a) \<in> set (cs_inflight s)" "(rid', a) \<in> set (cs_inflight s)"
        by (auto dest: map_get_in)
      with tab False show False
        by (auto simp: inflight_ok_def table_ok_def distinct_map dest: inj_onD [of snd _ "(rid, a)" "(rid', a)"])
    qed
    then show ?thesis using a pipes [OF a(1)] other [OF False] by (simp add: t(2) feed_snoc)
  qed
qed

lemma cell_ok_missing:
  assumes ok: "cell_ok s rid a" and nr: "\<not> returned s" "map_get (cs_inflight s) rid' = None"
    and other: "\<And>rid fd. rid \<noteq> rid' \<Longrightarrow> body_feed rid f fd = fd"
  shows "cell_ok (s\<lparr>cs_received := cs_received s @ [f]\<rparr>) rid a"
proof -
  have "rid \<noteq> rid'" using ok nr by (auto simp: cell_ok_def)
  then show ?thesis using ok other nr(1) by (simp add: cell_ok_def feed_snoc returned_def)
qed

lemma cell_ok_quiet:
  assumes "cell_ok s rid a" "cs_reqs t = cs_reqs s" "cs_inflight t = cs_inflight s" "\<not> returned s" "\<not> returned t"
    "cs_received t = cs_received s @ [f]" "\<And>fd. body_feed rid f fd = fd"
  shows "cell_ok t rid a"
  using assms by (simp add: cell_ok_def feed_snoc)

text \<open>A frame for the body of one request.\<close>

lemma cell_ok_request:
  assumes ok: "cell_ok s rid a" and tab: "inflight_ok s" and nr: "\<not> returned s"
    and other: "\<And>rid fd. rid \<noteq> rid' \<Longrightarrow> body_feed rid f fd = fd"
    and fed: "\<And>fd p. cell_fed fd p \<Longrightarrow> cell_fed (body_feed rid' f fd) (h p)"
    and none: "map_get (cs_inflight s) rid' = None \<Longrightarrow> t = s\<lparr>cs_received := cs_received s @ [f]\<rparr>"
    and some: "\<And>b. map_get (cs_inflight s) rid' = Some b \<Longrightarrow> \<not> returned t \<and> cs_inflight t = cs_inflight s \<and>
      cs_received t = cs_received s @ [f] \<and> length (cs_reqs t) = length (cs_reqs s) \<and>
      (\<forall>x < length (cs_reqs s). ir_body (cs_reqs t ! x) = (if x = b then h (ir_body (cs_reqs s ! b)) else ir_body (cs_reqs s ! x)))"
  shows "cell_ok t rid a"
proof (cases "map_get (cs_inflight s) rid'")
  case None
  with cell_ok_missing [OF ok nr None, of f] none other show ?thesis by blast
next
  case (Some b)
  with cell_ok_frame [OF ok tab nr _ _ _ _ _ Some, of t f h] some [OF Some] other fed show ?thesis by blast
qed

lemma dispatch_cell_start:
  assumes ok: "cell_ok s rid a" and pc: "cs_pc s = D_Recv" and r: "RequestStart_RequestId st \<noteq> rid"
  shows "cell_ok (start_request U F N st (s\<lparr>cs_received := cs_received s @ [Some (ServerFrame_RequestStart st)]\<rparr>)) rid a"
    (is "cell_ok ?t rid a")
proof (rule cell_ok_local [OF ok])
  show "request_feed rid (cs_received ?t) = request_feed rid (cs_received s)"
    using r by (auto simp: start_request_def session_ops Let_def feed_snoc split: option.splits)
  show "map_get (cs_inflight ?t) rid = map_get (cs_inflight s) rid"
    using r by (auto simp: start_request_def session_ops Let_def go_map split: option.splits)
qed (use ok pc in \<open>auto simp: start_request_def session_ops Let_def returned_def cell_ok_def nth_append split: option.splits\<close>)

lemma dispatch_cell_ok:
  assumes ok: "cell_ok s rid a" and tab: "inflight_ok s" and pc: "cs_pc s = D_Recv" and new: "rid \<notin> set (start_id f)"
  shows "cell_ok (dispatch U F N f (s\<lparr>cs_received := cs_received s @ [f]\<rparr>)) rid a"
proof (cases f)
  case None
  then show ?thesis using pc by (intro cell_ok_quiet [OF ok]) (auto simp: dispatch_def returned_def)
next
  have nr: "\<not> returned s" using pc by (simp add: returned_def)
  note request = cell_ok_request [OF ok tab nr] and ops = dispatch_def session_ops returned_def nth_list_update pc
  case (Some m)
  show ?thesis
  proof (cases m)
    case (ServerFrame_RequestStart st)
    then show ?thesis using Some new dispatch_cell_start [OF ok pc, of st] by (auto simp: dispatch_def)
  next
    case (ServerFrame_RequestBody b)
    then show ?thesis using Some cell_fed_write
      by (intro request [where rid' = "RequestBody_RequestId b" and h = "pipe_write (RequestBody_Chunk b)" and f = f]) (auto simp: ops)
  next
    case (ServerFrame_RequestEnd e)
    then show ?thesis using Some cell_fed_end(2)
      by (intro request [where rid' = "RequestEnd_RequestId e" and h = "closeWrite None" and f = f]) (auto simp: ops)
  next
    case (ServerFrame_CancelRequest c)
    then show ?thesis using Some cell_fed_end(1)
      by (intro request [where rid' = "CancelRequest_RequestId c" and h = "closeWrite (Some ErrCanceled)" and f = f]) (auto simp: ops)
  qed (use Some pc nr in \<open>(intro cell_ok_quiet [OF ok, where f = f];
      simp add: dispatch_def session_ops returned_def split: option.splits)\<close>)+
qed

lemma dispatch_chan_owned:
  assumes ok: "chan_owned s rid ch" and tab: "table_ok (cs_wsInbound s) (marks s)" and pc: "cs_pc s = D_Recv"
    and new: "rid \<notin> set (start_id f)"
  shows "chan_owned (dispatch U F N f (s\<lparr>cs_received := cs_received s @ [f]\<rparr>)) rid ch"
proof (cases f)
  case None
  then show ?thesis using ok pc by (simp add: dispatch_def chan_owned_def returned_def)
next
  case (Some m)
  show ?thesis
  proof (cases m)
    case (ServerFrame_RequestStart st)
    then have "RequestStart_RequestId st \<noteq> rid" using new Some by auto
    then show ?thesis using Some ServerFrame_RequestStart ok pc
      by (auto simp: dispatch_def start_request_def session_ops Let_def chan_owned_def returned_def marks_def
          nth_append go_map split: option.splits)
  next
    case (ServerFrame_WsClose c)
    show ?thesis
    proof (cases "map_get (cs_wsInbound s) (WebSocketClose_RequestId c)")
      case None
      then show ?thesis using Some ServerFrame_WsClose ok pc by (simp add: dispatch_def session_ops chan_owned_def returned_def)
    next
      case (Some ch')
      note c = table_ok_close [OF tab Some]
      have m: "marks (close_chan ch' (deleteWSInbound r (s\<lparr>cs_received := x\<rparr>))) = (marks s)[ch' := True]" for r x
        using c close_chan_open(2) [of ch' "deleteWSInbound r (s\<lparr>cs_received := x\<rparr>)"] by (simp add: session_ops)
      show ?thesis using Some ServerFrame_WsClose \<open>f = Some m\<close> ok pc c
        by (auto simp: dispatch_def getWSInbound_def chan_owned_def m nth_list_update)
          (auto simp: session_ops returned_def go_map)
    qed
  qed (use Some ok pc in \<open>auto simp: dispatch_def session_ops chan_owned_def returned_def split: option.splits\<close>)
qed

lemma dispatch_task_ok:
  assumes "task_ok s g" "inflight_ok s" "table_ok (cs_wsInbound s) (marks s)" "cs_pc s = D_Recv"
    "task_rid g \<notin> set (start_id f)"
  shows "task_ok (dispatch U F N f (s\<lparr>cs_received := cs_received s @ [f]\<rparr>)) g"
  using assms by (cases g) (auto intro: dispatch_cell_ok dispatch_chan_owned)

text \<open>The goroutine that a start frame creates, if it creates one.\<close>

lemma dispatch_tasks:
  obtains (none) "cs_tasks (dispatch U F N f s) = cs_tasks s"
    | (new) g st where "f = Some (ServerFrame_RequestStart st)" "cs_tasks (dispatch U F N f s) = cs_tasks s @ [g]"
      "task_rid g = RequestStart_RequestId st"
      "cs_pc s = D_Recv \<Longrightarrow> cs_received s = fs @ [f] \<Longrightarrow> task_ok (dispatch U F N f s) g"
proof (cases "\<exists>st. f = Some (ServerFrame_RequestStart st)")
  case False
  then have "cs_tasks (dispatch U F N f s) = cs_tasks s"
    by (cases f; cases "the f") (auto simp: dispatch_def session_ops split: option.splits)
  then show thesis by (rule none)
next
  case True
  then obtain st where f: "f = Some (ServerFrame_RequestStart st)" by blast
  let ?rid = "RequestStart_RequestId st"
  consider (ws) "isWebSocketUpgrade U st" | (refused) m where "\<not> isWebSocketUpgrade U st" "N (RequestStart_Method st) (requestURL st) = Some m"
    | (served) "\<not> isWebSocketUpgrade U st" "N (RequestStart_Method st) (requestURL st) = None" by blast
  then show thesis
  proof cases
    case ws
    then show thesis using f
      by (intro new [of st "G_Upgrade ?rid (length (cs_chans s)) st"])
        (simp_all add: dispatch_def start_request_def session_ops Let_def chan_owned_def marks_def returned_def go_map)
  next
    case refused
    then show thesis using f by (intro none) (simp add: dispatch_def start_request_def session_ops Let_def)
  next
    case served
    then show thesis using f
      by (intro new [of st "G_Handler ?rid (length (cs_reqs s)) (new_request U st) (newTunnelResponseWriter ?rid)"])
        (simp_all add: dispatch_def start_request_def session_ops Let_def cell_ok_def cell_fed_def returned_def go_map
          feed_snoc io_Pipe_def)
  qed
qed

lemma received_dispatch [simp]: "cs_received (dispatch U F N f s) = cs_received s"
proof (cases f)
  case (Some m)
  then show ?thesis
    by (cases m) (auto simp: dispatch_def start_request_def session_ops Let_def split: option.splits)
qed (simp add: dispatch_def)

lemma dispatch_owned:
  assumes ok: "owned s" and tab: "inflight_ok s" "table_ok (cs_wsInbound s) (marks s)" and pc: "cs_pc s = D_Recv"
  shows "owned (dispatch U F N f (s\<lparr>cs_received := cs_received s @ [f]\<rparr>))" (is "owned ?t")
  unfolding owned_def
proof
  assume "distinct (start_ids (cs_received ?t))"
  then have d: "distinct (start_ids (cs_received s))" "set (start_ids (cs_received s)) \<inter> set (start_id f) = {}" by simp_all
  with ok have o: "distinct (map task_rid (cs_tasks s))"
    "set (map task_rid (cs_tasks s)) \<subseteq> set (start_ids (cs_received s))" "\<forall>g \<in> set (cs_tasks s). task_ok s g"
    by (simp_all add: owned_def)
  have old: "\<forall>g \<in> set (cs_tasks s). task_ok ?t g"
  proof
    fix g
    assume g: "g \<in> set (cs_tasks s)"
    with o(2) d(2) have "task_rid g \<notin> set (start_id f)" by auto
    with g o(3) tab pc show "task_ok ?t g" by (intro dispatch_task_ok) auto
  qed
  show "distinct (map task_rid (cs_tasks ?t)) \<and> set (map task_rid (cs_tasks ?t)) \<subseteq> set (start_ids (cs_received ?t)) \<and>
      (\<forall>g \<in> set (cs_tasks ?t). task_ok ?t g)"
  proof (cases rule: dispatch_tasks [where U = U and F = F and N = N and f = f and
        s = "s\<lparr>cs_received := cs_received s @ [f]\<rparr>" and fs = "cs_received s"])
    case none
    then show ?thesis using o old by auto
  next
    case (new g st)
    then have "task_ok ?t g" using pc by simp
    then show ?thesis using o old new d(2) by auto
  qed
qed

lemma owned_same:
  assumes "owned s" "cells_le s t" "cs_received t = cs_received s" "returned t = returned s" "marks t = marks s"
    "cs_inflight t = cs_inflight s" "cs_wsInbound t = cs_wsInbound s" "cs_tasks t = cs_tasks s"
  shows "owned t"
  using assms task_ok_le [OF _ assms(2)] unfolding owned_def by metis

lemma end_request_cell:
  assumes "b < length (cs_reqs s)"
  shows "p_fed (ir_body (cs_reqs (end_request a s) ! b)) = p_fed (ir_body (cs_reqs s ! b))"
    and "p_rerr (ir_body (cs_reqs s ! b)) \<noteq> None \<or> b = a \<Longrightarrow> p_rerr (ir_body (cs_reqs (end_request a s) ! b)) \<noteq> None"
    and "ir_cancelled (cs_reqs s ! b) \<or> b = a \<Longrightarrow> ir_cancelled (cs_reqs (end_request a s) ! b)"
    and "length (cs_reqs (end_request a s)) = length (cs_reqs s)"
  using assms
  by (auto simp: end_request_def nth_upd_pipe nth_cancel_ctx closeRead_def closeWrite_def)

lemma deleteRequest_reqs [simp]: "cs_reqs (deleteRequest rid s) = cs_reqs s"
  by (simp add: deleteRequest_def)

lemma end_requests_cell:
  assumes "b < length (cs_reqs s)"
  defines "t \<equiv> \<lambda>es s. fold (\<lambda>(rid, a) x. deleteRequest rid (end_request a x)) es s"
  shows "length (cs_reqs (t es s)) = length (cs_reqs s) \<and>
    p_fed (ir_body (cs_reqs (t es s) ! b)) = p_fed (ir_body (cs_reqs s ! b)) \<and>
    (p_rerr (ir_body (cs_reqs s ! b)) \<noteq> None \<or> b \<in> snd ` set es \<longrightarrow> p_rerr (ir_body (cs_reqs (t es s) ! b)) \<noteq> None) \<and>
    (ir_cancelled (cs_reqs s ! b) \<or> b \<in> snd ` set es \<longrightarrow> ir_cancelled (cs_reqs (t es s) ! b))"
  using assms(1)
proof (induction es arbitrary: s)
  case Nil
  then show ?case by (simp add: t_def)
next
  case (Cons e es)
  obtain rid a where e: "e = (rid, a)" by (cases e)
  note c = end_request_cell [OF Cons.prems, of a]
  have "b < length (cs_reqs (deleteRequest rid (end_request a s)))" using c(4) Cons.prems by simp
  from Cons.IH [OF this] c e show ?case by (auto simp: t_def)
qed

lemma fold_marks: "length (fold (\<lambda>ch m. m[ch := True]) cs m) = length m"
  "ch < length m \<Longrightarrow> fold (\<lambda>ch m. m[ch := True]) cs m ! ch \<longleftrightarrow> ch \<in> set cs \<or> m ! ch"
proof (induction cs arbitrary: m)
  case (Cons c cs)
  { case 1
    then show ?case using Cons.IH(1) by simp
  next
    case 2
    then show ?case using Cons.IH(2) [of "m[c := True]"] by (cases "c = ch") auto }
qed simp_all

lemma cleanup_task_ok:
  assumes g: "task_ok s g" and nr: "\<not> returned s" and tab: "table_ok (cs_wsInbound s) (marks s)"
  shows "task_ok (session_cleanup s\<lparr>cs_pc := D_Returned e\<rparr>) g"
proof -
  let ?t = "session_cleanup s\<lparr>cs_pc := D_Returned e\<rparr>"
  have cell: "cell_ok ?t rid a" if "cell_ok s rid a" for rid a
  proof -
    from that nr have a: "a < length (cs_reqs s)" "a \<in> snd ` set (cs_inflight s)"
      "cell_fed (request_feed rid (cs_received s)) (ir_body (cs_reqs s ! a))"
      by (force simp: cell_ok_def dest: map_get_in)+
    with end_requests_cell [OF a(1), of "cs_inflight s"] show ?thesis
      by (auto simp: cell_ok_def session_cleanup_def returned_def pipe_done_def cell_fed_def)
  qed
  have "marks ?t = fold (\<lambda>ch m. m[ch := True]) (map snd (cs_wsInbound s)) (marks s)"
    using close_all [of "cs_wsInbound s" "end_requests s"] tab by (simp add: session_cleanup_def table_ok_def)
  then have "chan_owned ?t rid ch" if "chan_owned s rid ch" for rid ch
    using that by (force simp: chan_owned_def fold_marks dest: map_get_in)
  with cell g show ?thesis by (cases g) auto
qed

lemma recv_owned:
  assumes ok: "owned s" and tab: "inflight_ok s" "chans_ok s" and step: "recv_step U F N s t"
  shows "owned t"
  using step
proof cases
  case (recv_frame f)
  then have "table_ok (cs_wsInbound s) (marks s)" using tab(2) by (simp add: chans_ok_def returned_def)
  then show ?thesis using dispatch_owned [OF ok tab(1)] recv_frame by simp
next
  case (write_failed a)
  have "cells_le s (upd_pipe a (\<lambda>p. p\<lparr>p_pending := None\<rparr>) s)" by (simp add: cells_le_def nth_upd_pipe pipe_le_def)
  then show ?thesis using write_failed
    by (intro owned_same [OF ok]) (simp_all add: cells_le_def returned_def session_ops)
next
  case (inbound_put ch b)
  then have "send_chan ch b s = s\<lparr>cs_chans := (cs_chans s)[ch := (cs_chans s ! ch)\<lparr>ic_chan := chan_send b (ic_chan (cs_chans s ! ch))\<rparr>]\<rparr>"
    using tab(2) by (intro send_chan_open) (auto simp: chans_ok_def)
  then show ?thesis using inbound_put
    by (intro owned_same [OF ok]) (simp_all add: cells_le_same returned_def)
next
  case (recv_cleanup e)
  then have nr: "\<not> returned s" "table_ok (cs_wsInbound s) (marks s)" using tab(2) by (simp_all add: returned_def chans_ok_def)
  have "cs_tasks t = cs_tasks s" "cs_received t = cs_received s" by (simp_all add: recv_cleanup session_cleanup_def)
  then show ?thesis using ok cleanup_task_ok [OF _ nr] recv_cleanup by (auto simp: owned_def)
qed (rule owned_same [OF ok]; simp add: cells_le_same returned_def)+

subsection \<open>The invariant of a session\<close>

text \<open>Every cell has a goroutine that will close its reading end, or has had one.\<close>

definition reader :: "nat \<Rightarrow> task \<Rightarrow> bool" where
  "reader a g \<longleftrightarrow> (\<exists>rid q w. g = G_Handler rid a q w) \<or> (\<exists>rid. g = G_CloseBody rid a)"

definition served_ok :: "client_session \<Rightarrow> bool" where
  "served_ok s \<longleftrightarrow>
     (\<forall>a < length (cs_reqs s). p_rerr (ir_body (cs_reqs s ! a)) \<noteq> None \<or> (\<exists>g \<in> set (cs_tasks s). reader a g))"

definition write_ok :: "client_session \<Rightarrow> bool" where
  "write_ok s \<longleftrightarrow> (\<forall>a. cs_pc s = D_Write a \<longrightarrow> a < length (cs_reqs s))"

definition session_inv :: "client_session \<Rightarrow> bool" where
  "session_inv s \<longleftrightarrow> chans_ok s \<and> pipes_ok s \<and> inflight_ok s \<and> owned s \<and> served_ok s \<and> write_ok s"

lemma inflight_ok_cong:
  "inflight_ok s \<Longrightarrow> length (cs_reqs t) = length (cs_reqs s) \<Longrightarrow>
     cs_inflight t = cs_inflight s \<or> (\<exists>rid. cs_inflight t = map_del rid (cs_inflight s)) \<Longrightarrow> inflight_ok t"
  unfolding inflight_ok_def using table_ok_del by (metis map_replicate_const)

lemma inflight_ok_start: "inflight_ok s \<Longrightarrow> inflight_ok (start_request U F N st s)"
  using table_ok_put [of "cs_inflight s" "map (\<lambda>_. False) (cs_reqs s)" "RequestStart_RequestId st"]
  by (auto simp: inflight_ok_def start_request_def session_ops Let_def split: option.splits)

lemma inflight_ok_dispatch:
  assumes "inflight_ok s"
  shows "inflight_ok (dispatch U F N f s)"
proof (cases f)
  case (Some m)
  show ?thesis
  proof (cases m)
    case (ServerFrame_RequestStart st)
    then show ?thesis using Some assms by (simp add: dispatch_def inflight_ok_start)
  qed (use Some in \<open>auto intro!: inflight_ok_cong [OF assms] simp: dispatch_def session_ops split: option.splits\<close>)
qed (use assms in \<open>simp add: dispatch_def\<close>)

lemma inflight_ok_end_requests:
  "inflight_ok s \<Longrightarrow> inflight_ok (fold (\<lambda>(rid, a) x. deleteRequest rid (end_request a x)) es s)"
proof (induction es arbitrary: s)
  case (Cons e es)
  obtain rid a where e: "e = (rid, a)" by (cases e)
  have "inflight_ok (deleteRequest rid (end_request a s))"
    by (rule inflight_ok_cong [OF Cons.prems]) (auto simp: end_request_def session_ops)
  then show ?case using Cons.IH e by simp
qed simp

lemma recv_inflight_ok:
  assumes ok: "inflight_ok s" and step: "recv_step U F N s t"
  shows "inflight_ok t"
  using step
proof cases
  case (recv_frame f)
  have "inflight_ok (s\<lparr>cs_received := cs_received s @ [f]\<rparr>)" using ok by (simp add: inflight_ok_def)
  then show ?thesis using recv_frame inflight_ok_dispatch by simp
next
  case (recv_cleanup e)
  have "inflight_ok (end_requests s)" by (rule inflight_ok_end_requests [OF ok])
  then show ?thesis using recv_cleanup by (simp add: session_cleanup_def inflight_ok_def)
next
  case (inbound_put ch b)
  then show ?thesis using ok by (simp add: inflight_ok_def send_chan_def)
qed (use ok in \<open>simp_all add: inflight_ok_def session_ops map_replicate_const\<close>)

lemma task_inflight_ok:
  assumes "inflight_ok s" "task_step U F i (cs_tasks s ! i) s t" "i < length (cs_tasks s)"
  shows "inflight_ok t"
proof -
  have "length (cs_reqs t) = length (cs_reqs s)" using task_cells_le [OF assms(2)] by (simp add: cells_le_def)
  moreover have "cs_inflight t = cs_inflight s \<or> (\<exists>rid. cs_inflight t = map_del rid (cs_inflight s))"
    using assms(2,3) refl by (cases rule: task_tables) auto
  ultimately show ?thesis using inflight_ok_cong [OF assms(1)] by blast
qed

lemma served_ok_mono:
  assumes "served_ok s" "length (cs_reqs t) = length (cs_reqs s)" "set (cs_tasks s) \<subseteq> set (cs_tasks t)"
    "\<And>a. a < length (cs_reqs s) \<Longrightarrow> p_rerr (ir_body (cs_reqs s ! a)) \<noteq> None \<Longrightarrow> p_rerr (ir_body (cs_reqs t ! a)) \<noteq> None"
  shows "served_ok t"
  using assms unfolding served_ok_def by (metis subsetD)

lemma tasks_ops [simp]: "cs_tasks (upd_pipe a f s) = cs_tasks s" "cs_tasks (cancel_ctx a s) = cs_tasks s"
  by (simp_all add: session_ops)

lemmas quiet_ops = getRequest_def getWSInbound_def deleteWSInbound_def deleteRequest_def session_send_def send_def

lemma dispatch_quiet:
  assumes "\<nexists>st. f = Some (ServerFrame_RequestStart st)"
  shows "cs_tasks (dispatch U F N f s) = cs_tasks s \<and> length (cs_reqs (dispatch U F N f s)) = length (cs_reqs s) \<and>
    (\<forall>a < length (cs_reqs s). p_rerr (ir_body (cs_reqs (dispatch U F N f s) ! a)) = p_rerr (ir_body (cs_reqs s ! a)))"
  using assms
  by (cases f; cases "the f")
    (auto simp: dispatch_def quiet_ops nth_upd_pipe nth_cancel_ctx pipe_write_def closeWrite_def split: option.splits)

lemma served_ok_dispatch:
  assumes ok: "served_ok s"
  shows "served_ok (dispatch U F N f s)"
proof (cases "\<exists>st. f = Some (ServerFrame_RequestStart st)")
  case True
  then obtain st where f: "f = Some (ServerFrame_RequestStart st)" by blast
  show ?thesis
  proof (cases "isWebSocketUpgrade U st \<or> N (RequestStart_Method st) (requestURL st) \<noteq> None")
    case True
    then show ?thesis using f
      by (intro served_ok_mono [OF ok]) (auto simp: dispatch_def start_request_def session_ops Let_def)
  next
    case False
    then show ?thesis using f ok
      by (auto simp: served_ok_def dispatch_def start_request_def session_ops Let_def nth_append reader_def less_Suc_eq)
  qed
next
  case False
  from dispatch_quiet [OF this, of U F N s] show ?thesis by (intro served_ok_mono [OF ok]) auto
qed

lemma end_requests_length:
  "length (cs_reqs (fold (\<lambda>(rid, a) x. deleteRequest rid (end_request a x)) es s)) = length (cs_reqs s)"
  by (induction es arbitrary: s) (auto simp: end_request_def)

lemma recv_served_ok:
  assumes ok: "served_ok s" and step: "recv_step U F N s t"
  shows "served_ok t"
  using step
proof cases
  case (recv_frame f)
  have "served_ok (s\<lparr>cs_received := cs_received s @ [f]\<rparr>)" using ok by (simp add: served_ok_def)
  then show ?thesis using recv_frame served_ok_dispatch by simp
next
  case (write_failed a)
  then show ?thesis by (intro served_ok_mono [OF ok]) (auto simp: nth_upd_pipe)
next
  case (inbound_put ch b)
  then show ?thesis by (intro served_ok_mono [OF ok]) (auto simp: send_chan_def)
next
  case (recv_cleanup e)
  then show ?thesis using recv_cleanup end_requests_cell [of _ s "cs_inflight s"]
    by (intro served_ok_mono [OF ok]) (simp_all add: session_cleanup_def end_requests_length)
qed (use ok in \<open>simp_all add: served_ok_def\<close>)

lemma task_reader:
  assumes step: "task_step U F i g s t" and i: "i < length (cs_tasks s)" "cs_tasks s ! i = g"
    and r: "reader a g" "a < length (cs_reqs s)"
  shows "p_rerr (ir_body (cs_reqs t ! a)) \<noteq> None \<or> (\<exists>g \<in> set (cs_tasks t). reader a g)"
proof -
  have next_reader: "\<exists>g \<in> set (cs_tasks t). reader a g" if "cs_tasks t = (cs_tasks s)[i := g']" "reader a g'" for g'
    using that set_update_memI [OF i(1)] by metis
  from step show ?thesis
  proof cases
    case (body_read n a' x p rid q w)
    then have "g \<in> set (cs_tasks t)" using i nth_mem by force
    then show ?thesis using r(1) by blast
  next
    case (writer_call c w w' l rid a' q)
    then show ?thesis using next_reader [of "G_Handler rid a' q w'"] r(1) by (auto simp: reader_def set_task_def)
  next
    case (handler_returns w e w' l rid a' q)
    then show ?thesis using next_reader [of "G_CloseBody rid a'"] r(1) by (auto simp: reader_def set_task_def)
  next
    case (handler_panics m w e w' l rid a' q)
    then show ?thesis using next_reader [of "G_CloseBody rid a'"] r(1) by (auto simp: reader_def set_task_def)
  next
    case (close_body rid a')
    then show ?thesis using r by (auto simp: reader_def set_task_def nth_upd_pipe closeRead_def)
  qed (use r(1) in \<open>simp_all add: reader_def\<close>)
qed

lemma task_served_ok:
  assumes ok: "served_ok s" and step: "task_step U F i (cs_tasks s ! i) s t" and i: "i < length (cs_tasks s)"
  shows "served_ok t"
  unfolding served_ok_def
proof (intro allI impI)
  fix a
  assume "a < length (cs_reqs t)"
  note le = task_cells_le [OF step]
  with \<open>a < length (cs_reqs t)\<close> have a: "a < length (cs_reqs s)" by (simp add: cells_le_def)
  consider "p_rerr (ir_body (cs_reqs s ! a)) \<noteq> None" | j where "j < length (cs_tasks s)" "reader a (cs_tasks s ! j)"
    using ok a unfolding served_ok_def by (metis in_set_conv_nth)
  then show "p_rerr (ir_body (cs_reqs t ! a)) \<noteq> None \<or> (\<exists>g \<in> set (cs_tasks t). reader a g)"
  proof cases
    case 1
    then show ?thesis using le a by (auto simp: cells_le_def pipe_le_def)
  next
    case (2 j)
    show ?thesis
    proof (cases "j = i")
      case True
      then show ?thesis using task_reader [OF step i refl _ a] 2 by blast
    next
      case False
      obtain g' where "cs_tasks t = (cs_tasks s)[i := g']" using step i refl by (cases rule: task_tables) auto
      with 2(1) False have "cs_tasks s ! j \<in> set (cs_tasks t)"
        by (metis length_list_update nth_list_update_neq nth_mem)
      then show ?thesis using 2(2) by blast
    qed
  qed
qed

lemma dispatch_pc:
  assumes "cs_pc s = D_Recv" "cs_pc (dispatch U F N f s) = D_Write a"
  shows "\<exists>rid. map_get (cs_inflight s) rid = Some a \<and> length (cs_reqs (dispatch U F N f s)) = length (cs_reqs s)"
  using assms
  by (cases f; cases "the f")
    (auto simp: dispatch_def start_request_def session_ops Let_def split: option.splits if_splits)

lemma recv_write_ok:
  assumes "inflight_ok s" "recv_step U F N s t"
  shows "write_ok t"
  using assms(2)
proof cases
  case (recv_frame f)
  then show ?thesis unfolding write_ok_def
    using dispatch_pc [of "s\<lparr>cs_received := cs_received s @ [f]\<rparr>" U F N f] assms(1)
    by (fastforce simp: inflight_ok_def table_ok_def dest!: map_get_in)
qed (simp_all add: write_ok_def)

lemma task_write_ok: "write_ok s \<Longrightarrow> task_step U F i g s t \<Longrightarrow> write_ok t"
  using task_cells_le [of U F i g s t] by (simp add: write_ok_def cells_le_def)

lemma session_inv_step:
  assumes inv: "session_inv s" and step: "client_step U F N s t"
  shows "session_inv t"
  using step
proof cases
  case by_recv
  then show ?thesis using inv unfolding session_inv_def
    using recv_chans_ok recv_pipes_ok recv_inflight_ok recv_owned recv_served_ok recv_write_ok by metis
next
  case (by_task i)
  then show ?thesis using inv unfolding session_inv_def
    using task_chans_ok task_pipes_ok task_inflight_ok task_owned_step task_served_ok task_write_ok by metis
next
  case (by_ctx e)
  have o: "chans_ok s" "pipes_ok s" "inflight_ok s" "owned s" "served_ok s" "write_ok s" using inv by (simp_all add: session_inv_def)
  have "chans_ok t" by (rule chans_ok_cong [OF o(1)]) (simp_all add: by_ctx)
  moreover have "pipes_ok t" by (rule pipes_ok_cong [OF o(2)]) (simp_all add: by_ctx)
  moreover have "inflight_ok t" by (rule inflight_ok_cong [OF o(3)]) (simp_all add: by_ctx)
  moreover have "owned t" by (rule owned_same [OF o(4)]) (simp_all add: by_ctx cells_le_same returned_def)
  moreover have "served_ok t" by (rule served_ok_mono [OF o(5)]) (simp_all add: by_ctx)
  moreover have "write_ok t" using o(6) by (simp add: by_ctx write_ok_def)
  ultimately show ?thesis by (simp add: session_inv_def)
qed

interpretation client: invariant_system "client_init F cfg" "client_step U F N" session_inv for U F N cfg
proof
  show "session_inv s" if "client_init F cfg s" for s
    using that by (elim client_initE)
      (simp add: session_inv_def chans_ok_def table_ok_def map_wf_def pipes_ok_def inflight_ok_def owned_def served_ok_def write_ok_def)
qed (rule session_inv_step)

end
