(* ===== verification/ClientServe.thy ===== *)
theory ClientServe
  imports ClientBodies
begin

text \<open>
  What a session of the tunnel client promises (\<open>runSession\<close> of \<open>tunnel/client.go\<close>), as theorems over
  every interleaving of its receive loop, its goroutines and its context.
\<close>

subsection \<open>A concrete session\<close>

abbreviation ok_stream :: stream where
  "ok_stream \<equiv> \<lambda>l f. None"

abbreviation ok_request :: "string \<Rightarrow> string \<Rightarrow> string option" where
  "ok_request \<equiv> \<lambda>m u. None"

abbreviation demo_reachable :: "client_session \<Rightarrow> bool" where
  "demo_reachable \<equiv> reachable (client_init ok_stream demo_client_Config) (client_step no_tables ok_stream ok_request)"

definition demo_RequestStart :: "Header option list \<Rightarrow> RequestStart" where
  "demo_RequestStart hs =
     \<lparr>RequestStart_RequestId = ''1'', RequestStart_Method = ''POST'', RequestStart_Scheme = ''https'',
      RequestStart_Host = ''demo.example.com'', RequestStart_Path = ''/x'', RequestStart_RawQuery = [],
      RequestStart_Headers = hs, RequestStart_RemoteAddr = ''192.0.2.1:80'', RequestStart_RawPath = []\<rparr>"

definition demo_recv :: "ServerFrame_Msg \<Rightarrow> client_session \<Rightarrow> client_session" where
  "demo_recv m s = dispatch no_tables ok_stream ok_request (Some m) (s\<lparr>cs_received := cs_received s @ [Some m]\<rparr>)"

definition demo_s0 :: client_session where
  "demo_s0 = projr (runSession_open ok_stream demo_client_Config)"

definition demo_s1 :: client_session where
  "demo_s1 = demo_recv (ServerFrame_RequestStart (demo_RequestStart [])) demo_s0"

definition demo_s2 :: client_session where
  "demo_s2 = demo_recv (ServerFrame_RequestBody \<lparr>RequestBody_RequestId = ''1'', RequestBody_Chunk = ''hello''\<rparr>) demo_s1"

definition demo_s3 :: client_session where
  "demo_s3 = upd_pipe 0 (\<lambda>_. snd (the (pipe_read 512 (ir_body (cs_reqs demo_s2 ! 0))))) demo_s2\<lparr>cs_pc := D_Recv\<rparr>"

definition demo_s4 :: client_session where
  "demo_s4 = demo_recv (ServerFrame_RequestEnd \<lparr>RequestEnd_RequestId = ''1''\<rparr>) demo_s3"

definition demo_s5 :: client_session where
  "demo_s5 = session_cleanup demo_s4\<lparr>cs_pc := D_Returned None\<rparr>"

lemma demo_reach_init: "demo_reachable demo_s0"
  by (rule reach_init) (simp add: client_init_def runSession_open_def send_def demo_s0_def)

lemma demo_reach_recv: "demo_reachable s \<Longrightarrow> cs_pc s = D_Recv \<Longrightarrow> demo_reachable (demo_recv m s)"
  unfolding demo_recv_def by (erule reach_step) (rule client_step.by_recv, rule recv_step.recv_frame)

lemma demo_reach_task:
  "demo_reachable s \<Longrightarrow> cs_tasks s = [g] \<Longrightarrow> task_step no_tables ok_stream 0 g s t \<Longrightarrow> demo_reachable t"
  by (erule reach_step) (rule client_step.by_task [of 0], simp_all)

lemma demo_reach_step: "demo_reachable s \<Longrightarrow> recv_step no_tables ok_stream ok_request s t \<Longrightarrow> demo_reachable t"
  by (erule reach_step) (rule client_step.by_recv)

definition demo_task :: task where
  "demo_task = G_Handler ''1'' 0 (new_request no_tables (demo_RequestStart [])) (newTunnelResponseWriter ''1'')"

lemmas demo_defs = demo_s0_def demo_s1_def demo_s2_def demo_s3_def demo_s4_def demo_s5_def demo_task_def demo_recv_def
  dispatch_def start_request_def session_ops runSession_open_def isWebSocketUpgrade_def demo_RequestStart_def Let_def
  map_get_def map_put_def map_del_def io_Pipe_def pipe_write_def pipe_done_def pipe_read_def closeWrite_def
  session_cleanup_def end_request_def

lemma demo_session_facts:
  "cs_pc demo_s0 = D_Recv" "cs_pc demo_s1 = D_Recv" "cs_pc demo_s2 = D_Write 0" "cs_pc demo_s3 = D_Recv"
  "cs_pc demo_s4 = D_Recv" "cs_tasks demo_s2 = [demo_task]" "cs_tasks demo_s4 = [demo_task]" "cs_tasks demo_s5 = [demo_task]"
  by (simp_all add: demo_defs)

lemma demo_s4_reachable: "demo_reachable demo_s4"
proof -
  note f = demo_session_facts
  have 2: "demo_reachable demo_s2"
    unfolding demo_s2_def demo_s1_def
    using demo_reach_recv [OF demo_reach_recv [OF demo_reach_init f(1)]] f(2) unfolding demo_s1_def by blast
  let ?s = "upd_pipe 0 (\<lambda>_. snd (the (pipe_read 512 (ir_body (cs_reqs demo_s2 ! 0))))) demo_s2"
  have "pipe_read 512 (ir_body (cs_reqs demo_s2 ! 0)) =
     Some (Inr ''hello'', snd (the (pipe_read 512 (ir_body (cs_reqs demo_s2 ! 0)))))" by code_simp
  from demo_reach_task [OF 2 f(6), unfolded demo_task_def, OF task_step.body_read, OF this]
  have "demo_reachable ?s" .
  moreover have "recv_step no_tables ok_stream ok_request ?s demo_s3"
    unfolding demo_s3_def by (rule recv_step.write_taken [of _ 0]) code_simp+
  ultimately have "demo_reachable demo_s3" by (rule demo_reach_step)
  then show ?thesis unfolding demo_s4_def by (rule demo_reach_recv) (rule f(4))
qed

subsection \<open>The request a handler gets\<close>

fun task_request :: "task \<Rightarrow> (string \<times> client_request) option" where
  "task_request (G_Handler rid a q w) = Some (rid, q)"
| "task_request _ = None"

definition request_from :: "go_unicode \<Rightarrow> ServerFrame list \<Rightarrow> task \<Rightarrow> bool" where
  "request_from U fs g \<longleftrightarrow>
     (\<forall>rid q. task_request g = Some (rid, q) \<longrightarrow>
        (\<exists>st. Some (ServerFrame_RequestStart st) \<in> set fs \<and> RequestStart_RequestId st = rid \<and> q = new_request U st))"

definition handler_requests :: "go_unicode \<Rightarrow> client_session \<Rightarrow> bool" where
  "handler_requests U s \<longleftrightarrow> (\<forall>g \<in> set (cs_tasks s). request_from U (cs_received s) g)"

lemma in_set_update: "x \<in> set (xs[i := y]) \<Longrightarrow> x \<in> set xs \<or> x = y"
  using set_update_subset_insert by fastforce

lemma task_request_step:
  "task_step U F i g s t \<Longrightarrow> h \<in> set (cs_tasks t) \<Longrightarrow>
     h \<in> set (cs_tasks s) \<or> task_request h = None \<or> task_request h = task_request g"
  by (erule task_step.cases) (auto simp: session_ops dest!: in_set_update)

lemma handler_requests_task:
  assumes ok: "handler_requests U s" and step: "task_step U F i (cs_tasks s ! i) s t" and i: "i < length (cs_tasks s)"
  shows "handler_requests U t"
  unfolding handler_requests_def
proof
  fix h
  assume h: "h \<in> set (cs_tasks t)"
  have r: "cs_received t = cs_received s" using task_cells_le [OF step] by simp
  from task_request_step [OF step h] ok nth_mem [OF i] show "request_from U (cs_received t) h"
    unfolding handler_requests_def r by (auto simp: request_from_def)
qed

lemma request_from_mono: "request_from U fs g \<Longrightarrow> request_from U (fs @ [f]) g"
  unfolding request_from_def by auto

lemma handler_requests_dispatch:
  assumes "handler_requests U s"
  shows "handler_requests U (dispatch U F N f (s\<lparr>cs_received := cs_received s @ [f]\<rparr>))"
proof (cases "\<exists>st. f = Some (ServerFrame_RequestStart st)")
  case False
  from dispatch_quiet [OF this, of U F N "s\<lparr>cs_received := cs_received s @ [f]\<rparr>"] show ?thesis
    using assms request_from_mono by (simp add: handler_requests_def)
next
  case True
  then obtain st where f: "f = Some (ServerFrame_RequestStart st)" by blast
  have "request_from U (cs_received s @ [f]) (G_Handler (RequestStart_RequestId st) a (new_request U st) w)" for a w
    using f by (auto simp: request_from_def)
  moreover have "request_from U (cs_received s @ [f]) (G_Upgrade rid ch st)" for rid ch by (simp add: request_from_def)
  moreover have "request_from U (cs_received s @ [f]) g" if "g \<in> set (cs_tasks s)" for g
    using that assms request_from_mono by (auto simp: handler_requests_def)
  ultimately show ?thesis using f
    by (cases "isWebSocketUpgrade U st"; cases "N (RequestStart_Method st) (requestURL st)")
      (simp_all add: handler_requests_def dispatch_def start_request_def session_ops Let_def)
qed

interpretation requests: invariant_system "client_init F cfg" "client_step U F N" "handler_requests U" for U F N cfg
proof
  show "handler_requests U s" if "client_init F cfg s" for s
    using that by (elim client_initE) (simp add: handler_requests_def)
  show "handler_requests U t" if ok: "handler_requests U s" and step: "client_step U F N s t" for s t
    using step
  proof cases
    case by_recv
    then show ?thesis
    proof cases
      case (recv_frame f)
      then show ?thesis using handler_requests_dispatch [OF ok] by simp
    next
      case (recv_cleanup e)
      then show ?thesis using ok by (simp add: handler_requests_def session_cleanup_def)
    qed (use ok in \<open>simp_all add: handler_requests_def session_ops send_chan_def\<close>)
  next
    case (by_task i)
    then show ?thesis using handler_requests_task [OF ok] by blast
  next
    case (by_ctx e)
    then show ?thesis using ok by (simp add: handler_requests_def)
  qed
qed

subsection \<open>What a session promises\<close>

lemma client_no_panic_parts:
  assumes "reachable (client_init F cfg) (client_step U F N) s"
  shows "\<not> cs_panic s"
    and "\<not> returned s \<Longrightarrow> getWSInbound rid s = Some ch \<Longrightarrow> ch < length (cs_chans s) \<and> \<not> ic_closed (cs_chans s ! ch)"
proof -
  have ok: "chans_ok s" using client.reachable_inv [OF assms] by (simp add: session_inv_def)
  then show "\<not> cs_panic s" by (simp add: chans_ok_def)
  show "ch < length (cs_chans s) \<and> \<not> ic_closed (cs_chans s ! ch)" if "\<not> returned s" "getWSInbound rid s = Some ch"
    using table_ok_close(1,2) [of "cs_wsInbound s" "marks s" rid ch] ok that
    by (auto simp: chans_ok_def getWSInbound_def marks_def)
qed

text \<open>
  C29: the receive loop of the tunnel client never panics on a channel: in no interleaving does it send on
  or close a closed WebSocket channel, whatever frames the edge sends (also with repeated request ids),
  and while the session runs every channel in its table is open.
\<close>
theorem client_no_panic:
  assumes "reachable (client_init F cfg) (client_step U F N) s"
  shows "\<not> cs_panic s \<and>
    (\<forall>rid ch. \<not> returned s \<and> getWSInbound rid s = Some ch \<longrightarrow> ch < length (cs_chans s) \<and> \<not> ic_closed (cs_chans s ! ch))"
  using client_no_panic_parts [OF assms] by blast

theorem client_no_panic_witness: "\<not> cs_panic demo_s4"
  using client_no_panic [OF demo_s4_reachable] by blast

lemma handler_cell:
  assumes "reachable (client_init F cfg) (client_step U F N) s" "distinct (start_ids (cs_received s))"
    "G_Handler rid a q w \<in> set (cs_tasks s)"
  shows "pipe_ok (cs_pc s = D_Write a) (ir_body (cs_reqs s ! a))" "cell_ok s rid a"
proof -
  have inv: "session_inv s" by (rule client.reachable_inv [OF assms(1)])
  then have "task_ok s (G_Handler rid a q w)" using assms(2,3) unfolding session_inv_def owned_def by blast
  then show "cell_ok s rid a" by simp
  then show "pipe_ok (cs_pc s = D_Write a) (ir_body (cs_reqs s ! a))"
    using inv by (simp add: session_inv_def pipes_ok_def cell_ok_def)
qed

lemma request_body_delivered_parts:
  assumes "reachable (client_init F cfg) (client_step U F N) s" "distinct (start_ids (cs_received s))"
    "G_Handler rid a q w \<in> set (cs_tasks s)"
  shows "prefix (p_got (ir_body (cs_reqs s ! a))) (concat (fst (request_feed rid (cs_received s))))"
    and "pipe_read n (ir_body (cs_reqs s ! a)) = Some (Inl ErrEOF, p) \<Longrightarrow>
      request_feed rid (cs_received s) = (cs, e) \<Longrightarrow> e = Some ErrEOF \<and> p_got (ir_body (cs_reqs s ! a)) = concat cs"
proof -
  note c = handler_cell [OF assms]
  let ?p = "ir_body (cs_reqs s ! a)"
  have "prefix (p_got ?p) (concat (p_fed ?p))" using c(1) by (auto simp: pipe_ok_def dest: append_prefixD)
  moreover have "prefix (p_fed ?p) (fst (request_feed rid (cs_received s)))"
    using c(2) by (simp add: cell_ok_def cell_fed_def)
  then have "prefix (concat (p_fed ?p)) (concat (fst (request_feed rid (cs_received s))))"
    by (auto simp: prefix_def)
  ultimately show "prefix (p_got ?p) (concat (fst (request_feed rid (cs_received s))))"
    by (rule prefix_order.trans)
  show "e = Some ErrEOF \<and> p_got ?p = concat cs"
    if r: "pipe_read n ?p = Some (Inl ErrEOF, p)" and f: "request_feed rid (cs_received s) = (cs, e)"
  proof -
    have d: "readCloseError ?p = ErrEOF" using r by (auto simp: pipe_read_def split: if_splits option.splits)
    then have w: "p_rerr ?p = None" "p_werr ?p = Some ErrEOF"
      by (auto simp: readCloseError_def ErrClosedPipe_def split: option.splits)
    then have "p_pending ?p = None" "concat (p_fed ?p) = p_got ?p @ pend ?p" using c(1) by (auto simp: pipe_ok_def)
    moreover have "cs = p_fed ?p \<and> e = Some ErrEOF" using c(2) f w by (simp add: cell_ok_def cell_fed_def)
    ultimately show ?thesis by (simp add: pend_def)
  qed
qed

text \<open>
  C26: a handler reads the body that was sent.  When the edge does not reuse request ids, the bytes a
  handler has read are at every moment a prefix of the chunks received for its request, and its reads
  report the end of the body only after the end frame has arrived and all bytes have been read; a
  cancelled body never looks complete.
\<close>
theorem request_body_delivered:
  assumes "reachable (client_init F cfg) (client_step U F N) s" "distinct (start_ids (cs_received s))"
    "G_Handler rid a q w \<in> set (cs_tasks s)" "request_feed rid (cs_received s) = (cs, e)"
  shows "prefix (p_got (ir_body (cs_reqs s ! a))) (concat cs) \<and>
    (\<forall>n p. pipe_read n (ir_body (cs_reqs s ! a)) = Some (Inl ErrEOF, p) \<longrightarrow>
       e = Some ErrEOF \<and> p_got (ir_body (cs_reqs s ! a)) = concat cs)"
  using request_body_delivered_parts [OF assms(1-3)] assms(4) by auto

theorem request_body_delivered_witness: "p_got (ir_body (cs_reqs demo_s4 ! 0)) = ''hello''"
proof -
  have "distinct (start_ids (cs_received demo_s4))" "demo_task \<in> set (cs_tasks demo_s4)"
    "pipe_read 512 (ir_body (cs_reqs demo_s4 ! 0)) = Some (Inl ErrEOF, ir_body (cs_reqs demo_s4 ! 0))"
    "request_feed ''1'' (cs_received demo_s4) = ([''hello''], Some ErrEOF)"
    by (simp_all add: demo_defs start_ids_def request_feed_def readCloseError_def)
  with request_body_delivered [OF demo_s4_reachable this(1) this(2) [unfolded demo_task_def] this(4)]
  have "p_got (ir_body (cs_reqs demo_s4 ! 0)) = concat [''hello'']" by blast
  then show ?thesis by simp
qed

lemma session_end_releases_parts:
  assumes "reachable (client_init F cfg) (client_step U F N) s" "distinct (start_ids (cs_received s))"
    "cs_pc s = D_Returned e"
  shows "G_Handler rid a q w \<in> set (cs_tasks s) \<Longrightarrow> ir_cancelled (cs_reqs s ! a) \<and>
      pipe_read n (ir_body (cs_reqs s ! a)) = Some (Inl (readCloseError (ir_body (cs_reqs s ! a))), ir_body (cs_reqs s ! a))"
    and "G_Pump rid ch \<in> set (cs_tasks s) \<or> G_Upgrade rid ch st \<in> set (cs_tasks s) \<Longrightarrow> ic_closed (cs_chans s ! ch)"
proof -
  have r: "returned s" using assms(3) by (simp add: returned_def)
  show "ir_cancelled (cs_reqs s ! a) \<and>
      pipe_read n (ir_body (cs_reqs s ! a)) = Some (Inl (readCloseError (ir_body (cs_reqs s ! a))), ir_body (cs_reqs s ! a))"
    if "G_Handler rid a q w \<in> set (cs_tasks s)"
    using handler_cell(2) [OF assms(1,2) that] r by (simp add: cell_ok_def pipe_read_def)
  show "ic_closed (cs_chans s ! ch)" if "G_Pump rid ch \<in> set (cs_tasks s) \<or> G_Upgrade rid ch st \<in> set (cs_tasks s)"
  proof -
    have "owned s" using client.reachable_inv [OF assms(1)] by (simp add: session_inv_def)
    then have "chan_owned s rid ch" using assms(2) that by (auto simp: owned_def)
    then show ?thesis using r by (auto simp: chan_owned_def marks_def)
  qed
qed


lemma demo_s5_reachable: "demo_reachable demo_s5"
proof -
  have "recv_step no_tables ok_stream ok_request demo_s4 (demo_s4\<lparr>cs_pc := D_Cleanup None\<rparr>)"
    using recv_step.recv_error [of demo_s4 no_tables ok_stream ok_request ErrEOF] demo_session_facts(5) by simp
  then have 1: "demo_reachable (demo_s4\<lparr>cs_pc := D_Cleanup None\<rparr>)" by (rule demo_reach_step [OF demo_s4_reachable])
  have "session_cleanup (demo_s4\<lparr>cs_pc := D_Cleanup None\<rparr>)\<lparr>cs_pc := D_Returned None\<rparr> = demo_s5"
    by (simp add: demo_defs)
  then have "recv_step no_tables ok_stream ok_request (demo_s4\<lparr>cs_pc := D_Cleanup None\<rparr>) demo_s5"
    using recv_step.recv_cleanup [of "demo_s4\<lparr>cs_pc := D_Cleanup None\<rparr>" None no_tables ok_stream ok_request] by simp
  then show ?thesis by (rule demo_reach_step [OF 1])
qed



lemma demo_s2_reachable: "demo_reachable demo_s2"
  unfolding demo_s2_def demo_s1_def using demo_reach_recv [OF demo_reach_recv [OF demo_reach_init]]
    demo_session_facts(1,2) unfolding demo_s1_def by blast


subsection \<open>A WebSocket can stop the whole client\<close>

definition demo_ws_start :: ServerFrame_Msg where
  "demo_ws_start = ServerFrame_RequestStart
     (demo_RequestStart [Some \<lparr>Header_Key = ''Upgrade'', Header_Values = [''websocket'']\<rparr>])"

definition demo_ws_data :: ServerFrame_Msg where
  "demo_ws_data = ServerFrame_WsData \<lparr>WebSocketData_RequestId = ''1'', WebSocketData_Payload = ''x''\<rparr>"

text \<open>The session after an upgrade and \<open>n\<close> payloads that the handler did not take.\<close>

definition demo_ws :: "nat \<Rightarrow> task \<Rightarrow> client_session" where
  "demo_ws n g = demo_s0
     \<lparr>cs_received := Some demo_ws_start # replicate n (Some demo_ws_data), cs_wsInbound := [(''1'', 0)],
      cs_chans := [\<lparr>ic_chan = \<lparr>ch_buf = replicate n ''x'', ch_cap = 16\<rparr>, ic_closed = False, ic_owner = ''1'', ic_taken = []\<rparr>], cs_tasks := [g]\<rparr>"

abbreviation demo_ws_task :: task where
  "demo_ws_task \<equiv> G_Upgrade ''1'' 0 (demo_RequestStart [Some \<lparr>Header_Key = ''Upgrade'', Header_Values = [''websocket'']\<rparr>])"

definition demo_stuck :: "task \<Rightarrow> client_session" where
  "demo_stuck g = (demo_ws 16 g)\<lparr>cs_pc := D_Inbound 0 ''x'', cs_received := Some demo_ws_start # replicate 17 (Some demo_ws_data)\<rparr>"

lemma demo_s0_pc [simp]: "cs_pc demo_s0 = D_Recv" "cs_received demo_s0 = []" "cs_ctxErr demo_s0 = None"
  by (simp_all add: demo_s0_def runSession_open_def send_def)

lemma demo_ws_0: "demo_recv demo_ws_start demo_s0 = demo_ws 0 demo_ws_task"
proof -
  have "isWebSocketUpgrade no_tables (demo_RequestStart [Some \<lparr>Header_Key = ''Upgrade'', Header_Values = [''websocket'']\<rparr>])"
    by code_simp
  then show ?thesis
    by (simp add: demo_ws_def demo_ws_start_def demo_recv_def dispatch_def start_request_def Let_def spawn_def
        putWSInbound_def chan_make_def map_put_def) (simp add: demo_RequestStart_def demo_s0_def runSession_open_def send_def)
qed

lemma demo_ws_recv:
  "demo_recv demo_ws_data (demo_ws n g) =
     (demo_ws n g)\<lparr>cs_pc := D_Inbound 0 ''x'', cs_received := Some demo_ws_start # replicate (Suc n) (Some demo_ws_data)\<rparr>"
  by (simp add: demo_ws_def demo_ws_data_def demo_recv_def dispatch_def getWSInbound_def map_get_def replicate_append_same)

lemma demo_ws_reachable: "n \<le> 16 \<Longrightarrow> demo_reachable (demo_ws n demo_ws_task)"
proof (induction n)
  case 0
  show ?case using demo_reach_recv [OF demo_reach_init demo_s0_pc(1), of demo_ws_start] by (simp add: demo_ws_0)
next
  case (Suc n)
  let ?s = "demo_ws n demo_ws_task" and ?r = "demo_recv demo_ws_data (demo_ws n demo_ws_task)"
  have "demo_reachable ?s" using Suc by simp
  then have 1: "demo_reachable ?r" by (rule demo_reach_recv) (simp add: demo_ws_def)
  have "recv_step no_tables ok_stream ok_request ?r (send_chan 0 ''x'' ?r\<lparr>cs_pc := D_Recv\<rparr>)"
    using Suc.prems unfolding demo_ws_recv
    by (intro recv_step.inbound_put) (simp_all add: demo_ws_def chan_send_ready_def)
  moreover have "send_chan 0 ''x'' ?r\<lparr>cs_pc := D_Recv\<rparr> = demo_ws (Suc n) demo_ws_task"
    unfolding demo_ws_recv by (simp add: demo_ws_def send_chan_def chan_send_def replicate_append_same)
  ultimately show ?case using demo_reach_step [OF 1] by simp
qed

lemma demo_stuck_reachable: "demo_reachable (demo_stuck (G_Gone ''1'')\<lparr>cs_wsInbound := []\<rparr>)"
proof -
  have "demo_reachable (demo_stuck demo_ws_task)"
    using demo_reach_recv [OF demo_ws_reachable [of 16], of demo_ws_data]
    by (simp add: demo_ws_recv demo_stuck_def) (simp add: demo_ws_def)
  from demo_reach_task [OF this _ task_step.upgrade_done]
  have 1: "demo_reachable (demo_stuck (G_Pump ''1'' 0))" by (simp add: demo_stuck_def demo_ws_def set_task_def demo_s0_def runSession_open_def send_def)
  from demo_reach_task [OF 1 _ task_step.pump_leave]
  have 2: "demo_reachable (demo_stuck (G_DeleteWS ''1''))" by (simp add: demo_stuck_def demo_ws_def set_task_def demo_s0_def runSession_open_def send_def)
  from demo_reach_task [OF 2 _ task_step.delete_ws]
  show ?thesis by (simp add: demo_stuck_def demo_ws_def set_task_def demo_s0_def runSession_open_def send_def deleteWSInbound_def map_del_def)
qed

text \<open>
  C32: a WebSocket handler that leaves can stop the whole client.  The receive loop may wait on the full
  channel of a WebSocket (\<open>dispatchWSInbound\<close>) at the moment its goroutine leaves: the table entry goes,
  but the loop keeps waiting, and from then on the only event that can happen to the session is the end
  of the client's context.  Neither a lost connection nor \<open>Close\<close> brings it back.
\<close>
theorem client_can_block:
  "\<exists>s. demo_reachable s \<and> \<not> returned s \<and> cs_ctxErr s = None \<and>
     {t. client_step no_tables ok_stream ok_request s t} = {s\<lparr>cs_ctxErr := Some e\<rparr> | e. True}"
proof -
  let ?s = "demo_stuck (G_Gone ''1'')\<lparr>cs_wsInbound := []\<rparr>"
  have f: "cs_pc ?s = D_Inbound 0 ''x''" "cs_ctxErr ?s = None" "cs_tasks ?s = [G_Gone ''1'']"
    "\<not> chan_send_ready (ic_chan (cs_chans ?s ! 0))" "\<not> ic_closed (cs_chans ?s ! 0)"
    by (simp_all add: demo_stuck_def demo_ws_def chan_send_ready_def)
  have "\<not> recv_step no_tables ok_stream ok_request ?s t" for t
    using f by (auto elim!: recv_step.cases)
  moreover have "\<not> task_step no_tables ok_stream i (G_Gone ''1'') ?s t" for i t
    by (auto elim: task_step.cases)
  ultimately have "client_step no_tables ok_stream ok_request ?s t \<longleftrightarrow> (\<exists>e. t = ?s\<lparr>cs_ctxErr := Some e\<rparr>)" for t
    using f by (auto elim!: client_step.cases intro: client_step.by_ctx)
  then show ?thesis using demo_stuck_reachable f by (intro exI [of _ ?s]) (simp add: returned_def)
qed

end
