(* ===== verification/ClientChannels.thy ===== *)
theory ClientChannels
  imports ClientServe
begin

text \<open>
  What a WebSocket goroutine of the tunnel client takes from its channel, in every interleaving of the
  receive loop with the goroutines (\<open>tunnel/client.go\<close>): the payloads that the edge sent for its request,
  in order, and none of another request.
\<close>

subsection \<open>Payloads of a request\<close>

fun ws_payload_of :: "string \<Rightarrow> ServerFrame \<Rightarrow> bytes list" where
  "ws_payload_of rid (Some (ServerFrame_WsData d)) = (if WebSocketData_RequestId d = rid then [WebSocketData_Payload d] else [])"
| "ws_payload_of rid _ = []"

definition ws_payloads :: "string \<Rightarrow> ServerFrame list \<Rightarrow> bytes list" where
  "ws_payloads rid fs = concat (map (ws_payload_of rid) (dropWhile (\<lambda>f. start_id f \<noteq> [rid]) fs))"

lemma start_id_in: "rid \<in> set (start_id f) \<longleftrightarrow> start_id f = [rid]"
  by (cases f rule: start_id.cases) auto

lemma in_start_ids: "rid \<in> set (start_ids fs) \<longleftrightarrow> (\<exists>f \<in> set fs. start_id f = [rid])"
  by (simp add: start_ids_def start_id_in)

lemma dropWhile_none: "rid \<notin> set (start_ids fs) \<Longrightarrow> dropWhile (\<lambda>f. start_id f \<noteq> [rid]) fs = []"
  by (auto simp: in_start_ids dropWhile_eq_Nil_conv)

lemma ws_payloads_new:
  assumes "rid \<notin> set (start_ids fs)"
  shows "ws_payloads rid fs = []"
  unfolding ws_payloads_def dropWhile_none [OF assms] by simp

lemma ws_payloads_snoc:
  "ws_payloads rid (fs @ [f]) = ws_payloads rid fs @ (if rid \<in> set (start_ids fs) then ws_payload_of rid f else [])"
proof (cases "rid \<in> set (start_ids fs)")
  case True
  then obtain g where g: "g \<in> set fs" "start_id g = [rid]" by (auto simp: in_start_ids)
  have "dropWhile (\<lambda>f. start_id f \<noteq> [rid]) (fs @ [f]) = dropWhile (\<lambda>f. start_id f \<noteq> [rid]) fs @ [f]"
    using dropWhile_append1 [OF g(1), of "\<lambda>f. start_id f \<noteq> [rid]"] g(2) by simp
  then show ?thesis using True by (simp add: ws_payloads_def)
next
  case False
  have "ws_payload_of rid f = []" if "start_id f = [rid]" using that by (cases f rule: start_id.cases) auto
  moreover have "dropWhile (\<lambda>f. start_id f \<noteq> [rid]) (fs @ [f]) = dropWhile (\<lambda>f. start_id f \<noteq> [rid]) [f]"
    using False by (intro dropWhile_append2) (auto simp: in_start_ids)
  ultimately have "ws_payloads rid (fs @ [f]) = []" by (auto simp: ws_payloads_def)
  then show ?thesis using False ws_payloads_new [OF False] by simp
qed

subsection \<open>The invariant\<close>

fun task_chan :: "task \<Rightarrow> (string \<times> nat) option" where
  "task_chan (G_Upgrade rid ch st) = Some (rid, ch)"
| "task_chan (G_Pump rid ch) = Some (rid, ch)"
| "task_chan _ = None"

fun waiting_payload :: "dispatch_pc \<Rightarrow> nat \<Rightarrow> bytes list" where
  "waiting_payload (D_Inbound c b) ch = (if c = ch then [b] else [])"
| "waiting_payload _ ch = []"

fun loop_alive :: "dispatch_pc \<Rightarrow> bool" where
  "loop_alive (D_Cleanup e) = False"
| "loop_alive (D_Returned e) = False"
| "loop_alive _ = True"

definition handed :: "client_session \<Rightarrow> nat \<Rightarrow> bytes list" where
  "handed s ch = ic_taken (cs_chans s ! ch) @ ch_buf (ic_chan (cs_chans s ! ch)) @ waiting_payload (cs_pc s) ch"

definition owner :: "client_session \<Rightarrow> nat \<Rightarrow> string" where
  "owner s ch = ic_owner (cs_chans s ! ch)"

definition feed_ok :: "client_session \<Rightarrow> bool" where
  "feed_ok s \<longleftrightarrow>
     distinct (start_ids (cs_received s)) \<longrightarrow>
       (\<forall>ch < length (cs_chans s). owner s ch \<in> set (start_ids (cs_received s)) \<and>
          prefix (handed s ch) (ws_payloads (owner s ch) (cs_received s))) \<and>
       (loop_alive (cs_pc s) \<longrightarrow> (\<forall>(rid, ch) \<in> set (cs_wsInbound s). ch < length (cs_chans s) \<and> owner s ch = rid \<and>
          handed s ch = ws_payloads rid (cs_received s))) \<and>
       (\<forall>g \<in> set (cs_tasks s). \<forall>rid ch. task_chan g = Some (rid, ch) \<longrightarrow> ch < length (cs_chans s) \<and> owner s ch = rid)"

text \<open>A step that hands no channel more than it had and starts nothing.\<close>

lemma feed_ok_keep:
  assumes "feed_ok s" "cs_received t = cs_received s" "length (cs_chans t) = length (cs_chans s)"
    and "\<And>ch. ch < length (cs_chans s) \<Longrightarrow> owner t ch = owner s ch \<and> prefix (handed t ch) (handed s ch) \<and>
      (loop_alive (cs_pc t) \<longrightarrow> handed t ch = handed s ch)"
    and "set (cs_wsInbound t) \<subseteq> set (cs_wsInbound s)" "loop_alive (cs_pc t) \<Longrightarrow> loop_alive (cs_pc s)"
    and "\<And>g. g \<in> set (cs_tasks t) \<Longrightarrow> task_chan g = None \<or> task_chan g \<in> task_chan ` set (cs_tasks s)"
  shows "feed_ok t"
  unfolding feed_ok_def
proof (intro impI conjI)
  assume "distinct (start_ids (cs_received t))"
  then have d: "distinct (start_ids (cs_received s))" using assms(2) by simp
  have chans: "owner s ch \<in> set (start_ids (cs_received s))" "prefix (handed s ch) (ws_payloads (owner s ch) (cs_received s))"
    if "ch < length (cs_chans s)" for ch using assms(1) d that unfolding feed_ok_def by blast+
  show "\<forall>ch < length (cs_chans t). owner t ch \<in> set (start_ids (cs_received t)) \<and>
      prefix (handed t ch) (ws_payloads (owner t ch) (cs_received t))"
  proof (intro allI impI)
    fix ch assume "ch < length (cs_chans t)"
    then have c: "ch < length (cs_chans s)" using assms(3) by simp
    from assms(4) [OF c] have "owner t ch = owner s ch" "prefix (handed t ch) (handed s ch)" by blast+
    then show "owner t ch \<in> set (start_ids (cs_received t)) \<and> prefix (handed t ch) (ws_payloads (owner t ch) (cs_received t))"
      using chans [OF c] prefix_order.trans assms(2) by auto
  qed
  show "\<forall>(rid, ch) \<in> set (cs_wsInbound t). ch < length (cs_chans t) \<and> owner t ch = rid \<and> handed t ch = ws_payloads rid (cs_received t)"
    if "loop_alive (cs_pc t)"
  proof -
    have tab: "\<forall>(rid, ch) \<in> set (cs_wsInbound s). ch < length (cs_chans s) \<and> owner s ch = rid \<and> handed s ch = ws_payloads rid (cs_received s)"
      using assms(1,6) d that unfolding feed_ok_def by blast
    show ?thesis
    proof safe
      fix rid ch assume "(rid, ch) \<in> set (cs_wsInbound t)"
      then have "(rid, ch) \<in> set (cs_wsInbound s)" using assms(5) by blast
      with tab have c: "ch < length (cs_chans s)" "owner s ch = rid" "handed s ch = ws_payloads rid (cs_received s)" by blast+
      show "ch < length (cs_chans t)" "owner t ch = rid" "handed t ch = ws_payloads rid (cs_received t)"
        using c assms(2,3) assms(4) [OF c(1)] that by simp_all
    qed
  qed
  show "\<forall>g \<in> set (cs_tasks t). \<forall>rid ch. task_chan g = Some (rid, ch) \<longrightarrow> ch < length (cs_chans t) \<and> owner t ch = rid"
  proof (intro ballI allI impI)
    fix g rid ch assume g: "g \<in> set (cs_tasks t)" "task_chan g = Some (rid, ch)"
    then obtain g' where "g' \<in> set (cs_tasks s)" "task_chan g' = Some (rid, ch)" using assms(7) [OF g(1)] by auto
    then have "ch < length (cs_chans s)" "owner s ch = rid" using assms(1) d unfolding feed_ok_def by blast+
    then show "ch < length (cs_chans t) \<and> owner t ch = rid" using assms(3,4) by simp
  qed
qed

lemma feed_ok_same:
  assumes "feed_ok s" "cs_received t = cs_received s" "cs_chans t = cs_chans s"
    and "\<And>ch. waiting_payload (cs_pc t) ch = waiting_payload (cs_pc s) ch" "loop_alive (cs_pc t) \<Longrightarrow> loop_alive (cs_pc s)"
    and "set (cs_wsInbound t) \<subseteq> set (cs_wsInbound s)"
    and "\<And>g. g \<in> set (cs_tasks t) \<Longrightarrow> task_chan g = None \<or> task_chan g \<in> task_chan ` set (cs_tasks s)"
  shows "feed_ok t"
proof (rule feed_ok_keep [OF assms(1,2)])
  show "owner t ch = owner s ch \<and> prefix (handed t ch) (handed s ch) \<and> (loop_alive (cs_pc t) \<longrightarrow> handed t ch = handed s ch)" for ch
    by (simp add: owner_def handed_def assms(3,4))
qed (use assms in simp_all)

lemma feed_wsInbound: "owner (s\<lparr>cs_wsInbound := w\<rparr>) ch = owner s ch" "handed (s\<lparr>cs_wsInbound := w\<rparr>) ch = handed s ch"
  by (simp_all add: owner_def handed_def)

text \<open>Closing a channel changes neither its owner nor its contents.\<close>

lemma close_chan_feed: "owner (close_chan c s) ch = owner s ch" "handed (close_chan c s) ch = handed s ch"
  "length (cs_chans (close_chan c s)) = length (cs_chans s)"
proof -
  have "ic_owner (cs_chans (close_chan c s) ! ch) = ic_owner (cs_chans s ! ch) \<and>
    ic_taken (cs_chans (close_chan c s) ! ch) = ic_taken (cs_chans s ! ch) \<and>
    ic_chan (cs_chans (close_chan c s) ! ch) = ic_chan (cs_chans s ! ch)"
    by (cases "c < length (cs_chans s)") (auto simp: close_chan_def nth_list_update list_update_beyond)
  then show "owner (close_chan c s) ch = owner s ch" "handed (close_chan c s) ch = handed s ch"
    by (simp_all add: owner_def handed_def)
  show "length (cs_chans (close_chan c s)) = length (cs_chans s)" by (simp add: close_chan_def)
qed

lemma fold_close_feed:
  "owner (fold (\<lambda>(rid, c) x. close_chan c x) ws s) ch = owner s ch"
  "handed (fold (\<lambda>(rid, c) x. close_chan c x) ws s) ch = handed s ch"
  "length (cs_chans (fold (\<lambda>(rid, c) x. close_chan c x) ws s)) = length (cs_chans s)"
  by (induction ws arbitrary: s) (auto simp: close_chan_feed)

subsection \<open>The goroutines keep it\<close>

lemma in_set_task:
  assumes "i < length (cs_tasks s)" "task_chan g' = None \<or> task_chan g' = task_chan (cs_tasks s ! i)"
    and "g \<in> set ((cs_tasks s)[i := g'])"
  shows "task_chan g = None \<or> task_chan g \<in> task_chan ` set (cs_tasks s)"
  using assms set_update_subset_insert [of "cs_tasks s" i g'] nth_mem [OF assms(1)] by (metis image_eqI insert_iff subsetD)

lemma feed_ok_task:
  assumes ok: "feed_ok s" and i: "i < length (cs_tasks s)" and step: "task_step U F i (cs_tasks s ! i) s t"
  shows "feed_ok t"
  using step
proof cases
  case (pump_recv ch b c rid)
  have buf: "ch_buf (ic_chan (cs_chans s ! ch)) = b # ch_buf c"
    using pump_recv(3) by (auto simp: chan_recv_def split: list.splits)
  have "owner t ch' = owner s ch' \<and> handed t ch' = handed s ch'" if "ch' < length (cs_chans s)" for ch'
    using that buf by (cases "ch' = ch") (simp_all add: pump_recv(2) owner_def handed_def)
  then show ?thesis by (intro feed_ok_keep [OF ok]) (simp_all add: pump_recv(2))
next
  case (delete_ws rid)
  then show ?thesis using in_set_task [OF i, of "G_Gone rid"]
    by (intro feed_ok_same [OF ok]) (auto simp: session_ops set_map_del)
next
  case (body_read n a r p rid q w)
  then show ?thesis by (intro feed_ok_same [OF ok]) (auto simp: session_ops)
next
  case (upgrade_send f e rid ch st)
  then show ?thesis by (intro feed_ok_same [OF ok]) (auto simp: session_ops)
next
  case (pump_send f e rid ch)
  then show ?thesis by (intro feed_ok_same [OF ok]) (auto simp: session_ops)
qed (use in_set_task [OF i] in \<open>(intro feed_ok_same [OF ok]; force simp: session_ops)\<close>)+

subsection \<open>The receive loop keeps it\<close>

text \<open>A received frame hands its payload to the channel of its request, or to none.\<close>

lemma feed_ok_extend:
  assumes ok: "feed_ok s" and pc: "cs_pc s = D_Recv"
    and t: "t = s\<lparr>cs_received := cs_received s @ [f], cs_pc := pc'\<rparr>"
    and payload: "\<And>rid ch. (rid, ch) \<in> set (cs_wsInbound s) \<Longrightarrow> owner s ch = rid \<Longrightarrow> waiting_payload pc' ch = ws_payload_of rid f"
    and other: "\<And>ch. ch \<notin> snd ` set (cs_wsInbound s) \<Longrightarrow> waiting_payload pc' ch = []"
  shows "feed_ok t"
  unfolding feed_ok_def
proof (intro impI conjI)
  assume "distinct (start_ids (cs_received t))"
  then have d: "distinct (start_ids (cs_received s))" by (simp add: t)
  from ok d pc have chans: "\<forall>ch < length (cs_chans s). owner s ch \<in> set (start_ids (cs_received s)) \<and>
      prefix (handed s ch) (ws_payloads (owner s ch) (cs_received s))"
    and tab: "\<forall>(rid, ch) \<in> set (cs_wsInbound s). ch < length (cs_chans s) \<and> owner s ch = rid \<and> handed s ch = ws_payloads rid (cs_received s)"
    and tasks: "\<forall>g \<in> set (cs_tasks s). \<forall>rid ch. task_chan g = Some (rid, ch) \<longrightarrow> ch < length (cs_chans s) \<and> owner s ch = rid"
    unfolding feed_ok_def by simp_all
  have own: "owner t ch = owner s ch" for ch by (simp add: t owner_def)
  have handed: "handed t ch = handed s ch @ waiting_payload pc' ch" for ch by (simp add: t handed_def pc)
  have in_table: "ch < length (cs_chans s)" "owner s ch = rid" "handed t ch = ws_payloads rid (cs_received t)"
    if "(rid, ch) \<in> set (cs_wsInbound s)" for rid ch
  proof -
    from tab that have c: "ch < length (cs_chans s)" "owner s ch = rid" "handed s ch = ws_payloads rid (cs_received s)" by blast+
    moreover have "rid \<in> set (start_ids (cs_received s))" using chans c by blast
    ultimately show "ch < length (cs_chans s)" "owner s ch = rid" "handed t ch = ws_payloads rid (cs_received t)"
      using payload [OF that c(2)] by (simp_all add: handed) (simp add: t ws_payloads_snoc)
  qed
  show "\<forall>ch < length (cs_chans t). owner t ch \<in> set (start_ids (cs_received t)) \<and>
      prefix (handed t ch) (ws_payloads (owner t ch) (cs_received t))"
  proof (intro allI impI conjI)
    fix ch assume "ch < length (cs_chans t)"
    then have c: "ch < length (cs_chans s)" by (simp add: t)
    then show "owner t ch \<in> set (start_ids (cs_received t))" using chans by (simp add: own) (simp add: t)
    show "prefix (handed t ch) (ws_payloads (owner t ch) (cs_received t))"
    proof (cases "ch \<in> snd ` set (cs_wsInbound s)")
      case True
      then obtain rid where "(rid, ch) \<in> set (cs_wsInbound s)" by force
      then show ?thesis using in_table(2,3) [of rid ch] by (simp add: own)
    next
      case False
      then show ?thesis using chans c other [OF False] by (simp add: own handed) (simp add: t ws_payloads_snoc prefix_prefix)
    qed
  qed
  show "\<forall>(rid, ch) \<in> set (cs_wsInbound t). ch < length (cs_chans t) \<and> owner t ch = rid \<and> handed t ch = ws_payloads rid (cs_received t)"
    using in_table by (auto simp: own) (simp_all add: t)
  show "\<forall>g \<in> set (cs_tasks t). \<forall>rid ch. task_chan g = Some (rid, ch) \<longrightarrow> ch < length (cs_chans t) \<and> owner t ch = rid"
    using tasks by (simp add: own) (simp add: t)
qed

lemma feed_ok_quiet:
  assumes "feed_ok s" "cs_pc s = D_Recv" "\<And>rid ch. (rid, ch) \<in> set (cs_wsInbound s) \<Longrightarrow> ws_payload_of rid f = []"
  shows "feed_ok (s\<lparr>cs_received := cs_received s @ [f]\<rparr>)"
proof (rule feed_ok_extend [OF assms(1,2)])
  show "s\<lparr>cs_received := cs_received s @ [f]\<rparr> = s\<lparr>cs_received := cs_received s @ [f], cs_pc := D_Recv\<rparr>"
    by (rule client_session.equality) (simp_all add: assms(2))
qed (use assms(3) in simp_all)

text \<open>A new channel starts empty, and nothing was received for its request.\<close>

lemma feed_ok_add:
  assumes ok: "feed_ok s" and rid: "rid \<in> set (start_ids (cs_received s))"
    and fresh: "distinct (start_ids (cs_received s)) \<Longrightarrow> ws_payloads rid (cs_received s) = []" and pc: "cs_pc s = D_Recv"
    and t: "t = s\<lparr>cs_chans := cs_chans s @ [\<lparr>ic_chan = chan_make 16, ic_closed = False, ic_owner = rid, ic_taken = []\<rparr>],
      cs_wsInbound := map_put rid (length (cs_chans s)) (cs_wsInbound s), cs_tasks := cs_tasks s @ [G_Upgrade rid (length (cs_chans s)) st]\<rparr>"
  shows "feed_ok t"
  unfolding feed_ok_def
proof (intro impI conjI)
  assume "distinct (start_ids (cs_received t))"
  then have d: "distinct (start_ids (cs_received s))" by (simp add: t)
  from ok d pc have chans: "\<forall>ch < length (cs_chans s). owner s ch \<in> set (start_ids (cs_received s)) \<and>
      prefix (handed s ch) (ws_payloads (owner s ch) (cs_received s))"
    and tab: "\<forall>(rid, ch) \<in> set (cs_wsInbound s). ch < length (cs_chans s) \<and> owner s ch = rid \<and> handed s ch = ws_payloads rid (cs_received s)"
    and tasks: "\<forall>g \<in> set (cs_tasks s). \<forall>rid ch. task_chan g = Some (rid, ch) \<longrightarrow> ch < length (cs_chans s) \<and> owner s ch = rid"
    unfolding feed_ok_def by simp_all
  have old: "owner t ch = owner s ch" "handed t ch = handed s ch" if "ch < length (cs_chans s)" for ch
    using that by (simp_all add: t owner_def handed_def nth_append)
  have new: "owner t (length (cs_chans s)) = rid" "handed t (length (cs_chans s)) = []"
    using pc by (simp_all add: t owner_def handed_def chan_make_def)
  have recv: "cs_received t = cs_received s" and len: "length (cs_chans t) = Suc (length (cs_chans s))"
    by (simp_all add: t)
  show "\<forall>ch < length (cs_chans t). owner t ch \<in> set (start_ids (cs_received t)) \<and>
      prefix (handed t ch) (ws_payloads (owner t ch) (cs_received t))"
    using chans old new rid unfolding recv len less_Suc_eq by auto
  show "\<forall>(k, ch) \<in> set (cs_wsInbound t). ch < length (cs_chans t) \<and> owner t ch = k \<and> handed t ch = ws_payloads k (cs_received t)"
  proof safe
    fix k ch assume "(k, ch) \<in> set (cs_wsInbound t)"
    then consider "k = rid" "ch = length (cs_chans s)" | "(k, ch) \<in> set (cs_wsInbound s)"
      using set_map_put [of rid "length (cs_chans s)" "cs_wsInbound s"] by (auto simp: t)
    then have "ch < length (cs_chans t) \<and> owner t ch = k \<and> handed t ch = ws_payloads k (cs_received t)"
      by cases (use new fresh d tab old recv len in auto)
    then show "ch < length (cs_chans t)" "owner t ch = k" "handed t ch = ws_payloads k (cs_received t)" by blast+
  qed
  show "\<forall>g \<in> set (cs_tasks t). \<forall>k ch. task_chan g = Some (k, ch) \<longrightarrow> ch < length (cs_chans t) \<and> owner t ch = k"
  proof (intro ballI allI impI)
    fix g k ch assume "g \<in> set (cs_tasks t)" "task_chan g = Some (k, ch)"
    then consider "k = rid" "ch = length (cs_chans s)" | "ch < length (cs_chans s)" "owner s ch = k"
      using tasks by (auto simp: t)
    then show "ch < length (cs_chans t) \<and> owner t ch = k" by cases (use new old len in auto)
  qed
qed

lemma feed_ok_WsData:
  assumes ok: "feed_ok s" "chans_ok s" and pc: "cs_pc s = D_Recv"
  shows "feed_ok (dispatch U F N (Some (ServerFrame_WsData d)) (s\<lparr>cs_received := cs_received s @ [Some (ServerFrame_WsData d)]\<rparr>))"
proof (cases "map_get (cs_wsInbound s) (WebSocketData_RequestId d)")
  case None
  then have "rid \<noteq> WebSocketData_RequestId d" if "(rid, ch) \<in> set (cs_wsInbound s)" for rid ch
    using that by (auto simp: map_get_def map_of_eq_None_iff rev_image_eqI)
  then have "feed_ok (s\<lparr>cs_received := cs_received s @ [Some (ServerFrame_WsData d)]\<rparr>)"
    by (intro feed_ok_quiet [OF ok(1) pc]) auto
  then show ?thesis using None by (simp add: dispatch_def getWSInbound_def)
next
  case (Some c)
  have tab: "table_ok (cs_wsInbound s) (marks s)" using ok(2) pc by (simp add: chans_ok_def returned_def)
  have c: "(WebSocketData_RequestId d, c) \<in> set (cs_wsInbound s)" using Some by (rule map_get_in)
  have inj: "rid = WebSocketData_RequestId d \<longleftrightarrow> ch = c" if "(rid, ch) \<in> set (cs_wsInbound s)" for rid ch
  proof
    from tab have inj: "inj_on fst (set (cs_wsInbound s))" "inj_on snd (set (cs_wsInbound s))"
      by (auto simp: table_ok_def map_wf_def distinct_map)
    show "ch = c" if "rid = WebSocketData_RequestId d" using inj_onD [OF inj(1) _ \<open>(rid, ch) \<in> _\<close> c] that by simp
    show "rid = WebSocketData_RequestId d" if "ch = c" using inj_onD [OF inj(2) _ \<open>(rid, ch) \<in> _\<close> c] that by simp
  qed
  have "feed_ok (s\<lparr>cs_received := cs_received s @ [Some (ServerFrame_WsData d)], cs_pc := D_Inbound c (WebSocketData_Payload d)\<rparr>)"
  proof (rule feed_ok_extend [OF ok(1) pc refl])
    show "waiting_payload (D_Inbound c (WebSocketData_Payload d)) ch = ws_payload_of rid (Some (ServerFrame_WsData d))"
      if "(rid, ch) \<in> set (cs_wsInbound s)" for rid ch using inj [OF that] by auto
    show "waiting_payload (D_Inbound c (WebSocketData_Payload d)) ch = []" if "ch \<notin> snd ` set (cs_wsInbound s)" for ch
      using that c by force
  qed
  then show ?thesis using Some by (simp add: dispatch_def getWSInbound_def)
qed

lemma feed_ok_RequestStart:
  assumes ok: "feed_ok s" and pc: "cs_pc s = D_Recv"
  shows "feed_ok (dispatch U F N (Some (ServerFrame_RequestStart st)) (s\<lparr>cs_received := cs_received s @ [Some (ServerFrame_RequestStart st)]\<rparr>))"
proof -
  let ?r = "s\<lparr>cs_received := cs_received s @ [Some (ServerFrame_RequestStart st)]\<rparr>"
  have r: "feed_ok ?r" by (rule feed_ok_quiet [OF ok pc]) simp
  show ?thesis
  proof (cases "isWebSocketUpgrade U st")
    case True
    have fresh: "ws_payloads (RequestStart_RequestId st) (cs_received ?r) = []" if "distinct (start_ids (cs_received ?r))"
      using that by (simp add: ws_payloads_snoc ws_payloads_new)
    show ?thesis
      by (rule feed_ok_add [OF r _ fresh]) (use pc True in \<open>simp_all add: dispatch_def start_request_def Let_def putWSInbound_def spawn_def\<close>)
  next
    case False
    then show ?thesis
      by (intro feed_ok_same [OF r]) (auto simp: dispatch_def start_request_def session_ops Let_def split: option.splits)
  qed
qed

lemma feed_ok_dispatch:
  assumes ok: "feed_ok s" "chans_ok s" and pc: "cs_pc s = D_Recv"
  shows "feed_ok (dispatch U F N f (s\<lparr>cs_received := cs_received s @ [f]\<rparr>))"
proof -
  let ?r = "s\<lparr>cs_received := cs_received s @ [f]\<rparr>"
  have quiet: "feed_ok ?r" if "\<And>rid. ws_payload_of rid f = []" by (rule feed_ok_quiet [OF ok(1) pc]) (rule that)
  show ?thesis
  proof (cases f)
    case None
    with quiet show ?thesis by (simp add: dispatch_def)
  next
    case (Some m)
    show ?thesis
    proof (cases m)
      case (ServerFrame_RequestStart st)
      with Some feed_ok_RequestStart [OF ok(1) pc] show ?thesis by simp
    next
      case (ServerFrame_WsData d)
      with Some feed_ok_WsData [OF ok pc] show ?thesis by simp
    next
      case (ServerFrame_WsClose c)
      then have r: "feed_ok ?r" using Some by (intro quiet) simp
      show ?thesis using Some ServerFrame_WsClose pc set_map_del [of "WebSocketClose_RequestId c" "cs_wsInbound s"]
        by (intro feed_ok_keep [OF r])
          (auto simp: dispatch_def getWSInbound_def deleteWSInbound_def close_chan_feed feed_wsInbound split: option.splits)
    qed (use Some pc in \<open>(intro feed_ok_same [OF quiet]; force simp: dispatch_def session_ops split: option.splits prod.splits)\<close>)+
  qed
qed

lemma feed_ok_recv:
  assumes ok: "feed_ok s" "chans_ok s" and step: "recv_step U F N s t"
  shows "feed_ok t"
  using step
proof cases
  case (recv_frame f)
  with feed_ok_dispatch [OF ok] show ?thesis by simp
next
  case (inbound_put ch b)
  then have open_ch: "ch < length (marks s)" "\<not> marks s ! ch" using ok(2) by (auto simp: chans_ok_def)
  then have "owner t c = owner s c \<and> handed t c = handed s c" if "c < length (cs_chans s)" for c
    using that inbound_put by (cases "c = ch") (simp_all add: send_chan_open owner_def handed_def chan_send_def)
  then show ?thesis using inbound_put open_ch by (intro feed_ok_keep [OF ok(1)]) (auto simp: send_chan_open)
next
  case (inbound_ctx ch b e)
  then have "owner t c = owner s c \<and> prefix (handed t c) (handed s c)" for c by (simp add: owner_def handed_def)
  then show ?thesis using inbound_ctx by (intro feed_ok_keep [OF ok(1)]) auto
next
  case (recv_cleanup e)
  have "owner t c = owner s c \<and> handed t c = handed s c" for c
  proof -
    have "owner t c = owner (session_cleanup s) c \<and> handed t c = handed (session_cleanup s) c"
      by (simp add: recv_cleanup owner_def handed_def) (simp add: session_cleanup_def recv_cleanup)
    then show ?thesis by (simp add: session_cleanup_def fold_close_feed) (simp add: owner_def handed_def)
  qed
  then show ?thesis using recv_cleanup
    by (intro feed_ok_keep [OF ok(1)]) (auto simp: session_cleanup_def fold_close_feed)
qed (intro feed_ok_same [OF ok(1)]; force simp: session_ops)+

lemma feed_ok_step:
  assumes ok: "feed_ok s" "chans_ok s" and step: "client_step U F N s t"
  shows "feed_ok t"
  using step
proof cases
  case by_recv
  then show ?thesis by (rule feed_ok_recv [OF ok])
next
  case (by_task i)
  then show ?thesis by (rule feed_ok_task [OF ok(1)])
next
  case (by_ctx e)
  then show ?thesis by (intro feed_ok_same [OF ok(1)]) auto
qed

interpretation feeds: invariant_system "client_init F cfg" "client_step U F N" "\<lambda>s. chans_ok s \<and> feed_ok s" for U F N cfg
proof
  show "chans_ok s \<and> feed_ok s" if "client_init F cfg s" for s
    using chans.inv_init [OF that] that by (auto elim!: client_initE simp: feed_ok_def)
  show "chans_ok t \<and> feed_ok t" if "chans_ok s \<and> feed_ok s" "client_step U F N s t" for s t
    using client_chans_ok feed_ok_step that by blast
qed

subsection \<open>What a WebSocket goroutine takes\<close>

text \<open>
  A WebSocket goroutine takes a prefix of the payloads received for its request since it was started,
  in order and with nothing of another request in between.  While the request is in the table and the
  receive loop runs nothing is lost: what was taken, what waits in the channel and what the loop is about
  to put there make up all that was received.
\<close>

lemma ws_inbound_delivered:
  assumes "reachable (client_init F cfg) (client_step U F N) s" "distinct (start_ids (cs_received s))"
    and "G_Pump rid ch \<in> set (cs_tasks s)"
  shows "prefix (ic_taken (cs_chans s ! ch)) (ws_payloads rid (cs_received s))"
    and "loop_alive (cs_pc s) \<Longrightarrow> getWSInbound rid s = Some c \<Longrightarrow> c < length (cs_chans s) \<and> ic_owner (cs_chans s ! c) = rid \<and>
      ic_taken (cs_chans s ! c) @ ch_buf (ic_chan (cs_chans s ! c)) @ waiting_payload (cs_pc s) c = ws_payloads rid (cs_received s)"
proof -
  have ok: "feed_ok s" using feeds.reachable_inv [OF assms(1)] by blast
  have "task_chan (G_Pump rid ch) = Some (rid, ch)" by simp
  then have c: "ch < length (cs_chans s)" "owner s ch = rid" using ok assms(2,3) unfolding feed_ok_def by blast+
  then have "prefix (handed s ch) (ws_payloads rid (cs_received s))" using ok assms(2) unfolding feed_ok_def by blast
  then show "prefix (ic_taken (cs_chans s ! ch)) (ws_payloads rid (cs_received s))"
    unfolding handed_def by (rule append_prefixD)
  show "c < length (cs_chans s) \<and> ic_owner (cs_chans s ! c) = rid \<and>
      ic_taken (cs_chans s ! c) @ ch_buf (ic_chan (cs_chans s ! c)) @ waiting_payload (cs_pc s) c = ws_payloads rid (cs_received s)"
    if "loop_alive (cs_pc s)" "getWSInbound rid s = Some c"
  proof -
    from that(2) have "(rid, c) \<in> set (cs_wsInbound s)" by (simp add: getWSInbound_def map_get_in)
    then show ?thesis using ok assms(2) that(1) unfolding feed_ok_def handed_def owner_def by blast
  qed
qed

definition demo_taken :: client_session where
  "demo_taken = (demo_ws 2 (G_Pump ''1'' 0))\<lparr>cs_chans := [\<lparr>ic_chan = \<lparr>ch_buf = [''x''], ch_cap = 16\<rparr>, ic_closed = False,
     ic_owner = ''1'', ic_taken = [''x'']\<rparr>]\<rparr>"

lemma demo_taken_reachable: "demo_reachable demo_taken"
proof -
  have "demo_reachable (demo_ws 2 demo_ws_task)" by (rule demo_ws_reachable) simp
  from demo_reach_task [OF this _ task_step.upgrade_done]
  have 1: "demo_reachable (demo_ws 2 (G_Pump ''1'' 0))"
    by (simp add: demo_ws_def set_task_def demo_s0_def runSession_open_def send_def)
  have r: "chan_recv (ic_chan (cs_chans (demo_ws 2 (G_Pump ''1'' 0)) ! 0)) = Some (''x'', \<lparr>ch_buf = [''x''], ch_cap = 16\<rparr>)"
    by (simp add: demo_ws_def chan_recv_def numeral_2_eq_2)
  show ?thesis using demo_reach_task [OF 1 _ task_step.pump_recv [OF r]]
    by (simp add: demo_taken_def demo_ws_def demo_s0_def runSession_open_def send_def)
qed

lemma demo_taken_facts:
  "distinct (start_ids (cs_received demo_taken))" "G_Pump ''1'' 0 \<in> set (cs_tasks demo_taken)"
  "ic_taken (cs_chans demo_taken ! 0) = [''x'']" "loop_alive (cs_pc demo_taken)" "getWSInbound ''1'' demo_taken = Some 0"
  "ch_buf (ic_chan (cs_chans demo_taken ! 0)) = [''x'']" "waiting_payload (cs_pc demo_taken) 0 = []"
  "cs_received demo_taken = [Some demo_ws_start, Some demo_ws_data, Some demo_ws_data]"
  by (simp_all add: demo_taken_def demo_ws_def start_ids_def demo_ws_start_def demo_ws_data_def demo_RequestStart_def numeral_2_eq_2
      getWSInbound_def map_get_def)

subsection \<open>The tables and channels of a session are well formed\<close>

definition queues_ok :: "client_session \<Rightarrow> bool" where
  "queues_ok s = list_all (\<lambda>c. ch_cap (ic_chan c) = 16 \<and> chan_wf (ic_chan c)) (cs_chans s)"

lemma queues_ok_update:
  assumes "queues_ok s" "c < length (cs_chans s) \<Longrightarrow> ch_cap (ic_chan x) = 16 \<and> chan_wf (ic_chan x)"
    and "cs_chans t = (cs_chans s)[c := x]"
  shows "queues_ok t"
  using assms by (cases "c < length (cs_chans s)") (auto simp: queues_ok_def list_all_length nth_list_update list_update_beyond)

lemma queues_ok_cong: "queues_ok s \<Longrightarrow> cs_chans t = cs_chans s \<Longrightarrow> queues_ok t"
  by (simp add: queues_ok_def)

lemma queues_ok_nth: "queues_ok s \<Longrightarrow> c < length (cs_chans s) \<Longrightarrow> ch_cap (ic_chan (cs_chans s ! c)) = 16 \<and> chan_wf (ic_chan (cs_chans s ! c))"
  by (simp add: queues_ok_def list_all_length)

lemma queues_ok_close:
  assumes "queues_ok s"
  shows "queues_ok (close_chan c s)"
proof (cases "ic_closed (cs_chans s ! c)")
  case True
  then show ?thesis using assms by (simp add: close_chan_def queues_ok_def)
next
  case False
  then show ?thesis using assms queues_ok_nth [OF assms, of c]
    by (intro queues_ok_update [OF assms, where c = c]) (simp_all add: close_chan_def)
qed

lemma queues_ok_close_all: "queues_ok s \<Longrightarrow> queues_ok (fold (\<lambda>(rid, c) x. close_chan c x) ws s)"
  by (induction ws arbitrary: s) (auto simp: queues_ok_close)

lemma queues_ok_dispatch:
  assumes ok: "queues_ok s"
  shows "queues_ok (dispatch U F N f s)"
proof -
  have "queues_ok (start_request U F N st s)" for st
    using ok by (auto simp: start_request_def session_ops queues_ok_def chan_make_def chan_wf_def Let_def split: option.splits)
  moreover have "queues_ok (close_chan c (deleteWSInbound rid s))" for c rid
    using ok by (intro queues_ok_close) (simp add: deleteWSInbound_def queues_ok_def)
  ultimately show ?thesis using ok
    by (cases f rule: start_id.cases) (auto simp: dispatch_def session_ops queues_ok_def split: option.splits)
qed

lemma queues_ok_recv:
  assumes ok: "queues_ok s" and step: "recv_step U F N s t"
  shows "queues_ok t"
  using step
proof cases
  case (recv_frame f)
  then show ?thesis using ok by (simp add: queues_ok_dispatch queues_ok_cong)
next
  case (inbound_put ch b)
  show ?thesis
  proof (cases "ic_closed (cs_chans s ! ch)")
    case True
    then show ?thesis using ok inbound_put by (simp add: send_chan_def queues_ok_def)
  next
    case False
    then show ?thesis using inbound_put queues_ok_nth [OF ok, of ch]
      by (intro queues_ok_update [OF ok, where c = ch]) (auto simp: send_chan_def chan_send_def chan_send_ready_def chan_wf_def)
  qed
next
  case (recv_cleanup e)
  have "queues_ok (session_cleanup s)" unfolding session_cleanup_def Let_def
    by (rule queues_ok_close_all) (use ok in \<open>simp add: queues_ok_def\<close>)
  then show ?thesis using recv_cleanup by (simp add: queues_ok_def)
qed (use ok in \<open>auto simp: queues_ok_def session_ops\<close>)

lemma queues_ok_task:
  assumes ok: "queues_ok s" and step: "task_step U F i g s t"
  shows "queues_ok t"
  using step
proof cases
  case (pump_recv ch b c rid)
  then show ?thesis using queues_ok_nth [OF ok, of ch]
    by (intro queues_ok_update [OF ok, where c = ch]) (auto simp: chan_recv_def chan_wf_def split: list.splits)
qed (use ok in \<open>auto simp: queues_ok_def session_ops\<close>)

interpretation queues: invariant_system "client_init F cfg" "client_step U F N" queues_ok for U F N cfg
proof
  show "queues_ok s" if "client_init F cfg s" for s using that by (auto elim!: client_initE simp: queues_ok_def)
  show "queues_ok t" if "queues_ok s" "client_step U F N s t" for s t
    using that(2)
  proof cases
    case by_recv
    with that(1) show ?thesis by (rule queues_ok_recv)
  next
    case (by_task i)
    with that(1) show ?thesis by (blast intro: queues_ok_task)
  next
    case (by_ctx e)
    with that(1) show ?thesis by (simp add: queues_ok_def)
  qed
qed



end
