(* ===== verification/ClientWebSocket.thy ===== *)
theory ClientWebSocket
  imports ClientSession ServerServe "HOL-Library.Sublist"
begin

text \<open>
  \<open>handleWebSocket\<close> of the tunnel client (\<open>tunnel/client.go\<close>), which replays an upgrade request on an
  in-memory connection to an embedded HTTP server, and the small parts around it: the listener that
  hands out one connection and \<open>waitForConnReady\<close>.

  What the library calls return is an argument: the error of \<open>http.NewRequest\<close>, the error of
  \<open>Request.Write\<close>, the response or error of \<open>http.ReadResponse\<close>, and the reads of a body or of the
  connection.  A list of reads that is used up stands for a read that blocks.
\<close>

record http_response =
  resp_StatusCode :: int
  resp_Header :: http_header
  resp_Body :: "body_read list option"

datatype ws_outcome = WS_Replied | WS_Upgraded | WS_Blocked

text \<open>The loop that forwards the body of a refusal: whether it ran to its end, or \<^term>\<open>None\<close> while it blocks.\<close>

fun refusal_body :: "stream \<Rightarrow> string \<Rightarrow> body_read list \<Rightarrow> sent \<Rightarrow> bool option \<times> sent" where
  "refusal_body F rid [] l = (None, l)"
| "refusal_body F rid ((c, err) # reads) l =
     (let (sendErr, l1) = (if c \<noteq> [] then send F (response_body rid c) l else (None, l)) in
      if sendErr \<noteq> None then (Some False, l1)
      else if err \<noteq> None then (Some True, l1)
      else refusal_body F rid reads l1)"

definition ws_reply ::
  "go_unicode \<Rightarrow> stream \<Rightarrow> (string \<Rightarrow> string \<Rightarrow> string option) \<Rightarrow> RequestStart \<Rightarrow> string option \<Rightarrow>
   string + http_response \<Rightarrow> sent \<Rightarrow> ws_outcome \<times> sent" where
  "ws_reply U F N start writeErr readResp l =
     (let rid = RequestStart_RequestId start;
          failed = (\<lambda>m. (WS_Replied, snd (send F (response_error rid m) l)))
      in
      case N (RequestStart_Method start) (requestURL start) of
        Some m \<Rightarrow> failed m
      | None \<Rightarrow>
      case writeErr of
        Some m \<Rightarrow> failed m
      | None \<Rightarrow>
      case readResp of
        Inl m \<Rightarrow> failed m
      | Inr resp \<Rightarrow>
          let (err, l1) = send F (ClientFrame_ResponseStart
                (start_frame U rid (resp_StatusCode resp) (resp_Header resp))) l
          in
          if err \<noteq> None then (WS_Replied, l1)
          else if resp_StatusCode resp \<noteq> 101 then
            (case resp_Body resp of
               None \<Rightarrow> (WS_Replied, snd (send F (response_end rid) l1))
             | Some reads \<Rightarrow>
                 (case refusal_body F rid reads l1 of
                    (None, l2) \<Rightarrow> (WS_Blocked, l2)
                  | (Some False, l2) \<Rightarrow> (WS_Replied, l2)
                  | (Some True, l2) \<Rightarrow> (WS_Replied, snd (send F (response_end rid) l2))))
          else (WS_Upgraded, l1))"

definition client_ws_data :: "string \<Rightarrow> bytes \<Rightarrow> ClientFrame_Msg" where
  "client_ws_data rid b = ClientFrame_WsData \<lparr>WebSocketData_RequestId = rid, WebSocketData_Payload = b\<rparr>"

definition client_ws_close :: "string \<Rightarrow> ClientFrame_Msg" where
  "client_ws_close rid = ClientFrame_WsClose \<lparr>WebSocketClose_RequestId = rid\<rparr>"

text \<open>The goroutine that forwards what the handler writes; the flag says that it has ended.\<close>

fun ws_forward :: "stream \<Rightarrow> string \<Rightarrow> body_read list \<Rightarrow> sent \<Rightarrow> bool \<times> sent" where
  "ws_forward F rid [] l = (False, l)"
| "ws_forward F rid ((c, err) # reads) l =
     (let (sendErr, l1) = (if c \<noteq> [] then send F (client_ws_data rid c) l else (None, l)) in
      if sendErr \<noteq> None then (True, l1)
      else if err \<noteq> None then (True, snd (send F (client_ws_close rid) l1))
      else ws_forward F rid reads l1)"

text \<open>
  The select loop: a payload with the result of its write, the closed channel, the end of the reading
  goroutine, the end of the context.
\<close>

datatype pump_event = PE_Payload bytes bool | PE_Closed | PE_ReadDone | PE_CtxDone

fun ws_pump :: "pump_event list \<Rightarrow> bool \<times> bytes list" where
  "ws_pump [] = (False, [])"
| "ws_pump (PE_Payload b fails # es) = (if fails then (True, []) else map_prod id (Cons b) (ws_pump es))"
| "ws_pump (_ # es) = (True, [])"

subsection \<open>The listener of one connection\<close>

record oneConnListener =
  ol_ch :: "nat list"
  ol_addr :: string
  ol_closed :: bool

text \<open>\<open>localAddr\<close> is \<open>conn.LocalAddr()\<close>.\<close>

definition newOneConnListener :: "string \<Rightarrow> nat \<Rightarrow> oneConnListener" where
  "newOneConnListener localAddr conn = \<lparr>ol_ch = [conn], ol_addr = localAddr, ol_closed = False\<rparr>"

text \<open>\<open>Accept\<close>: \<^term>\<open>None\<close> while it blocks, otherwise a connection or \<open>net.ErrClosed\<close>.\<close>

definition Accept :: "oneConnListener \<Rightarrow> ((unit + nat) \<times> oneConnListener) option" where
  "Accept l =
     (case ol_ch l of
        conn # rest \<Rightarrow> Some (Inr conn, l\<lparr>ol_ch := rest\<rparr>)
      | [] \<Rightarrow> if ol_closed l then Some (Inl (), l) else None)"

definition listener_Close :: "oneConnListener \<Rightarrow> oneConnListener" where
  "listener_Close l = l\<lparr>ol_closed := True\<rparr>"

definition listener_Addr :: "oneConnListener \<Rightarrow> string" where
  "listener_Addr l = ol_addr l"

subsection \<open>The whole handler\<close>

text \<open>
  \<open>handleWebSocket\<close> with the objects it opens and what it defers.  \<open>reads\<close> are the reads of the goroutine
  on the upgraded connection and \<open>events\<close> what the select loop sees.  The result tells whether it has
  returned; then the frames it sent, the payloads it wrote to the handler and its effects, in order.
\<close>

definition ioBufSize :: nat where "ioBufSize = 32 * 1024"
definition wsShutdownTimeout :: int where "wsShutdownTimeout = 5 * 10 ^ 9"

datatype ws_effect = WE_Pipe | WE_Serve | WE_ListenerClose | WE_Shutdown int | WE_ConnClose | WE_Done

definition ws_open :: "ws_effect list" where
  "ws_open = [WE_Pipe, WE_Serve]"

definition ws_deferred :: "ws_effect list" where
  "ws_deferred = [WE_ListenerClose, WE_Shutdown wsShutdownTimeout, WE_ConnClose, WE_Done]"

text \<open>The event at which the select loop leaves.\<close>

definition pump_end :: "pump_event list \<Rightarrow> pump_event option" where
  "pump_end events = find (\<lambda>e. case e of PE_Payload b fails \<Rightarrow> fails | _ \<Rightarrow> True) events"

definition handleWebSocket ::
  "go_unicode \<Rightarrow> stream \<Rightarrow> (string \<Rightarrow> string \<Rightarrow> string option) \<Rightarrow> RequestStart \<Rightarrow> string option \<Rightarrow>
   string + http_response \<Rightarrow> body_read list \<Rightarrow> pump_event list \<Rightarrow> sent \<Rightarrow> bool \<times> sent \<times> bytes list \<times> ws_effect list" where
  "handleWebSocket U F N start writeErr readResp reads events l =
     (case ws_reply U F N start writeErr readResp l of
        (WS_Blocked, l1) \<Rightarrow> (False, l1, [], ws_open)
      | (WS_Replied, l1) \<Rightarrow> (True, l1, [], ws_open @ ws_deferred)
      | (WS_Upgraded, l1) \<Rightarrow>
          let (readDone, l2) = ws_forward F (RequestStart_RequestId start) reads l1;
              payloads = snd (ws_pump events)
          in
          (case pump_end events of
             None \<Rightarrow> (False, l2, payloads, ws_open)
           | Some PE_Closed \<Rightarrow> (readDone, l2, payloads, ws_open @ [WE_ConnClose] @ (if readDone then ws_deferred else []))
           | Some _ \<Rightarrow> (True, l2, payloads, ws_open @ ws_deferred)))"

subsection \<open>Waiting for a connection\<close>

datatype conn_state = CS_Idle | CS_Connecting | CS_Ready | CS_TransientFailure | CS_Shutdown

fun conn_state_String :: "conn_state \<Rightarrow> string" where
  "conn_state_String CS_Idle = ''IDLE''"
| "conn_state_String CS_Connecting = ''CONNECTING''"
| "conn_state_String CS_Ready = ''READY''"
| "conn_state_String CS_TransientFailure = ''TRANSIENT_FAILURE''"
| "conn_state_String CS_Shutdown = ''SHUTDOWN''"

text \<open>
  Each turn of the loop sees a state and the result of \<open>WaitForStateChange\<close>; the result is
  \<^term>\<open>None\<close> while the loop still waits, otherwise the returned error.
\<close>

fun waitForConnReady :: "go_error option \<Rightarrow> (conn_state \<times> bool) list \<Rightarrow> go_error option option" where
  "waitForConnReady ctxErr [] = None"
| "waitForConnReady ctxErr ((st, changed) # turns) =
     (if st = CS_Ready then Some None
      else if st = CS_Shutdown then Some (Some (ErrNew ''grpc connection shut down before becoming ready''))
      else if \<not> changed then
        Some (Some (case ctxErr of
            Some e \<Rightarrow> e
          | None \<Rightarrow> ErrNew (''grpc connection did not become ready from state '' @ conn_state_String st)))
      else waitForConnReady ctxErr turns)"

subsection \<open>What is sent\<close>

definition refusal_log :: "string \<Rightarrow> bytes list \<Rightarrow> bool option \<Rightarrow> sent \<Rightarrow> bool" where
  "refusal_log rid cs r ds \<longleftrightarrow>
     prefix (map fst ds) (map (response_body rid) cs) \<and> all_ok (butlast ds) \<and> (r = Some False \<longleftrightarrow> \<not> all_ok ds) \<and>
     (r = Some True \<longrightarrow> map fst ds = map (response_body rid) cs)"

lemma refusal_log_Cons:
  "refusal_log rid cs r ds \<Longrightarrow> refusal_log rid (c # cs) r ((response_body rid c, None) # ds)"
  by (auto simp: refusal_log_def list_all_iff)

lemma refusal_body_log:
  "\<exists>r ds. refusal_body F rid reads l = (r, l @ ds) \<and> refusal_log rid (body_chunks reads) r ds"
proof (induction reads arbitrary: l)
  case Nil
  then show ?case by (simp add: refusal_log_def)
next
  case (Cons x reads)
  obtain c err where x: "x = (c, err)" by (cases x)
  let ?f = "response_body rid c"
  show ?case
  proof (cases "c = []")
    case True
    then show ?thesis using Cons.IH [of l] x by (cases err) (auto simp: refusal_log_def)
  next
    case c: False
    show ?thesis
    proof (cases "F l ?f")
      case None
      obtain r ds where "refusal_body F rid reads (l @ [(?f, None)]) = (r, (l @ [(?f, None)]) @ ds)"
        "refusal_log rid (body_chunks reads) r ds" using Cons.IH by blast
      then show ?thesis using x c None refusal_log_Cons [of rid _ r ds c]
        by (cases err) (auto simp: send_def refusal_log_def [of _ _ "Some True"] intro!: exI [of _ "(?f, None) # ds"])
    next
      case (Some e)
      then show ?thesis using x c
        by (cases err) (auto simp: send_def refusal_log_def intro!: exI [of _ "[(?f, Some e)]"])
    qed
  qed
qed

text \<open>What is sent once the handler of the client has answered the upgrade request.\<close>

definition ws_answer :: "stream \<Rightarrow> string \<Rightarrow> ResponseStart \<Rightarrow> http_response \<Rightarrow> ws_outcome \<times> sent" where
  "ws_answer F rid st resp =
     (let start = ClientFrame_ResponseStart st in
      if F [] start \<noteq> None then (WS_Replied, [(start, F [] start)])
      else if resp_StatusCode resp \<noteq> 101 then
        (case resp_Body resp of
           None \<Rightarrow> (WS_Replied, snd (send F (response_end rid) [(start, None)]))
         | Some reads \<Rightarrow>
             (case refusal_body F rid reads [(start, None)] of
                (None, l2) \<Rightarrow> (WS_Blocked, l2)
              | (Some False, l2) \<Rightarrow> (WS_Replied, l2)
              | (Some True, l2) \<Rightarrow> (WS_Replied, snd (send F (response_end rid) l2))))
      else (WS_Upgraded, [(start, None)]))"

lemma ws_reply_answer:
  assumes "N (RequestStart_Method start) (requestURL start) = None" "writeErr = None" "readResp = Inr resp"
  shows "ws_reply U F N start writeErr readResp [] =
    ws_answer F (RequestStart_RequestId start)
      (start_frame U (RequestStart_RequestId start) (resp_StatusCode resp) (resp_Header resp)) resp"
  unfolding ws_reply_def ws_answer_def Let_def
  using assms by (cases "F [] (ClientFrame_ResponseStart
      (start_frame U (RequestStart_RequestId start) (resp_StatusCode resp) (resp_Header resp)))") (auto simp: send_def)

lemma refusal_frames:
  assumes "ws_answer F rid st resp = (out, l)" "F [] (ClientFrame_ResponseStart st) = None \<and> resp_StatusCode resp \<noteq> 101"
    and "cs = (case resp_Body resp of None \<Rightarrow> [] | Some reads \<Rightarrow> body_chunks reads)"
  shows "prefix (map fst l) (response_frames rid st cs)" "all_ok (butlast l)" "out \<noteq> WS_Upgraded"
    "out = WS_Replied \<Longrightarrow> all_ok l \<Longrightarrow> map fst l = response_frames rid st cs"
proof -
  let ?s = "ClientFrame_ResponseStart st"
  have "prefix (map fst l) (response_frames rid st cs) \<and> all_ok (butlast l) \<and> out \<noteq> WS_Upgraded \<and>
      (out = WS_Replied \<and> all_ok l \<longrightarrow> map fst l = response_frames rid st cs)"
  proof (cases "resp_Body resp")
    case None
    then show ?thesis using assms by (auto simp: ws_answer_def Let_def send_def response_frames_def)
  next
    case (Some reads)
    obtain r ds where r: "refusal_body F rid reads [(?s, None)] = (r, [(?s, None)] @ ds)"
      "refusal_log rid (body_chunks reads) r ds" using refusal_body_log by blast
    then show ?thesis using assms Some unfolding ws_answer_def Let_def
      by (cases r rule: option.exhaust; cases "the r")
        (auto simp: send_def response_frames_def refusal_log_def list_all_iff butlast_append prefix_append
          split: if_splits dest: prefix_prefix)
  qed
  then show "prefix (map fst l) (response_frames rid st cs)" "all_ok (butlast l)" "out \<noteq> WS_Upgraded"
    "out = WS_Replied \<Longrightarrow> all_ok l \<Longrightarrow> map fst l = response_frames rid st cs" by blast+
qed

text \<open>
  C35: \<open>handleWebSocket\<close> answers an upgrade request in one of three ways: one error frame; or the start and
  a prefix of the body of the handler's refusal, complete with its end when nothing failed; or the start
  of status 101 alone, and only then are payloads exchanged.  No frame follows a failed send.
\<close>
theorem handleWebSocket_reply:
  assumes "ws_reply U F N start writeErr readResp [] = (out, l)" "rid = RequestStart_RequestId start"
  shows "(\<exists>m. map fst l = [response_error rid m] \<and> out = WS_Replied) \<or>
    (\<exists>resp st cs. readResp = Inr resp \<and> st = start_frame U rid (resp_StatusCode resp) (resp_Header resp) \<and>
       cs = (case resp_Body resp of None \<Rightarrow> [] | Some reads \<Rightarrow> body_chunks reads) \<and>
       prefix (map fst l) (response_frames rid st cs) \<and> all_ok (butlast l) \<and>
       (out = WS_Upgraded \<longleftrightarrow> resp_StatusCode resp = 101 \<and> all_ok l) \<and>
       (resp_StatusCode resp = 101 \<longrightarrow> map fst l = [ClientFrame_ResponseStart st]) \<and>
       (resp_StatusCode resp \<noteq> 101 \<and> out = WS_Replied \<and> all_ok l \<longrightarrow> map fst l = response_frames rid st cs))"
proof (cases "N (RequestStart_Method start) (requestURL start) = None \<and> writeErr = None \<and> (\<exists>resp. readResp = Inr resp)")
  case False
  then have "\<exists>m. map fst l = [response_error rid m] \<and> out = WS_Replied"
    using assms by (cases readResp) (auto simp: ws_reply_def Let_def send_def split: option.splits)
  then show ?thesis by blast
next
  case True
  then obtain resp where resp: "N (RequestStart_Method start) (requestURL start) = None" "writeErr = None" "readResp = Inr resp" by blast
  define st where "st = start_frame U rid (resp_StatusCode resp) (resp_Header resp)"
  have a: "ws_answer F rid st resp = (out, l)" using assms ws_reply_answer [of N start writeErr readResp resp U F] resp by (simp add: st_def)
  show ?thesis
  proof (cases "F [] (ClientFrame_ResponseStart st) = None \<and> resp_StatusCode resp \<noteq> 101")
    case False
    then have "map fst l = [ClientFrame_ResponseStart st] \<and> all_ok (butlast l) \<and>
        (out = WS_Upgraded \<longleftrightarrow> resp_StatusCode resp = 101 \<and> all_ok l) \<and> (resp_StatusCode resp \<noteq> 101 \<longrightarrow> \<not> all_ok l)"
      using a unfolding ws_answer_def Let_def by (auto split: if_splits)
    then show ?thesis using resp by (intro disjI2 exI [of _ resp] exI [of _ st] exI) (auto simp: st_def response_frames_def)
  next
    case refused: True
    then show ?thesis using resp refusal_frames [OF a] by (intro disjI2 exI [of _ resp] exI [of _ st] exI) (auto simp: st_def)
  qed
qed

definition demo_refusal :: http_response where
  "demo_refusal = \<lparr>resp_StatusCode = 403, resp_Header = [], resp_Body = Some [(''no'', None), ([], Some ErrEOF)]\<rparr>"

definition demo_upgrade_start :: RequestStart where
  "demo_upgrade_start =
     \<lparr>RequestStart_RequestId = ''7'', RequestStart_Method = ''GET'', RequestStart_Scheme = ''https'',
      RequestStart_Host = ''demo.example.com'', RequestStart_Path = ''/ws'', RequestStart_RawQuery = [],
      RequestStart_Headers = [], RequestStart_RemoteAddr = ''192.0.2.1:80'', RequestStart_RawPath = []\<rparr>"

theorem handleWebSocket_reply_witness:
  "map fst (snd (ws_reply no_tables (\<lambda>l f. None) (\<lambda>m u. None) demo_upgrade_start None (Inr demo_refusal) [])) =
     response_frames ''7'' (start_frame no_tables ''7'' 403 []) [''no'']"
proof -
  have r: "ws_reply no_tables (\<lambda>l f. None) (\<lambda>m u. None) demo_upgrade_start None (Inr demo_refusal) [] =
      (WS_Replied, map (\<lambda>f. (f, None)) (response_frames ''7'' (start_frame no_tables ''7'' 403 []) [''no'']))"
    by (simp add: ws_reply_def demo_upgrade_start_def demo_refusal_def send_def response_frames_def Let_def)
  have "''7'' = RequestStart_RequestId demo_upgrade_start" by (simp add: demo_upgrade_start_def)
  note p = handleWebSocket_reply [OF r this]
  show ?thesis unfolding r using p by (simp add: demo_refusal_def response_frames_def response_error_def comp_def)
qed

text \<open>
  The bytes a handler writes on the upgraded connection become data frames in order, followed by one
  close after the first read error; nothing follows a failed send.
\<close>

lemma ws_forward_log:
  "\<exists>ended ds. ws_forward F rid reads l = (ended, l @ ds) \<and>
     prefix (map fst ds) (map (client_ws_data rid) (body_chunks reads) @ [client_ws_close rid]) \<and> all_ok (butlast ds)"
proof (induction reads arbitrary: l)
  case (Cons x reads)
  obtain c err where x: "x = (c, err)" by (cases x)
  let ?f = "client_ws_data rid c"
  show ?case
  proof (cases "c = []")
    case True
    then show ?thesis using Cons.IH [of l] x by (cases err) (auto simp: send_def)
  next
    case c: False
    obtain ended ds where d: "ws_forward F rid reads (l @ [(?f, None)]) = (ended, (l @ [(?f, None)]) @ ds)"
      "prefix (map fst ds) (map (client_ws_data rid) (body_chunks reads) @ [client_ws_close rid])" "all_ok (butlast ds)"
      using Cons.IH by blast
    have "all_ok (butlast ((?f, None) # ds))" using d(3) by (simp add: list_all_iff)
    then show ?thesis using x c d
      by (cases "F l ?f"; cases err) (auto simp: send_def)
  qed
qed (simp add: exI [of _ False])

text \<open>The listener hands out its connection once; afterwards \<open>Accept\<close> waits for \<open>Close\<close>.\<close>

lemma oneConnListener_once:
  "Accept (newOneConnListener a c) = Some (Inr c, \<lparr>ol_ch = [], ol_addr = a, ol_closed = False\<rparr>)"
  "Accept \<lparr>ol_ch = [], ol_addr = a, ol_closed = False\<rparr> = None"
  "Accept (listener_Close \<lparr>ol_ch = [], ol_addr = a, ol_closed = b\<rparr>) = Some (Inl (), \<lparr>ol_ch = [], ol_addr = a, ol_closed = True\<rparr>)"
  by (simp_all add: newOneConnListener_def Accept_def listener_Close_def)

lemma waitForConnReady_ready:
  "waitForConnReady ctxErr turns = Some None \<longleftrightarrow>
     (case dropWhile (\<lambda>(st, changed). st \<noteq> CS_Ready \<and> st \<noteq> CS_Shutdown \<and> changed) turns of
        (st, changed) # rest \<Rightarrow> st = CS_Ready
      | [] \<Rightarrow> False)"
  by (induction turns) (auto split: if_splits)

lemma ws_pump_prefix:
  "prefix (snd (ws_pump es)) (concat (map (\<lambda>e. case e of PE_Payload b fails \<Rightarrow> [b] | _ \<Rightarrow> []) es))"
  by (induction es rule: ws_pump.induct) auto

lemma ws_pump_end: "fst (ws_pump es) \<longleftrightarrow> pump_end es \<noteq> None"
  by (induction es rule: ws_pump.induct) (simp_all add: pump_end_def)

lemma ws_forward_ends: "\<exists>r \<in> set reads. snd r \<noteq> None \<Longrightarrow> fst (ws_forward F rid reads l)"
proof (induction reads arbitrary: l)
  case (Cons x reads)
  then show ?case by (cases x; cases "snd x") (auto simp: send_def)
qed simp

text \<open>
  Whatever fails, a handler that returns has closed its listener, shut its server down, closed its end of the
  pipe and called \<open>done\<close>, once and in this order; and it does return when the channel of its payloads is
  closed, since the close of the pipe ends the reading goroutine.
\<close>

lemma handleWebSocket_releases:
  assumes "handleWebSocket U F N start writeErr readResp reads events l = (back, l2, payloads, effects)"
  shows "back \<Longrightarrow> suffix ws_deferred effects" "length (filter ((=) WE_Done) effects) = of_bool back"
proof -
  have o: "length (filter ((=) WE_Done) ws_open) = 0" "length (filter ((=) WE_Done) ws_deferred) = 1"
    by (simp_all add: ws_open_def ws_deferred_def)
  have "(back \<longrightarrow> suffix ws_deferred effects) \<and> length (filter ((=) WE_Done) effects) = of_bool back"
    using assms o by (auto simp: handleWebSocket_def Let_def suffix_def
        split: prod.splits ws_outcome.splits option.splits pump_event.splits)
  then show "back \<Longrightarrow> suffix ws_deferred effects" "length (filter ((=) WE_Done) effects) = of_bool back"
    by blast+
qed

lemma handleWebSocket_returns:
  assumes "pump_end events = Some e" "e = PE_Closed \<longrightarrow> (\<exists>r \<in> set reads. snd r \<noteq> None)"
    and "fst (ws_reply U F N start writeErr readResp l) \<noteq> WS_Blocked"
  shows "fst (handleWebSocket U F N start writeErr readResp reads events l)"
  using assms ws_forward_ends [of reads F "RequestStart_RequestId start"]
  by (cases e; cases "ws_reply U F N start writeErr readResp l"; cases "fst (ws_reply U F N start writeErr readResp l)")
    (auto simp: handleWebSocket_def Let_def split_beta)

end
