(* ===== verification/ServerRouting.thy ===== *)
theory ServerRouting
  imports ServerSlots ServerServe
begin

text \<open>
  Who may answer for a host (\<open>server/server.go\<close>): \<open>Connect\<close> authenticates a token, derives the public
  host from its user and registers the session under that host; \<open>ServeHTTP\<close> looks the session up by the
  normalised host of the request.  The theorem holds in every interleaving of requests and connections.
\<close>

definition edge_from :: "go_unicode \<Rightarrow> server_Config \<Rightarrow> edge \<Rightarrow> bool" where
  "edge_from U cfg e \<longleftrightarrow> New U cfg = Inr (e_srv e) \<and> e_handlers e = [] \<and> e_conns e = []"

definition name_of :: "session \<Rightarrow> string \<times> string" where
  "name_of x = (sess_publicHost x, sess_username x)"

definition names :: "Server \<Rightarrow> (string \<times> string) list" where
  "names s = map name_of (heap_sess s)"

lemma map_same_update:
  assumes "f x = f (h ! a)"
  shows "map f (h[a := x]) = map f h"
proof (cases "a < length h")
  case True
  then have "map f (h[a := x]) = (map f h)[a := map f h ! a]" using assms by (simp add: map_update)
  then show ?thesis by simp
qed (simp add: list_update_beyond)

definition same_names :: "Server \<Rightarrow> Server \<Rightarrow> bool" where
  "same_names s s' \<longleftrightarrow>
     srv_publicDomain s' = srv_publicDomain s \<and> srv_tokenUsers s' = srv_tokenUsers s \<and>
     srv_publicHosts s' = srv_publicHosts s \<and> srv_sessions s' = srv_sessions s \<and> names s' = names s"

lemma names_upd_sess: "(\<And>x. name_of (f x) = name_of x) \<Longrightarrow> names (upd_sess a f s) = names s"
  by (simp add: names_def upd_sess_def map_same_update)

lemma same_names_upd:
  "(\<And>x. name_of (f x) = name_of x) \<Longrightarrow> same_names s (upd_sess a f s)"
  "same_names s (upd_rs b g s)" "same_names s (upd_ws d h s)" "same_names s s"
  by (simp_all add: same_names_def names_upd_sess) (simp_all add: names_def upd_rs_def upd_ws_def upd_sess_def)

lemma name_of_upd [simp]:
  "name_of (x\<lparr>sess_outbound := q\<rparr>) = name_of x" "name_of (x\<lparr>sess_inflight := m\<rparr>) = name_of x"
  "name_of (x\<lparr>sess_wsMap := m\<rparr>) = name_of x" "name_of (x\<lparr>sess_once := b, sess_done := c\<rparr>) = name_of x"
  "name_of (x\<lparr>sess_inflight := m, sess_wsMap := m'\<rparr>) = name_of x"
  by (simp_all add: name_of_def)

lemma same_names_push: "same_names s (push_outbound sa f s)"
  by (simp add: push_outbound_def same_names_upd)

lemma same_names_send: "(err, s') \<in> set (sendFrameCtx c sa f s) \<Longrightarrow> same_names s s'"
  by (auto simp: sendFrameCtx_def same_names_upd same_names_push split: option.splits if_splits)

lemma same_names_cancel: "s' \<in> set (cancelRequest sa rid s) \<Longrightarrow> same_names s s'"
  by (auto simp: cancelRequest_def Let_def same_names_upd same_names_push split: if_splits)

lemma same_names_with: "s' \<in> set (with_rs sa rid g s) \<Longrightarrow> same_names s s'" "s' \<in> set (with_ws sa rid k s) \<Longrightarrow> same_names s s'"
  by (auto simp: with_rs_def with_ws_def same_names_upd split: option.splits)

lemma same_names_handle: "s' \<in> set (handleClientFrame sa frame s) \<Longrightarrow> same_names s s'"
  by (auto simp: handleClientFrame_def same_names_upd same_names_with split: option.splits ClientFrame_Msg.splits)

lemma same_names_table:
  "tryStart sa rid mi s = (r, s1) \<Longrightarrow> same_names s s1" "sess_del sa rid s = (b, s2) \<Longrightarrow> same_names s s2"
  "failAll sa e s = (n, s5) \<Longrightarrow> same_names s s5" "same_names s (putWS sa rid k (s\<lparr>heap_ws := w\<rparr>))"
  "same_names s (delWS sa rid s)" "same_names s (shutdown_enter sa s)" "same_names s (add_slots d s)"
  "same_names s (releaseGlobalSlots d s)" "same_names s (s\<lparr>srv_nextRequestID := q\<rparr>)"
  by (auto simp: same_names_def names_def tryStart_def sess_put_def sess_del_def failAll_eq putWS_def delWS_def
      shutdown_enter_def add_slots_def releaseGlobalSlots_def upd_sess_def map_same_update Let_def
      split: if_splits option.splits)

text \<open>A session bears the host of its user, and is registered under that host only.\<close>

definition owners_ok :: "go_unicode \<Rightarrow> Server \<Rightarrow> bool" where
  "owners_ok U s \<longleftrightarrow>
     (\<forall>(host, user) \<in> set (names s). host = Subdomain U user (srv_publicDomain s) \<and>
        (\<exists>token. token \<noteq> [] \<and> map_get (srv_tokenUsers s) token = Some user)) \<and>
     (\<forall>(host, a) \<in> set (srv_sessions s). a < length (names s) \<and> fst (names s ! a) = host)"

definition config_of :: "Server \<Rightarrow> string \<times> (string, string) gomap \<times> (string, unit) gomap" where
  "config_of s = (srv_publicDomain s, srv_tokenUsers s, srv_publicHosts s)"

lemma owners_same: "owners_ok U s \<Longrightarrow> same_names s s' \<Longrightarrow> owners_ok U s' \<and> config_of s' = config_of s"
  by (simp add: owners_ok_def same_names_def config_of_def)

lemma owners_open:
  assumes ok: "owners_ok U s" and auth: "Connect_authenticate first s = Inr user"
    and new: "new_session (Subdomain U user (srv_publicDomain s)) user s = (sa, s1)"
    and swap: "putSession_swap sa s1 = (replaced, s2)"
  shows "owners_ok U s2 \<and> config_of s2 = config_of s"
proof -
  let ?h = "Subdomain U user (srv_publicDomain s)"
  obtain token where t: "token \<noteq> []" "map_get (srv_tokenUsers s) token = Some user"
    using auth by (auto simp: Connect_authenticate_def split: option.splits if_splits)
  have s1: "sa = length (names s)" "names s1 = names s @ [(?h, user)]" "srv_sessions s1 = srv_sessions s"
    "config_of s1 = config_of s" using new by (auto simp: new_session_def Let_def names_def name_of_def config_of_def)
  have "sess_publicHost (heap_sess s1 ! sa) = ?h" using new by (auto simp: new_session_def Let_def)
  then have s2: "names s2 = names s @ [(?h, user)]" "config_of s2 = config_of s"
    "srv_sessions s2 = map_put ?h (length (names s)) (srv_sessions s)"
    using swap s1 by (auto simp: putSession_swap_def Let_def names_def config_of_def)
  have "a < length (names s2) \<and> fst (names s2 ! a) = host" if "(host, a) \<in> set (srv_sessions s2)" for host a
  proof -
    have "(host, a) = (?h, length (names s)) \<or> (host, a) \<in> set (srv_sessions s)"
      using that set_map_put [of ?h "length (names s)" "srv_sessions s"] s2(3) by auto
    then show ?thesis using ok s2(1) by (auto simp: owners_ok_def nth_append)
  qed
  then show ?thesis using ok t s2 unfolding owners_ok_def config_of_def by auto
qed

lemma owners_remove: "owners_ok U s \<Longrightarrow> owners_ok U (removeSession h sa s) \<and> config_of (removeSession h sa s) = config_of s"
  using set_map_del [of h "srv_sessions s"] by (auto simp: owners_ok_def removeSession_def names_def config_of_def)

lemma owners_step:
  assumes "edge_step U e e'" "owners_ok U (e_srv e)"
  shows "owners_ok U (e_srv e') \<and> config_of (e_srv e') = config_of (e_srv e)"
proof -
  have same: "owners_ok U s \<and> config_of s = config_of (e_srv e)" if "same_names (e_srv e) s" for s
    using owners_same [OF assms(2) that] .
  from assms(1) show ?thesis
  proof cases
    case (connect_new first user sa s1 replaced s2)
    then show ?thesis using owners_open [OF assms(2)] by auto
  next
    case (connect_replace first user sa s1 old s2)
    then show ?thesis using owners_open [OF assms(2)] by auto
  next
    case (close_remove j sa)
    then show ?thesis using owners_remove [OF assms(2)] by (simp add: set_conn_def)
  qed (auto simp: set_handler_def set_conn_def assms(2) intro!: same same_names_upd same_names_push
      intro: same_names_table same_names_send same_names_cancel same_names_handle)
qed

interpretation owners: invariant_system "edge_from U cfg" "edge_step U"
  "\<lambda>e. owners_ok U (e_srv e) \<and> (\<exists>s. New U cfg = Inr s \<and> config_of (e_srv e) = config_of s)" for U cfg
proof
  show "owners_ok U (e_srv e) \<and> (\<exists>s. New U cfg = Inr s \<and> config_of (e_srv e) = config_of s)" if "edge_from U cfg e" for e
    using that New_Inr(8,9) by (auto simp: edge_from_def owners_ok_def names_def)
  show "owners_ok U (e_srv e') \<and> (\<exists>s. New U cfg = Inr s \<and> config_of (e_srv e') = config_of s)"
    if "owners_ok U (e_srv e) \<and> (\<exists>s. New U cfg = Inr s \<and> config_of (e_srv e) = config_of s)" "edge_step U e e'" for e e'
    using owners_step [OF that(2)] that(1) by auto
qed

text \<open>The user of a configured token whose host is given is determined by the host.\<close>

lemma owner_unique:
  assumes new: "New U cfg = Inr s" and "(t, u) \<in> set (cfg_TokenUsers cfg)" "(t', u') \<in> set (cfg_TokenUsers cfg)"
    and "NormalizeDomain U (srv_publicDomain s) = srv_publicDomain s"
    and "Subdomain U (NormalizeLabel U u) (srv_publicDomain s) = Subdomain U (NormalizeLabel U u') (srv_publicDomain s)"
  shows "(t', u') = (t, u)"
proof -
  have ok: "\<forall>(t, u) \<in> set (cfg_TokenUsers cfg). ldh_label (NormalizeLabel U u)"
    "distinct (map (NormalizeLabel U \<circ> snd) (cfg_TokenUsers cfg))"
    using new_users_ok [OF New_Inr(3) [OF new]] by auto
  have "dns_name (srv_publicDomain s)" using New_Inr(1,2) [OF new] assms(4) by (simp add: ValidateDomain_None)
  then have "NormalizeLabel U u = NormalizeLabel U u'" using ok(1) assms(2,3,5) Subdomain_inject by fastforce
  moreover have "inj_on (NormalizeLabel U \<circ> snd) (set (cfg_TokenUsers cfg))" using ok(2) by (simp add: distinct_map)
  ultimately show ?thesis using assms(2,3) inj_onD [of "NormalizeLabel U \<circ> snd" _ "(t', u')" "(t, u)"] by simp
qed


lemma run1_owned: "reachable (edge_from no_tables demo_config) (edge_step no_tables) run1"
proof -
  have 0: "reachable (edge_from no_tables demo_config) (edge_step no_tables) run0"
    by (rule reach_init) (simp add: edge_from_def run0_def New_demo)
  show ?thesis by (rule reach_step [OF 0 run_step1])
qed


end
