(* ===== verification/ServerPool.thy ===== *)
theory ServerPool
  imports ServerSlots
begin

text \<open>
  What the in-flight limits of the edge promise, as a specification of six rules: a pool of slots with a
  bound, and sessions with a bound each on the requests they have in flight.  A request takes a slot,
  enters its session, leaves it and gives the slot back; a session that ends is cleared at once.

  The edge, with its atomics, mutexes, tables and compare-and-swap loops, refines it: every step of
  \<open>edge_step\<close> is one of these rules or does not touch the pool.
\<close>

record pool =
  p_max :: int
  p_each :: int
  p_used :: int
  p_active :: "nat list"

abbreviation in_flight :: "pool \<Rightarrow> int" where
  "in_flight p \<equiv> int (sum_list (p_active p))"

inductive pool_step :: "pool \<Rightarrow> pool \<Rightarrow> bool" where
  take: "p_used p < p_max p \<Longrightarrow> pool_step p (p\<lparr>p_used := p_used p + 1\<rparr>)"
| give: "0 \<le> n \<Longrightarrow> n \<le> p_used p - in_flight p \<Longrightarrow> pool_step p (p\<lparr>p_used := p_used p - n\<rparr>)"
| enter: "a < length (p_active p) \<Longrightarrow> int (p_active p ! a) < p_each p \<Longrightarrow> in_flight p < p_used p \<Longrightarrow>
    pool_step p (p\<lparr>p_active := (p_active p)[a := Suc (p_active p ! a)]\<rparr>)"
| leave: "a < length (p_active p) \<Longrightarrow> 0 < p_active p ! a \<Longrightarrow>
    pool_step p (p\<lparr>p_active := (p_active p)[a := p_active p ! a - 1]\<rparr>)"
| clear: "a < length (p_active p) \<Longrightarrow> pool_step p (p\<lparr>p_active := (p_active p)[a := 0]\<rparr>)"
| connect: "pool_step p (p\<lparr>p_active := p_active p @ [0]\<rparr>)"

definition pool_init :: "pool \<Rightarrow> bool" where
  "pool_init p \<longleftrightarrow> 0 < p_max p \<and> 0 < p_each p \<and> p_used p = 0 \<and> p_active p = []"

subsection \<open>The specification keeps its limits\<close>

definition pool_ok :: "pool \<Rightarrow> bool" where
  "pool_ok p \<longleftrightarrow> in_flight p \<le> p_used p \<and> p_used p \<le> p_max p \<and> 0 < p_each p \<and> list_all (\<lambda>n. int n \<le> p_each p) (p_active p)"

lemma sum_list_set:
  "a < length ns \<Longrightarrow> sum_list (ns[a := n]) + ns ! a = sum_list ns + (n :: nat)"
  by (induction ns arbitrary: a) (auto split: nat.splits)

lemma list_all_set: "list_all P ns \<Longrightarrow> P n \<Longrightarrow> list_all P (ns[a := n])"
  using set_update_subset_insert [of ns a n] by (auto simp: list_all_iff)

interpretation pool: invariant_system pool_init pool_step pool_ok
proof
  show "pool_ok p" if "pool_init p" for p using that by (simp add: pool_init_def pool_ok_def)
  show "pool_ok q" if p: "pool_ok p" and st: "pool_step p q" for p q
    using st
  proof cases
    case (enter a)
    then show ?thesis using p sum_list_set [OF enter(2), of "Suc (p_active p ! a)"]
      by (auto simp: pool_ok_def intro!: list_all_set)
  next
    case (leave a)
    then show ?thesis using p sum_list_set [OF leave(2), of "p_active p ! a - 1"]
      by (auto simp: pool_ok_def list_all_length nth_list_update)
  next
    case (clear a)
    then show ?thesis using p sum_list_set [OF clear(2), of 0] by (auto simp: pool_ok_def intro!: list_all_set)
  qed (use p in \<open>auto simp: pool_ok_def\<close>)
qed

subsection \<open>The edge refines the specification\<close>

definition pool_of :: "Server \<Rightarrow> pool" where
  "pool_of s = \<lparr>p_max = srv_maxTotalInflight s, p_each = srv_maxInflight s, p_used = srv_totalInflight s,
     p_active = map map_len (tables s)\<rparr>"

text \<open>Runs of fewer than $2^{64}$ requests.\<close>

definition short_step :: "go_unicode \<Rightarrow> edge \<Rightarrow> edge \<Rightarrow> bool" where
  "short_step U e e' \<longleftrightarrow> edge_step U e e' \<and> length (e_handlers e') < 2 ^ 64"

definition pool_inv :: "edge \<Rightarrow> bool" where
  "pool_inv e \<longleftrightarrow> edge_ok e \<and> 0 < srv_maxTotalInflight (e_srv e) \<and> 0 < srv_maxInflight (e_srv e)"

lemma pool_of_same: "same_slots s s' \<Longrightarrow> pool_of s' = pool_of s"
  by (simp add: same_slots_def pool_of_def)

lemma in_flight_tables: "in_flight (pool_of s) = slots_in_tables s"
proof -
  have "int (sum_list (map map_len ts)) = sum_list (map (int \<circ> map_len) ts)" for ts :: "(string, nat) gomap list"
    by (induction ts) simp_all
  then show ?thesis by (simp add: pool_of_def slots_in_tables_def)
qed

lemma part_le_sum:
  fixes f :: "'a \<Rightarrow> int"
  assumes "\<And>x. 0 \<le> f x"
  shows "i < length xs \<Longrightarrow> f (xs ! i) \<le> sum_list (map f xs)"
proof (induction xs arbitrary: i)
  case (Cons x xs)
  have "0 \<le> sum_list (map f xs)" by (rule sum_list_nonneg) (use assms in auto)
  then show ?case using Cons assms [of x] by (cases i) (auto simp: add_increasing)
qed simp

lemma slots_nonneg: "0 \<le> h_slots h" "0 \<le> c_slots c"
proof -
  show "0 \<le> h_slots h" by (cases h) simp_all
  show "0 \<le> c_slots c" by (cases c) simp_all
qed

text \<open>The slots that a goroutine has in hand are used and not in a table.\<close>

lemma in_hand:
  assumes "edge_ok e"
  shows "i < length (e_handlers e) \<Longrightarrow> in_flight (pool_of (e_srv e)) + h_slots (e_handlers e ! i) \<le> srv_totalInflight (e_srv e)"
    and "j < length (e_conns e) \<Longrightarrow> in_flight (pool_of (e_srv e)) + c_slots (e_conns e ! j) \<le> srv_totalInflight (e_srv e)"
proof -
  have tot: "srv_totalInflight (e_srv e) = slots_in_tables (e_srv e) + slots_in_hand e"
    using assms by (simp add: edge_ok_def slots_ok_def slots_in_tables_def slots_in_hand_def)
  have nn: "0 \<le> sum_list (map h_slots (e_handlers e))" "0 \<le> sum_list (map c_slots (e_conns e))"
    by (rule sum_list_nonneg, use slots_nonneg in auto)+
  show "in_flight (pool_of (e_srv e)) + h_slots (e_handlers e ! i) \<le> srv_totalInflight (e_srv e)" if "i < length (e_handlers e)"
    using part_le_sum [of h_slots, OF slots_nonneg(1) that] tot nn unfolding in_flight_tables slots_in_hand_def by linarith
  show "in_flight (pool_of (e_srv e)) + c_slots (e_conns e ! j) \<le> srv_totalInflight (e_srv e)" if "j < length (e_conns e)"
    using part_le_sum [of c_slots, OF slots_nonneg(2) that] tot nn unfolding in_flight_tables slots_in_hand_def by linarith
qed

lemma pool_give:
  assumes "0 \<le> n" "in_flight (pool_of s) + n \<le> srv_totalInflight s"
  shows "pool_step (pool_of s) (pool_of (releaseGlobalSlots n s))"
proof -
  have "pool_of (releaseGlobalSlots n s) = (pool_of s)\<lparr>p_used := p_used (pool_of s) - n\<rparr>"
    using pool_of_same [OF add_slots_same(3) [OF assms(1)], of s] by (simp add: pool_of_def add_slots_def tables_def)
  moreover have "n \<le> p_used (pool_of s) - in_flight (pool_of s)" using assms(2) by (simp add: pool_of_def)
  ultimately show ?thesis using give [OF assms(1), of "pool_of s"] by simp
qed

text \<open>A request enters or leaves a table, a table is emptied, a session is added.\<close>

lemma pool_enter:
  assumes "edge_ok e" "i < length (e_handlers e)" "e_handlers e ! i = H_TryStart sa rid" "0 < srv_maxInflight (e_srv e)"
    and "tryStart sa rid (srv_maxInflight (e_srv e)) (e_srv e) = (Some ra, s)"
  shows "pool_step (pool_of (e_srv e)) (pool_of s)"
proof -
  let ?s = "e_srv e"
  have ok: "slots_ok (srv_totalInflight ?s) (srv_maxTotalInflight ?s) (srv_maxInflight ?s)
      (tables ?s) (regs ?s) (e_handlers e) (e_conns e)" using assms(1) by (simp add: edge_ok_def)
  have sa: "sa < length (heap_sess ?s)" using slots_ok_pc(1) [OF ok assms(2)] assms(3) by simp
  have room: "int (map_len (tables ?s ! sa)) < srv_maxInflight ?s"
    and s: "s = sess_put sa rid ra (?s\<lparr>heap_rs := heap_rs ?s @ [newResponseState]\<rparr>)"
    using assms(4,5) sa by (auto simp: tryStart_def Let_def tables_nth split: if_splits)
  have t: "tables s = (tables ?s)[sa := map_put rid ra (tables ?s ! sa)]"
    using sa by (simp add: s tables_sess_put) (simp add: tables_def)
  have new: "map_get (tables ?s ! sa) rid = None"
  proof (rule ccontr)
    assume "map_get (tables ?s ! sa) rid \<noteq> None"
    then obtain k rb where k: "k < length (e_handlers e)" "e_handlers e ! k = H_Serving sa rid rb"
      using slots_ok_owner [OF ok, of sa rid] sa by (metis length_tables)
    with slots_ok_pc(2) [OF ok k(1)] slots_ok_pc(2) [OF ok assms(2)] assms(3) show False by simp
  qed
  have "map_len (map_put rid ra (tables ?s ! sa)) = Suc (map_len (tables ?s ! sa))"
    using slots_ok_table [OF ok, of sa] sa new by (intro gm.len_put_new) auto
  then have p: "pool_of s = (pool_of ?s)\<lparr>p_active := (p_active (pool_of ?s))[sa := Suc (p_active (pool_of ?s) ! sa)]\<rparr>"
    using sa t by (simp add: pool_of_def s sess_put_def map_update)
  have "in_flight (pool_of ?s) < p_used (pool_of ?s)"
    using in_hand(1) [OF assms(1,2)] assms(3) by (simp add: pool_of_def)
  then show ?thesis unfolding p using sa room by (intro enter) (simp_all add: pool_of_def)
qed

lemma pool_leave:
  assumes "edge_ok e" "i < length (e_handlers e)" "e_handlers e ! i = H_Serving sa rid ra"
    and "sess_del sa rid (e_srv e) = (True, s)"
  shows "pool_step (pool_of (e_srv e)) (pool_of s)"
proof -
  let ?s = "e_srv e"
  have ok: "slots_ok (srv_totalInflight ?s) (srv_maxTotalInflight ?s) (srv_maxInflight ?s)
      (tables ?s) (regs ?s) (e_handlers e) (e_conns e)" using assms(1) by (simp add: edge_ok_def)
  have sa: "sa < length (heap_sess ?s)" using slots_ok_pc(1) [OF ok assms(2)] assms(3) by simp
  have old: "map_get (tables ?s ! sa) rid \<noteq> None"
    and s: "s = upd_sess sa (\<lambda>x. x\<lparr>sess_inflight := map_del rid (sess_inflight x)\<rparr>) ?s"
    using assms(4) sa by (auto simp: sess_del_def tables_nth split: option.splits)
  have t: "tables s = (tables ?s)[sa := map_del rid (tables ?s ! sa)]"
    using sa by (simp add: s tables_def upd_sess_def map_update)
  have len: "Suc (map_len (map_del rid (tables ?s ! sa))) = map_len (tables ?s ! sa)"
    using slots_ok_table [OF ok, of sa] sa old by (intro gm.len_del_old) auto
  then have "map_len (map_del rid (tables ?s ! sa)) = map_len (tables ?s ! sa) - 1" by linarith
  then have p: "pool_of s = (pool_of ?s)\<lparr>p_active := (p_active (pool_of ?s))[sa := p_active (pool_of ?s) ! sa - 1]\<rparr>"
    using sa t by (simp add: pool_of_def s map_update)
  show ?thesis unfolding p using sa len by (intro leave) (simp_all add: pool_of_def)
qed

lemma pool_clear:
  assumes "edge_ok e" "j < length (e_conns e)" "a \<in> c_addrs (e_conns e ! j)" "failAll a err (e_srv e) = (n, s)"
  shows "pool_step (pool_of (e_srv e)) (pool_of s)"
proof -
  have a: "a < length (heap_sess (e_srv e))"
    using assms(1-3) nth_mem [of j "e_conns e"] unfolding edge_ok_def slots_ok_def by auto
  have "pool_of s = (pool_of (e_srv e))\<lparr>p_active := (p_active (pool_of (e_srv e)))[a := 0]\<rparr>"
    using assms(4) a by (auto simp: failAll_eq tables_def map_update pool_of_def gm.len_mt)
  moreover have "a < length (p_active (pool_of (e_srv e)))" using a by (simp add: pool_of_def)
  ultimately show ?thesis using clear by metis
qed

lemma pool_connect:
  assumes "new_session h u s = (sa, s1)" "putSession_swap sa s1 = (replaced, s2)"
  shows "pool_step (pool_of s) (pool_of s2)"
proof -
  have "pool_of s2 = (pool_of s)\<lparr>p_active := p_active (pool_of s) @ [0]\<rparr>"
    using assms by (auto simp: new_session_def putSession_swap_def Let_def pool_of_def tables_def gm.len_mt)
  then show ?thesis by (simp add: connect)
qed

lemma pool_of_moves [simp]:
  "e_srv (set_handler i h s e) = s" "e_srv (set_conn j c s e) = s"
  by (simp_all add: set_handler_def set_conn_def)

lemma pool_of_quiet:
  "pool_of (s\<lparr>srv_nextRequestID := n\<rparr>) = pool_of s" "pool_of (shutdown_enter sa s) = pool_of s"
  "pool_of (removeSession h sa s) = pool_of s" "pool_of (delWS sa rid s) = pool_of s"
  "pool_of (putWS sa rid k (s\<lparr>heap_ws := w\<rparr>)) = pool_of s"
  by (simp_all add: pool_of_def shutdown_enter_def removeSession_def delWS_def putWS_def tables_upd_sess)
    (simp_all add: tables_def)

lemma pool_take:
  assumes "srv_totalInflight s < srv_maxTotalInflight s"
  shows "pool_step (pool_of s) (pool_of (add_slots 1 s))"
proof -
  have "pool_of (add_slots 1 s) = (pool_of s)\<lparr>p_used := p_used (pool_of s) + 1\<rparr>"
    by (simp add: pool_of_def add_slots_def tables_def)
  moreover have "p_used (pool_of s) < p_max (pool_of s)" using assms by (simp add: pool_of_def)
  ultimately show ?thesis using pool_step.take by metis
qed

lemma edge_step_pool:
  assumes "edge_step U e e'" "pool_inv e"
  shows "pool_of (e_srv e') = pool_of (e_srv e) \<or> pool_step (pool_of (e_srv e)) (pool_of (e_srv e'))"
  using assms(1)
proof cases
  case (cas_ok i sa rid current)
  then have "current < srv_maxTotalInflight (e_srv e)"
    using assms(2) unfolding pool_inv_def edge_ok_def slots_ok_def handlers_ok_def by blast
  then show ?thesis using cas_ok pool_take by simp
next
  case (try_start_ok i sa rid ra s)
  then show ?thesis using pool_enter [of e i sa rid ra s] assms(2) by (simp add: pool_inv_def)
next
  case (undo i)
  then show ?thesis using in_hand(1) [of e i] assms(2) by (simp add: pool_inv_def pool_give)
next
  case (finish_del i sa rid ra s)
  then show ?thesis using pool_leave [of e i sa rid ra s] assms(2) by (simp add: pool_inv_def)
next
  case (release i)
  then show ?thesis using in_hand(1) [of e i] assms(2) by (simp add: pool_inv_def pool_give)
next
  case (replace_failAll j sa old n s)
  then show ?thesis using pool_clear [of e j old] assms(2) by (simp add: pool_inv_def)
next
  case (replace_release j sa n)
  then show ?thesis using in_hand(2) [of e j] assms(2) by (simp add: pool_inv_def pool_give)
next
  case (close_failAll j sa err n s)
  then show ?thesis using pool_clear [of e j sa] assms(2) by (simp add: pool_inv_def)
next
  case (close_release j sa n)
  then show ?thesis using in_hand(2) [of e j] assms(2) by (simp add: pool_inv_def pool_give)
next
  case (connect_new first username sa s1 replaced s2)
  then show ?thesis using pool_connect by simp
next
  case (connect_replace first username sa s1 old s2)
  then show ?thesis using pool_connect by simp
qed ((intro disjI1 pool_of_same; simp add: slots_untouched; fail) |
    (use assms(2) in \<open>auto simp: pool_inv_def pool_of_quiet tryStart_def sess_del_def Let_def split: if_splits option.splits\<close>))+

interpretation refines: simulation "edge_init U" "short_step U" pool_inv pool_init pool_step "\<lambda>e. pool_of (e_srv e)" for U
proof
  show "pool_inv e" if "edge_init U e" for e
    using edge_init_ok [OF that] limits.inv_init [OF that] by (simp add: pool_inv_def)
  show "pool_inv e'" if "pool_inv e" "short_step U e e'" for e e'
    using that edge_step_ok [of U e e'] limits.inv_step [of e U e'] by (auto simp: pool_inv_def short_step_def)
  show "pool_init (pool_of (e_srv e))" if init: "edge_init U e" for e
  proof -
    obtain cfg where "New U cfg = Inr (e_srv e)" using init by (auto simp: edge_init_def)
    from New_Inr [OF this] show ?thesis by (simp add: pool_init_def pool_of_def tables_def)
  qed
  show "pool_of (e_srv e') = pool_of (e_srv e) \<or> pool_step (pool_of (e_srv e)) (pool_of (e_srv e'))"
    if "pool_inv e" "short_step U e e'" for e e' using edge_step_pool [of U e e'] that unfolding short_step_def by blast
qed

lemma short_reachable:
  "reachable (edge_init U) (edge_step U) e \<Longrightarrow> length (e_handlers e) < 2 ^ 64 \<Longrightarrow> reachable (edge_init U) (short_step U) e"
proof (induction rule: reachable.induct)
  case (reach_init e)
  then show ?case by (blast intro: reachable.reach_init)
next
  case (reach_step e e')
  then have "length (e_handlers e) < 2 ^ 64" using edge_step_handlers [OF reach_step.hyps(2)] by linarith
  then have "reachable (edge_init U) (short_step U) e" using reach_step.IH by blast
  moreover have "short_step U e e'" using reach_step.hyps(2) reach_step.prems unfolding short_step_def by blast
  ultimately show ?case by (rule reachable.reach_step)
qed



end
