(* ===== verification/GoDuration.thy ===== *)
theory GoDuration
  imports Prelude "HOL-Library.Signed_Division"
begin

text \<open>
  \<open>time.Duration\<close>: \<open>String\<close> and \<open>Round\<close> of the standard library, as the load generator and the status page
  use them, and a reader of durations that computes exactly (\<open>time.ParseDuration\<close> for the texts in question).
\<close>

subsection \<open>Printing\<close>

text \<open>
  \<open>fmtFrac\<close> writes the last \<open>prec\<close> digits of a number in front of what is already written, without
  trailing zeros, and returns the rest of the number.
\<close>

fun fmt_frac :: "nat \<Rightarrow> nat \<Rightarrow> bool \<Rightarrow> string \<Rightarrow> string \<times> nat" where
  "fmt_frac 0 v started acc = (if started then CHR ''.'' # acc else acc, v)"
| "fmt_frac (Suc prec) v started acc =
     (let digit = v mod 10;
          started = (started \<or> digit \<noteq> 0)
      in fmt_frac prec (v div 10) started (if started then digit_char digit # acc else acc))"

definition micro_unit :: string where
  "micro_unit = [CHR 0xC2, CHR 0xB5] @ ''s''"

definition duration_abs :: "nat \<Rightarrow> string" where
  "duration_abs u =
     (if u < 10 ^ 9 then
        if u = 0 then ''0s''
        else
          let (prec, unit) = (if u < 10 ^ 3 then (0, ''ns'') else if u < 10 ^ 6 then (3, micro_unit) else (6, ''ms''));
              (acc, v) = fmt_frac prec u False unit
          in format_uint v @ acc
      else
        let (acc, v) = fmt_frac 9 u False ''s'';
            acc1 = format_uint (v mod 60) @ acc;
            m = v div 60
        in
        if m = 0 then acc1
        else
          let acc2 = format_uint (m mod 60) @ ''m'' @ acc1;
              h = m div 60
          in if h = 0 then acc2 else format_uint h @ ''h'' @ acc2)"

definition duration_String :: "int \<Rightarrow> string" where
  "duration_String d = (if d < 0 then ''-'' @ duration_abs (nat (- d)) else duration_abs (nat d))"

subsection \<open>Rounding\<close>

definition wrap64 :: "int \<Rightarrow> int" where
  "wrap64 n = (n + 2 ^ 63) mod 2 ^ 64 - 2 ^ 63"

definition duration_Round :: "int \<Rightarrow> int \<Rightarrow> int" where
  "duration_Round d m =
     (if m \<le> 0 then d
      else
        let r = d smod m in
        if d < 0 then
          let r = - r in
          if 2 * r < m then d + r
          else let d1 = wrap64 (d - m + r) in if d1 < d then d1 else - (2 ^ 63)
        else if 2 * r < m then d - r
        else let d1 = wrap64 (d + m - r) in if d1 > d then d1 else 2 ^ 63 - 1)"

subsection \<open>Reading\<close>

definition is_digit :: "char \<Rightarrow> bool" where
  "is_digit c \<longleftrightarrow> digit_val c \<noteq> None"

definition unit_ns :: "string \<Rightarrow> nat option" where
  "unit_ns u =
     (if u = ''ns'' then Some 1 else if u = micro_unit then Some (10 ^ 3) else if u = ''ms'' then Some (10 ^ 6)
      else if u = ''s'' then Some (10 ^ 9) else if u = ''m'' then Some (60 * 10 ^ 9) else if u = ''h'' then Some (3600 * 10 ^ 9)
      else None)"

definition in_unit :: "char \<Rightarrow> bool" where
  "in_unit c \<longleftrightarrow> c \<noteq> CHR ''.'' \<and> \<not> is_digit c"

text \<open>One number with its unit, and what follows it.\<close>

definition frac_digits :: "string \<Rightarrow> string" where
  "frac_digits r = (case r of c # cs \<Rightarrow> if c = CHR ''.'' then takeWhile is_digit cs else [] | [] \<Rightarrow> [])"

definition after_frac :: "string \<Rightarrow> string" where
  "after_frac r = (case r of c # cs \<Rightarrow> if c = CHR ''.'' then dropWhile is_digit cs else r | [] \<Rightarrow> r)"

definition read_term :: "string \<Rightarrow> (nat \<times> string) option" where
  "read_term s =
     (let r = dropWhile is_digit s; frac = frac_digits r; r1 = after_frac r in
      case (parse_uint (takeWhile is_digit s), parse_digits 0 frac, unit_ns (takeWhile in_unit r1)) of
        (Some n, Some f, Some k) \<Rightarrow> Some (n * k + f * k div 10 ^ length frac, dropWhile in_unit r1)
      | _ \<Rightarrow> None)"

lemma unit_ns_Nil [simp]: "unit_ns [] = None"
  by (simp add: unit_ns_def micro_unit_def)

lemma length_after_frac: "length (after_frac r) \<le> length r"
  using length_dropWhile_le [of is_digit "tl r"] by (cases r) (auto simp: after_frac_def)

lemma read_term_shorter:
  assumes "read_term s = Some (n, rest)"
  shows "length rest < length s"
proof -
  let ?r = "after_frac (dropWhile is_digit s)"
  have "takeWhile in_unit ?r \<noteq> []" "rest = dropWhile in_unit ?r"
    using assms by (auto simp: read_term_def Let_def split: option.splits)
  then have "length rest < length ?r"
    by (metis length_append length_greater_0_conv less_add_same_cancel2 takeWhile_dropWhile_id)
  also have "\<dots> \<le> length s" using length_after_frac length_dropWhile_le le_trans by blast
  finally show ?thesis .
qed

function read_duration :: "string \<Rightarrow> nat option" where
  "read_duration s =
     (if s = [] then Some 0
      else case read_term s of
        None \<Rightarrow> None
      | Some (n, rest) \<Rightarrow> map_option ((+) n) (read_duration rest))"
  by auto
termination by (relation "measure length") (auto simp: read_term_shorter)

declare read_duration.simps [simp del]

subsection \<open>A printed duration is read back\<close>

lemma is_digit_char [simp]: "n < 10 \<Longrightarrow> is_digit (digit_char n)"
  by (simp add: is_digit_def)

text \<open>The digits that \<open>fmt_frac\<close> writes once it has started, and from the start.\<close>

lemma fmt_frac_started:
  "\<exists>ds. fmt_frac p v True acc = (CHR ''.'' # ds @ acc, v div 10 ^ p) \<and> length ds = p \<and> list_all is_digit ds \<and>
     parse_digits 0 ds = Some (v mod 10 ^ p)"
proof (induction p arbitrary: v acc)
  case (Suc p)
  obtain ds where d: "fmt_frac p (v div 10) True (digit_char (v mod 10) # acc) = (CHR ''.'' # ds @ digit_char (v mod 10) # acc, v div 10 div 10 ^ p)"
    "length ds = p" "list_all is_digit ds" "parse_digits 0 ds = Some (v div 10 mod 10 ^ p)"
    using Suc.IH by blast
  have "v mod 10 ^ Suc p = 10 * (v div 10 mod 10 ^ p) + v mod 10" by (simp add: mod_mult2_eq)
  with d show ?case
    by (intro exI [of _ "ds @ [digit_char (v mod 10)]"])
      (simp add: Let_def parse_digits_append div_mult2_eq)
qed simp

lemma fmt_frac_fresh:
  "(v mod 10 ^ p = 0 \<and> fmt_frac p v False acc = (acc, v div 10 ^ p)) \<or>
   (\<exists>ds k x. fmt_frac p v False acc = (CHR ''.'' # ds @ acc, v div 10 ^ p) \<and> p = length ds + k \<and> list_all is_digit ds \<and>
     parse_digits 0 ds = Some x \<and> x * 10 ^ k = v mod 10 ^ p)"
proof (induction p arbitrary: v acc)
  case (Suc p)
  have m: "v mod 10 ^ Suc p = 10 * (v div 10 mod 10 ^ p) + v mod 10" by (simp add: mod_mult2_eq)
  show ?case
  proof (cases "v mod 10 = 0")
    case True
    then have "fmt_frac (Suc p) v False acc = fmt_frac p (v div 10) False acc" by (simp add: Let_def)
    with Suc.IH [of "v div 10" acc] show ?thesis
    proof (elim disjE exE conjE)
      fix ds k x
      assume "fmt_frac p (v div 10) False acc = (CHR ''.'' # ds @ acc, v div 10 div 10 ^ p)" "p = length ds + k"
        "list_all is_digit ds" "parse_digits 0 ds = Some x" "x * 10 ^ k = v div 10 mod 10 ^ p"
        "fmt_frac (Suc p) v False acc = fmt_frac p (v div 10) False acc"
      then show ?thesis using m True by (intro disjI2 exI [of _ ds] exI [of _ "Suc k"] exI [of _ x]) (simp add: div_mult2_eq)
    qed (use m True in \<open>simp add: div_mult2_eq\<close>)
  next
    case False
    obtain ds where "fmt_frac p (v div 10) True (digit_char (v mod 10) # acc) = (CHR ''.'' # ds @ digit_char (v mod 10) # acc, v div 10 div 10 ^ p)"
      "length ds = p" "list_all is_digit ds" "parse_digits 0 ds = Some (v div 10 mod 10 ^ p)"
      using fmt_frac_started by blast
    then show ?thesis using m False
      by (intro disjI2 exI [of _ "ds @ [digit_char (v mod 10)]"] exI [of _ 0] exI [of _ "v mod 10 ^ Suc p"])
        (simp add: Let_def parse_digits_append div_mult2_eq)
  qed
qed simp

lemma format_uint_digits: "list_all is_digit (format_uint n)" "format_uint n \<noteq> []"
proof -
  show "list_all is_digit (format_uint n)"
  proof (induction n rule: format_uint.induct)
    case (1 n)
    then show ?case by (cases "n < 10") (simp_all add: format_uint.simps [of n])
  qed
  show "format_uint n \<noteq> []" by (simp add: format_uint.simps [of n])
qed

lemma digits_then:
  assumes "list_all is_digit ds" "r = [] \<or> \<not> is_digit (hd r)"
  shows "takeWhile is_digit (ds @ r) = ds" "dropWhile is_digit (ds @ r) = r"
  using assms by (induction ds; cases r; auto)+

text \<open>One printed number with its unit.\<close>

lemma read_number:
  assumes "unit_ns u = Some k" "u \<noteq> []" "list_all in_unit u" "r = [] \<or> is_digit (hd r)"
  shows "read_term (format_uint n @ u @ r) = Some (n * k, r)"
proof -
  have u: "\<not> is_digit (hd (u @ r))" "hd (u @ r) \<noteq> CHR ''.''" using assms(2,3) by (cases u; auto simp: in_unit_def)+
  note d = digits_then [OF format_uint_digits(1) [of n] disjI2, OF u(1)]
  have f: "frac_digits (u @ r) = []" "after_frac (u @ r) = u @ r"
    using assms(2) u(2) by (cases u; simp add: frac_digits_def after_frac_def)+
  have w: "takeWhile in_unit (u @ r) = u" "dropWhile in_unit (u @ r) = r"
    using assms(3,4) by (cases r; auto simp: list_all_iff in_unit_def takeWhile_append dropWhile_append)+
  show ?thesis using assms(1) format_uint_digits(2) [of n] by (simp add: read_term_def d f w parse_uint_def parse_format)
qed

lemma read_fraction:
  assumes "unit_ns u = Some k" "u \<noteq> []" "list_all in_unit u" "k = c * 10 ^ p" "fmt_frac p v False u = (acc, w)"
  shows "w = v div 10 ^ p" "read_term (format_uint n @ acc) = Some (n * k + v mod 10 ^ p * c, [])"
proof -
  have "w = v div 10 ^ p \<and> read_term (format_uint n @ acc) = Some (n * k + v mod 10 ^ p * c, [])"
    using fmt_frac_fresh [of v p u]
  proof (elim disjE conjE exE)
    assume "v mod 10 ^ p = 0" "fmt_frac p v False u = (u, v div 10 ^ p)"
    then show ?thesis using read_number [OF assms(1-3), of "[]" n] assms(5) by simp
  next
    fix ds j x
    assume z: "fmt_frac p v False u = (CHR ''.'' # ds @ u, v div 10 ^ p)" "p = length ds + j" "list_all is_digit ds"
      "parse_digits 0 ds = Some x" "x * 10 ^ j = v mod 10 ^ p"
    then have acc: "acc = CHR ''.'' # ds @ u" "w = v div 10 ^ p" using assms(5) by auto
    have u: "\<not> is_digit (hd u)" using assms(2,3) by (cases u) (auto simp: in_unit_def)
    have dot: "\<not> is_digit CHR ''.''" by code_simp
    note d = digits_then [OF format_uint_digits(1) [of n], of acc] digits_then [OF z(3), of u]
    have f: "frac_digits acc = ds" "after_frac acc = u" using d(3,4) u by (simp_all add: frac_digits_def after_frac_def acc(1))
    have w: "takeWhile in_unit u = u" "dropWhile in_unit u = []" using assms(3) by (auto simp: list_all_iff)
    have "x * k div 10 ^ length ds = c * (x * 10 ^ j)" using z(2) by (simp add: assms(4) power_add)
    then have frac: "x * k div 10 ^ length ds = v mod 10 ^ p * c" unfolding z(5) by simp
    have head: "takeWhile is_digit (format_uint n @ acc) = format_uint n" "dropWhile is_digit (format_uint n @ acc) = acc"
      using d(1,2) dot by (simp_all add: acc(1))
    show ?thesis using assms(1) format_uint_digits(2) [of n] z(4) frac acc(2)
      by (simp add: read_term_def Let_def head f w parse_uint_def parse_format)
  qed
  then show "w = v div 10 ^ p" "read_term (format_uint n @ acc) = Some (n * k + v mod 10 ^ p * c, [])" by blast+
qed

lemma unit_facts:
  "unit_ns ''ns'' = Some 1" "unit_ns micro_unit = Some (10 ^ 3)" "unit_ns ''ms'' = Some (10 ^ 6)" "unit_ns ''s'' = Some (10 ^ 9)"
  "unit_ns ''m'' = Some (60 * 10 ^ 9)" "unit_ns ''h'' = Some (3600 * 10 ^ 9)"
  by (simp_all add: unit_ns_def micro_unit_def)

lemma unit_letters:
  "list_all in_unit ''ns''" "list_all in_unit micro_unit" "list_all in_unit ''ms''" "list_all in_unit ''s''"
  "list_all in_unit ''m''" "list_all in_unit ''h''" "micro_unit \<noteq> []" "format_uint 0 = ''0''"
  by code_simp+

lemma read_duration_last: "read_term s = Some (n, []) \<Longrightarrow> read_duration s = Some n"
  by (cases "s = []") (auto simp: read_duration.simps [of s] read_duration.simps [of "[]"] read_term_def parse_uint_def)

lemma read_duration_first: "read_term s = Some (n, r) \<Longrightarrow> read_duration r = Some m \<Longrightarrow> read_duration s = Some (n + m)"
  by (cases "s = []") (auto simp: read_duration.simps [of s] read_term_def parse_uint_def)

text \<open>Every duration that is printed is read back exactly.\<close>

lemma hd_format_uint: "is_digit (hd (format_uint n @ r))"
  using format_uint_digits [of n] by (cases "format_uint n") auto

lemma read_duration_abs: "read_duration (duration_abs u) = Some u"
proof (cases "u < 10 ^ 9")
  case True
  have small: ?thesis if "unit_ns un = Some (10 ^ p)" "un \<noteq> []" "list_all in_unit un"
      "duration_abs u = (case fmt_frac p u False un of (acc, v) \<Rightarrow> format_uint v @ acc)" for un p
  proof -
    obtain acc v where a: "fmt_frac p u False un = (acc, v)" by (cases "fmt_frac p u False un")
    have k: "10 ^ p = 1 * (10 :: nat) ^ p" by simp
    note r = read_fraction [OF that(1-3) k a]
    have "read_term (format_uint v @ acc) = Some (u, [])" using r(1) r(2) [of v] by (metis div_mult_mod_eq nat_mult_1_right)
    then show ?thesis using that(4) a by (simp add: read_duration_last)
  qed
  consider "u = 0" | "0 < u" "u < 10 ^ 3" | "10 ^ 3 \<le> u" "u < 10 ^ 6" | "10 ^ 6 \<le> u" by linarith
  then show ?thesis
  proof cases
    case 1
    then have "duration_abs u = format_uint 0 @ ''s'' @ []" by (simp add: duration_abs_def unit_letters(8))
    with 1 show ?thesis using read_duration_last [OF read_number [OF unit_facts(4) _ unit_letters(4), of "[]" 0]] by simp
  next
    case 2
    then show ?thesis using small [of "''ns''" 0] unit_facts unit_letters True by (simp add: duration_abs_def)
  next
    case 3
    then show ?thesis using small [of micro_unit 3] unit_facts unit_letters True by (simp add: duration_abs_def)
  next
    case 4
    then show ?thesis using small [of "''ms''" 6] unit_facts unit_letters True by (simp add: duration_abs_def)
  qed
next
  case False
  obtain acc v where a: "fmt_frac 9 u False ''s'' = (acc, v)" by (cases "fmt_frac 9 u False ''s''")
  have k: "10 ^ 9 = 1 * (10 :: nat) ^ 9" by simp
  note r = read_fraction [OF unit_facts(4) _ unit_letters(4) k a]
  let ?acc1 = "format_uint (v mod 60) @ acc" and ?m = "v div 60"
  have v: "v = u div 10 ^ 9" and s: "read_duration ?acc1 = Some (v mod 60 * 10 ^ 9 + u mod 10 ^ 9)"
    using r(1) r(2) [of "v mod 60"] by (simp_all add: read_duration_last)
  have m: "read_duration (format_uint n @ ''m'' @ ?acc1) = Some (n * (60 * 10 ^ 9) + (v mod 60 * 10 ^ 9 + u mod 10 ^ 9))" for n
    by (rule read_duration_first [OF read_number [OF unit_facts(5) _ unit_letters(5)] s]) (simp_all add: hd_format_uint)
  have h: "read_duration (format_uint n @ ''h'' @ format_uint k @ ''m'' @ ?acc1) =
      Some (n * (3600 * 10 ^ 9) + (k * (60 * 10 ^ 9) + (v mod 60 * 10 ^ 9 + u mod 10 ^ 9)))" for n k
    by (rule read_duration_first [OF read_number [OF unit_facts(6) _ unit_letters(6)] m]) (simp_all add: hd_format_uint)
  have d: "duration_abs u = (if ?m = 0 then ?acc1 else if ?m div 60 = 0 then format_uint (?m mod 60) @ ''m'' @ ?acc1
      else format_uint (?m div 60) @ ''h'' @ format_uint (?m mod 60) @ ''m'' @ ?acc1)"
    using False a by (simp add: duration_abs_def Let_def)
  have u: "u = v * 10 ^ 9 + u mod 10 ^ 9" using v by simp
  have hms: "v = ?m div 60 * 3600 + ?m mod 60 * 60 + v mod 60"
    using div_mult_mod_eq [of v 60] div_mult_mod_eq [of ?m 60] by linarith
  have total: "n * (3600 * 10 ^ 9) + (k * (60 * 10 ^ 9) + (c * 10 ^ 9 + f)) = w * 10 ^ 9 + f"
    if "w = n * 3600 + k * 60 + c" for n k c f w :: nat using that by simp
  have whole: "?m div 60 * (3600 * 10 ^ 9) + (?m mod 60 * (60 * 10 ^ 9) + (v mod 60 * 10 ^ 9 + u mod 10 ^ 9)) = u"
    using total [OF hms, of "u mod 10 ^ 9"] u by linarith
  consider "?m = 0" | "?m \<noteq> 0" "?m div 60 = 0" | "?m \<noteq> 0" "?m div 60 \<noteq> 0" by blast
  then show ?thesis
  proof cases
    case 1
    then show ?thesis using s whole unfolding d by simp
  next
    case 2
    then have "duration_abs u = format_uint (?m mod 60) @ ''m'' @ ?acc1" unfolding d by simp
    then show ?thesis using m [of "?m mod 60"] whole 2(2) by (metis add_0 mult_0)
  next
    case 3
    then have "duration_abs u = format_uint (?m div 60) @ ''h'' @ format_uint (?m mod 60) @ ''m'' @ ?acc1" unfolding d by simp
    then show ?thesis using h [of "?m div 60" "?m mod 60"] whole by metis
  qed
qed

lemma duration_String_reads: "0 \<le> d \<Longrightarrow> read_duration (duration_String d) = Some (nat d)"
  by (simp add: duration_String_def read_duration_abs)

text \<open>Rounding moves a duration by at most half of the unit, also where the sum leaves the 64 bits.\<close>

lemma sdiv_pos: "0 \<le> a \<Longrightarrow> 0 < b \<Longrightarrow> a sdiv b = a div (b :: int)"
  by (cases "a = 0") (simp_all add: signed_divide_int_def)

lemma smod_pos: "0 \<le> a \<Longrightarrow> 0 < b \<Longrightarrow> a smod b = a mod (b :: int)"
  by (cases "a = 0") (simp_all add: signed_modulo_int_def sdiv_pos minus_div_mult_eq_mod)

lemma wrap64_id: "- (2 ^ 63) \<le> n \<Longrightarrow> n < 2 ^ 63 \<Longrightarrow> wrap64 n = n"
  by (simp add: wrap64_def)

lemma duration_Round_near:
  assumes "0 \<le> d" "d < 2 ^ 63" "0 < m" "m < 2 ^ 62"
  shows "0 \<le> duration_Round d m" "2 * \<bar>duration_Round d m - d\<bar> \<le> m"
proof -
  have r: "d smod m = d mod m" "0 \<le> d mod m" "d mod m < m" "d mod m \<le> d"
    using assms by (simp_all add: smod_pos zmod_le_nonneg_dividend)
  have "0 \<le> duration_Round d m \<and> 2 * \<bar>duration_Round d m - d\<bar> \<le> m"
  proof (cases "2 * (d mod m) < m")
    case True
    then show ?thesis using assms r by (simp add: duration_Round_def)
  next
    case False
    show ?thesis
    proof (cases "d + m - d mod m < 2 ^ 63")
      case True
      then have "wrap64 (d + m - d mod m) = d + m - d mod m" using assms r by (intro wrap64_id) simp_all
      then show ?thesis using assms r False by (simp add: duration_Round_def Let_def)
    next
      case over: False
      have "wrap64 (d + m - d mod m) = d + m - d mod m - 2 ^ 64"
      proof -
        have "(d + m - d mod m + 2 ^ 63) mod 2 ^ 64 = (d + m - d mod m + 2 ^ 63 - 2 ^ 64) mod 2 ^ 64"
          by (rule minus_mod_self2 [symmetric])
        also have "\<dots> = d + m - d mod m + 2 ^ 63 - 2 ^ 64"
          using assms r over by (intro mod_pos_pos_trivial) simp_all
        finally show ?thesis by (simp add: wrap64_def)
      qed
      then have "duration_Round d m = 2 ^ 63 - 1" using assms r False by (simp add: duration_Round_def Let_def)
      then show ?thesis using assms r False over by simp
    qed
  qed
  then show "0 \<le> duration_Round d m" "2 * \<bar>duration_Round d m - d\<bar> \<le> m" by blast+
qed

end
