(* ===== verification/PerfClient.thy ===== *)
theory PerfClient
  imports EdgeConfig ResponseWriter GoDuration
begin

text \<open>
  The load generator (\<open>cmd/perf-client/main.go\<close>): its scenarios, its configuration check, the wait for
  the tunnel, the handlers it serves, and the summary with its latency histogram.

  A \<open>time.Duration\<close> is an integer of nanoseconds and a counter a natural number; neither comes near its
  64 bits.  The target rank of a percentile is computed in floating point and is an argument here.  An
  index outside a slice is a run-time panic: the operation returns \<^term>\<open>None\<close>.
\<close>

subsection \<open>Latency histogram\<close>

record latencyHistogram =
  lh_bucketWidth :: int
  lh_overflowFrom :: int
  lh_buckets :: "nat list"
  lh_total :: nat

definition newLatencyHistogram :: "int \<Rightarrow> int \<Rightarrow> latencyHistogram" where
  "newLatencyHistogram bucketWidth overflowFrom =
     (let bucketCount = overflowFrom sdiv bucketWidth;
          bucketCount = (if overflowFrom smod bucketWidth \<noteq> 0 then bucketCount + 1 else bucketCount)
      in \<lparr>lh_bucketWidth = bucketWidth, lh_overflowFrom = overflowFrom,
          lh_buckets = replicate (nat (bucketCount + 1)) 0, lh_total = 0\<rparr>)"

definition bucket_index :: "latencyHistogram \<Rightarrow> int \<Rightarrow> int" where
  "bucket_index h latency =
     (let latency = (if latency < 0 then 0 else latency) in
      if latency < lh_overflowFrom h then latency sdiv lh_bucketWidth h else int (length (lh_buckets h)) - 1)"

definition Observe :: "int \<Rightarrow> latencyHistogram \<Rightarrow> latencyHistogram option" where
  "Observe latency h =
     (let index = bucket_index h latency in
      if 0 \<le> index \<and> index < int (length (lh_buckets h)) then
        Some (h\<lparr>lh_buckets := (lh_buckets h)[nat index := Suc (lh_buckets h ! nat index)], lh_total := Suc (lh_total h)\<rparr>)
      else None)"

fun percentile_scan :: "nat \<Rightarrow> nat \<Rightarrow> nat \<Rightarrow> nat list \<Rightarrow> nat option" where
  "percentile_scan target seen index [] = None"
| "percentile_scan target seen index (n # ns) =
     (if seen + n < target then percentile_scan target (seen + n) (Suc index) ns else Some index)"

definition bucket_start :: "latencyHistogram \<Rightarrow> nat \<Rightarrow> int" where
  "bucket_start h index = (if Suc index = length (lh_buckets h) then lh_overflowFrom h else int index * lh_bucketWidth h)"

text \<open>\<open>rank\<close> is \<open>uint64(math.Ceil(percent / 100 * float64(h.total)))\<close> with \<open>percent\<close> cut to 100.\<close>

definition Percentile :: "int \<Rightarrow> nat \<Rightarrow> latencyHistogram \<Rightarrow> int" where
  "Percentile percent rank h =
     (if lh_total h = 0 then 0
      else if percent \<le> 0 then 0
      else
        let target = (if rank = 0 then 1 else rank) in
        case percentile_scan target 0 0 (lh_buckets h) of
          Some index \<Rightarrow> bucket_start h index
        | None \<Rightarrow> lh_overflowFrom h)"

fun observe_all :: "int list \<Rightarrow> latencyHistogram \<Rightarrow> latencyHistogram option" where
  "observe_all [] h = Some h"
| "observe_all (x # xs) h = Option.bind (Observe x h) (observe_all xs)"

subsection \<open>Summary\<close>

record requestResult =
  rr_StatusCode :: int
  rr_Bytes :: int
  rr_Latency :: int
  rr_Err :: "go_error option"

record scenario =
  sc_Name :: string
  sc_Requests :: "string list"

record loadRunConfig =
  lr_BaseURL :: string
  lr_PublicHost :: string
  lr_Scenario :: scenario
  lr_Connections :: int
  lr_Duration :: int
  lr_RequestTimeout :: int

text \<open>\<open>EndedAt\<close> is \<^term>\<open>None\<close> while it is the zero time, which is after no time.\<close>

record loadSummary =
  ls_PublicHost :: string
  ls_Scenario :: string
  ls_Connections :: int
  ls_PlannedDuration :: int
  ls_StartedAt :: int
  ls_EndedAt :: "int option"
  ls_TotalRequests :: nat
  ls_SuccessfulResponses :: nat
  ls_RequestErrors :: nat
  ls_ResponseBytes :: int
  ls_StatusCounts :: "(int, nat) gomap"
  ls_MinLatency :: int
  ls_MaxLatency :: int
  ls_LatencySum :: int
  ls_LatencyHistogram :: latencyHistogram

definition latencyBucketWidth :: int where "latencyBucketWidth = 10 ^ 6"
definition latencyBucketLimit :: int where "latencyBucketLimit = 60 * 10 ^ 9"

definition newLoadSummary :: "loadRunConfig \<Rightarrow> int \<Rightarrow> loadSummary" where
  "newLoadSummary cfg startedAt =
     \<lparr>ls_PublicHost = lr_PublicHost cfg, ls_Scenario = sc_Name (lr_Scenario cfg), ls_Connections = lr_Connections cfg,
      ls_PlannedDuration = lr_Duration cfg, ls_StartedAt = startedAt, ls_EndedAt = None, ls_TotalRequests = 0, ls_SuccessfulResponses = 0, ls_RequestErrors = 0, ls_ResponseBytes = 0, ls_StatusCounts = [],
      ls_MinLatency = 0, ls_MaxLatency = 0, ls_LatencySum = 0,
      ls_LatencyHistogram = newLatencyHistogram latencyBucketWidth latencyBucketLimit\<rparr>"

definition count_status :: "int \<Rightarrow> (int, nat) gomap \<Rightarrow> (int, nat) gomap" where
  "count_status code m = map_put code (Suc (case map_get m code of None \<Rightarrow> 0 | Some n \<Rightarrow> n)) m"

definition Record :: "requestResult \<Rightarrow> loadSummary \<Rightarrow> loadSummary option" where
  "Record result s =
     (case Observe (rr_Latency result) (ls_LatencyHistogram s) of
        None \<Rightarrow> None
      | Some h \<Rightarrow>
          let s1 = s\<lparr>ls_TotalRequests := Suc (ls_TotalRequests s), ls_LatencySum := ls_LatencySum s + rr_Latency result,
                     ls_LatencyHistogram := h,
                     ls_MinLatency := (if ls_MinLatency s = 0 \<or> rr_Latency result < ls_MinLatency s
                                       then rr_Latency result else ls_MinLatency s),
                     ls_MaxLatency := (if rr_Latency result > ls_MaxLatency s then rr_Latency result else ls_MaxLatency s),
                     ls_StatusCounts := (if rr_StatusCode result > 0 then count_status (rr_StatusCode result) (ls_StatusCounts s)
                                         else ls_StatusCounts s),
                     ls_ResponseBytes := (if rr_Bytes result > 0 then ls_ResponseBytes s + rr_Bytes result
                                          else ls_ResponseBytes s)\<rparr>
          in Some (if rr_Err result \<noteq> None then s1\<lparr>ls_RequestErrors := Suc (ls_RequestErrors s1)\<rparr>
                   else s1\<lparr>ls_SuccessfulResponses := Suc (ls_SuccessfulResponses s1)\<rparr>))"

fun record_all :: "requestResult list \<Rightarrow> loadSummary \<Rightarrow> loadSummary option" where
  "record_all [] s = Some s"
| "record_all (r # rs) s = Option.bind (Record r s) (record_all rs)"

definition elapsed :: "loadSummary \<Rightarrow> int" where
  "elapsed s =
     (case ls_EndedAt s of
        Some ended \<Rightarrow> if ended > ls_StartedAt s then ended - ls_StartedAt s else ls_PlannedDuration s
      | None \<Rightarrow> ls_PlannedDuration s)"

definition avgLatency :: "loadSummary \<Rightarrow> int" where
  "avgLatency s = (if ls_TotalRequests s = 0 then 0 else ls_LatencySum s sdiv int (ls_TotalRequests s))"

definition formatStatusCounts :: "(int, nat) gomap \<Rightarrow> string" where
  "formatStatusCounts m =
     join_byte CHR '' '' (map (\<lambda>status. format_int status @ ''='' @
        format_uint (case map_get m status of None \<Rightarrow> 0 | Some n \<Rightarrow> n)) (sort (map fst m)))"

subsection \<open>Scenarios\<close>

definition loadScenario :: "go_unicode \<Rightarrow> string \<Rightarrow> scenario option" where
  "loadScenario U name =
     (let n = to_lower U (trim_space U name) in
      if n = ''fast'' then Some \<lparr>sc_Name = ''fast'', sc_Requests = [''/fast'']\<rparr>
      else if n = ''stream'' then Some \<lparr>sc_Name = ''stream'', sc_Requests = [''/stream'']\<rparr>
      else if n = [] \<or> n = ''mixed'' then
        Some \<lparr>sc_Name = ''mixed'', sc_Requests = replicate 16 ''/fast'' @ replicate 3 ''/bytes'' @ [''/stream'']\<rparr>
      else None)"

definition requestFor :: "nat \<Rightarrow> nat \<Rightarrow> scenario \<Rightarrow> string" where
  "requestFor workerID iteration s =
     (if length (sc_Requests s) = 0 then ''/fast''
      else sc_Requests s ! ((workerID + iteration) mod length (sc_Requests s)))"

subsection \<open>Configuration\<close>

record perfConfig =
  pf_PublicHost :: string
  pf_PublicDomain :: string
  pf_EdgeAddr :: string
  pf_Token :: string
  pf_Scenario :: string
  pf_Connections :: int
  pf_Duration :: int
  pf_RequestTimeout :: int
  pf_ReadyTimeout :: int
  pf_Debug :: bool

datatype perf_error =
    PerfFlag flag_error | NoPublicHost | BadPublicHost domain_error | NoPublicDomain | BadPublicDomain domain_error
  | BadConnections | BadDuration | BadRequestTimeout | BadReadyTimeout | UnknownScenario

definition defaultPerfToken :: string where [simp]: "defaultPerfToken = ''perf-token''"
definition defaultConnections :: int where [simp]: "defaultConnections = 1000"
definition defaultDuration :: int where [simp]: "defaultDuration = 30 * 10 ^ 9"
definition defaultRequestTimeout :: int where [simp]: "defaultRequestTimeout = 10 * 10 ^ 9"
definition defaultReadyTimeout :: int where [simp]: "defaultReadyTimeout = 30 * 10 ^ 9"
definition defaultScenario :: string where [simp]: "defaultScenario = ''mixed''"

definition perf_parseBoolString :: "go_unicode \<Rightarrow> string \<Rightarrow> bool" where
  "perf_parseBoolString U v \<longleftrightarrow> to_lower U (trim_space U v) \<in> set [''1'', ''t'', ''true'', ''y'', ''yes'', ''on'']"

definition perf_getenv :: "go_unicode \<Rightarrow> (string \<Rightarrow> string) \<Rightarrow> string \<Rightarrow> string" where
  "perf_getenv U environ key = trim_space U (environ key)"

definition defaultString :: "string \<Rightarrow> string \<Rightarrow> string" where
  "defaultString v fallback = (if v = [] then fallback else v)"

definition perf_flags :: "string \<Rightarrow> bool option" where
  "perf_flags name =
     (if name = ''debug'' then Some True
      else if name \<in> set [''public-host'', ''public-domain'', ''edge-addr'', ''token'', ''connections'', ''duration'',
        ''scenario'', ''request-timeout'', ''ready-timeout''] then Some False
      else None)"

text \<open>
  The number parsers of the flags, \<open>strconv.ParseInt\<close> in any base and \<open>time.ParseDuration\<close>, are the
  arguments \<open>int_of\<close> and \<open>dur_of\<close>.
\<close>

definition perf_flag_ok :: "(string \<Rightarrow> int option) \<Rightarrow> (string \<Rightarrow> int option) \<Rightarrow> string \<Rightarrow> string \<Rightarrow> bool" where
  "perf_flag_ok int_of dur_of name v \<longleftrightarrow>
     (name = ''debug'' \<longrightarrow> parse_bool v \<noteq> None) \<and> (name = ''connections'' \<longrightarrow> int_of v \<noteq> None) \<and>
     (name \<in> set [''duration'', ''request-timeout'', ''ready-timeout''] \<longrightarrow> dur_of v \<noteq> None)"

definition number_setting :: "(string \<Rightarrow> int option) \<Rightarrow> string \<Rightarrow> int \<Rightarrow> (string \<times> string) list \<Rightarrow> int" where
  "number_setting num name d sets = foldl (\<lambda>n v. case num v of Some m \<Rightarrow> m | None \<Rightarrow> n) d (all_settings name sets)"

definition perf_settings ::
  "go_unicode \<Rightarrow> (string \<Rightarrow> int option) \<Rightarrow> (string \<Rightarrow> int option) \<Rightarrow> (string \<Rightarrow> string) \<Rightarrow> (string \<times> string) list \<Rightarrow> perfConfig" where
  "perf_settings U int_of dur_of getenv sets =
     \<lparr>pf_PublicHost = last_setting ''public-host'' (getenv ''MUXBRIDGE_PUBLIC_HOST'') sets,
      pf_PublicDomain = last_setting ''public-domain'' (getenv ''MUXBRIDGE_PUBLIC_DOMAIN'') sets,
      pf_EdgeAddr = last_setting ''edge-addr'' (getenv ''MUXBRIDGE_EDGE_ADDR'') sets,
      pf_Token = last_setting ''token'' (defaultString (getenv ''MUXBRIDGE_CLIENT_TOKEN'') defaultPerfToken) sets,
      pf_Scenario = last_setting ''scenario'' defaultScenario sets,
      pf_Connections = number_setting int_of ''connections'' defaultConnections sets,
      pf_Duration = number_setting dur_of ''duration'' defaultDuration sets,
      pf_RequestTimeout = number_setting dur_of ''request-timeout'' defaultRequestTimeout sets,
      pf_ReadyTimeout = number_setting dur_of ''ready-timeout'' defaultReadyTimeout sets,
      pf_Debug = debug_setting (perf_parseBoolString U (getenv ''MUXBRIDGE_DEBUG'')) sets\<rparr>"

definition perf_edge_addr :: "go_unicode \<Rightarrow> perfConfig \<Rightarrow> perf_error + string" where
  "perf_edge_addr U cfg =
     (if pf_EdgeAddr cfg \<noteq> [] then Inr (pf_EdgeAddr cfg)
      else if pf_PublicDomain cfg = [] then Inl NoPublicDomain
      else case ValidateDomain U (pf_PublicDomain cfg) of
        Some e \<Rightarrow> Inl (BadPublicDomain e)
      | None \<Rightarrow> Inr (Subdomain U ''edge'' (pf_PublicDomain cfg) @ '':443''))"

definition perf_loadConfig ::
  "go_unicode \<Rightarrow> (string \<Rightarrow> int option) \<Rightarrow> (string \<Rightarrow> int option) \<Rightarrow> string list \<Rightarrow> (string \<Rightarrow> string) \<Rightarrow> perf_error + perfConfig" where
  "perf_loadConfig U int_of dur_of args getenv =
     (case parse_flags perf_flags (perf_flag_ok int_of dur_of) args of
        Inl e \<Rightarrow> Inl (PerfFlag e)
      | Inr (sets, left) \<Rightarrow>
          let raw = perf_settings U int_of dur_of getenv sets;
              cfg = raw\<lparr>pf_PublicHost := NormalizeHost U (pf_PublicHost raw),
                        pf_PublicDomain := NormalizeDomain U (pf_PublicDomain raw),
                        pf_EdgeAddr := trim_space U (pf_EdgeAddr raw), pf_Token := trim_space U (pf_Token raw),
                        pf_Scenario := to_lower U (trim_space U (pf_Scenario raw))\<rparr>
          in
          if pf_PublicHost cfg = [] then Inl NoPublicHost
          else case ValidateDomain U (pf_PublicHost cfg) of
            Some e \<Rightarrow> Inl (BadPublicHost e)
          | None \<Rightarrow>
              case perf_edge_addr U cfg of
                Inl e \<Rightarrow> Inl e
              | Inr addr \<Rightarrow>
                  if pf_Connections cfg \<le> 0 then Inl BadConnections
                  else if pf_Duration cfg \<le> 0 then Inl BadDuration
                  else if pf_RequestTimeout cfg \<le> 0 then Inl BadRequestTimeout
                  else if pf_ReadyTimeout cfg \<le> 0 then Inl BadReadyTimeout
                  else if loadScenario U (pf_Scenario cfg) = None then Inl UnknownScenario
                  else Inr (cfg\<lparr>pf_EdgeAddr := addr\<rparr>))"

definition publicBaseURL :: "perfConfig \<Rightarrow> string" where
  "publicBaseURL c = ''https://'' @ pf_PublicHost c"

subsection \<open>Waiting for the tunnel\<close>

text \<open>
  A turn of \<open>waitForReady\<close>: the status of the probe, if it succeeded, and what the select saw.  The
  result is \<^term>\<open>None\<close> while the loop still polls, otherwise the returned error.
\<close>

datatype ready_event = RE_Tick | RE_CtxDone go_error | RE_Tunnel "go_error option"

datatype ready_error = ReadyRequest go_error | ReadyCtx go_error | TunnelExited "go_error option"

fun waitForReady :: "go_error option \<Rightarrow> (int option \<times> ready_event) list \<Rightarrow> ready_error option option" where
  "waitForReady newReqErr [] = None"
| "waitForReady newReqErr ((probe, event) # turns) =
     (case newReqErr of
        Some e \<Rightarrow> Some (Some (ReadyRequest e))
      | None \<Rightarrow>
          if probe = Some 200 then Some None
          else case event of
            RE_CtxDone e \<Rightarrow> Some (Some (ReadyCtx e))
          | RE_Tunnel err \<Rightarrow> Some (Some (TunnelExited err))
          | RE_Tick \<Rightarrow> waitForReady newReqErr turns)"

text \<open>\<open>waitForClientExit\<close>: no channel, a received error, or a timeout.\<close>

definition waitForClientExit :: "bool \<Rightarrow> go_error option option \<Rightarrow> go_error option" where
  "waitForClientExit has_chan received =
     (if \<not> has_chan then None
      else case received of
        None \<Rightarrow> None
      | Some err \<Rightarrow> if err = None \<or> err = Some ErrCanceled then None else err)"

subsection \<open>The handlers of the load generator\<close>

definition perfFastBody :: bytes where "perfFastBody = ''muxbridge perf ok'' @ [CHR 0x0A]"
definition perfBytesBody :: bytes where "perfBytesBody = replicate (64 * 1024) CHR ''b''"
definition perfStreamChunk :: bytes where "perfStreamChunk = replicate 1024 CHR ''s''"
definition perfStreamChunkCount :: nat where "perfStreamChunkCount = 8"

definition sized :: "string \<Rightarrow> bytes \<Rightarrow> handler_op list" where
  "sized ctype body =
     [OpHeader [(''Content-Type'', [ctype]), (''Content-Length'', [format_uint (length body)])], OpWrite body]"

text \<open>
  The handlers as calls on their writer.  \<open>n\<close> is the number of chunks \<open>/stream\<close> writes before a write
  fails or its context is done.
\<close>

definition perf_handler :: "nat \<Rightarrow> string \<Rightarrow> handler_op list option" where
  "perf_handler n path =
     (if path = ''/healthz'' then
        Some [OpHeader [(''Content-Type'', [''text/plain; charset=utf-8''])], OpWrite (''ok'' @ [CHR 0x0A])]
      else if path = ''/fast'' then Some (sized ''text/plain; charset=utf-8'' perfFastBody)
      else if path = ''/bytes'' then Some (sized ''application/octet-stream'' perfBytesBody)
      else if path = ''/stream'' then
        Some (OpHeader [(''Content-Type'', [''application/octet-stream''])] #
              concat (replicate (min n perfStreamChunkCount) [OpWrite perfStreamChunk, OpFlush]))
      else None)"

subsection \<open>Percentiles\<close>

definition hist_ok :: "latencyHistogram \<Rightarrow> bool" where
  "hist_ok h \<longleftrightarrow> 0 < lh_bucketWidth h \<and> 0 < lh_overflowFrom h \<and> lh_buckets h \<noteq> [] \<and>
     lh_overflowFrom h \<le> (int (length (lh_buckets h)) - 1) * lh_bucketWidth h \<and> lh_total h = sum_list (lh_buckets h)"

lemma div_mult_le_pos: "0 < b \<Longrightarrow> a div b * b \<le> (a :: int)"
  using div_mult_mod_eq [of a b] pos_mod_sign [of b a] by linarith

lemma hist_ok_new:
  assumes "0 < w" "0 < v"
  shows "hist_ok (newLatencyHistogram w v)"
proof -
  let ?n = "if v mod w \<noteq> 0 then v div w + 1 else v div w"
  have n: "0 \<le> ?n" using assms by (simp add: pos_imp_zdiv_nonneg_iff)
  have m: "v mod w < w" "v div w * w + v mod w = v" using assms by simp_all
  have "v \<le> ?n * w"
  proof (cases "v mod w = 0")
    case True
    then show ?thesis using m(2) by (metis add.right_neutral order_refl)
  next
    case False
    have "v \<le> v div w * w + w" using m by linarith
    then show ?thesis using False by (simp add: distrib_right)
  qed
  then show ?thesis using assms n
    by (auto simp: hist_ok_def newLatencyHistogram_def sdiv_pos smod_pos Let_def sum_list_replicate simp del: replicate_Suc)
qed

definition bucket_of :: "latencyHistogram \<Rightarrow> int \<Rightarrow> nat" where
  "bucket_of h x = nat (bucket_index h x)"

lemma bucket_index_range:
  assumes "hist_ok h"
  shows "0 \<le> bucket_index h x" "bucket_index h x < int (length (lh_buckets h))"
    "x < lh_overflowFrom h \<Longrightarrow> bucket_index h x < int (length (lh_buckets h)) - 1"
proof -
  let ?x = "if x < 0 then 0 else x"
  have l: "0 < length (lh_buckets h)" using assms by (simp add: hist_ok_def)
  have d: "?x sdiv lh_bucketWidth h = ?x div lh_bucketWidth h" using assms by (simp add: sdiv_pos hist_ok_def)
  have lt: "?x div lh_bucketWidth h < int (length (lh_buckets h)) - 1" if "?x < lh_overflowFrom h"
  proof (rule ccontr)
    assume "\<not> ?thesis"
    then have "(int (length (lh_buckets h)) - 1) * lh_bucketWidth h \<le> ?x div lh_bucketWidth h * lh_bucketWidth h"
      using assms by (intro mult_right_mono) (auto simp: hist_ok_def)
    also have "\<dots> \<le> ?x" using assms by (intro div_mult_le_pos) (simp add: hist_ok_def)
    finally show False using that assms by (simp add: hist_ok_def)
  qed
  have "0 \<le> ?x div lh_bucketWidth h" using assms by (simp add: pos_imp_zdiv_nonneg_iff hist_ok_def)
  then show "0 \<le> bucket_index h x" "bucket_index h x < int (length (lh_buckets h))"
    using lt l unfolding bucket_index_def Let_def d by fastforce+
  show "bucket_index h x < int (length (lh_buckets h)) - 1" if "x < lh_overflowFrom h"
    using lt that assms unfolding bucket_index_def Let_def d by (auto simp: hist_ok_def)
qed

lemma bucket_of_mono:
  assumes "hist_ok h" "x \<le> y"
  shows "bucket_of h x \<le> bucket_of h y"
proof -
  let ?c = "\<lambda>x. if x < 0 then 0 else x :: int"
  have w: "0 < lh_bucketWidth h" "?c x \<le> ?c y" using assms by (auto simp: hist_ok_def)
  have "bucket_index h x \<le> bucket_index h y"
  proof (cases "?c y < lh_overflowFrom h")
    case True
    then show ?thesis using w zdiv_mono1 [OF w(2,1)] by (simp add: bucket_index_def Let_def sdiv_pos)
  next
    case False
    then have "bucket_index h y = int (length (lh_buckets h)) - 1" by (simp add: bucket_index_def Let_def)
    then show ?thesis using bucket_index_range(2) [OF assms(1), of x] by simp
  qed
  then show ?thesis by (simp add: bucket_of_def)
qed

definition same_shape :: "latencyHistogram \<Rightarrow> latencyHistogram \<Rightarrow> bool" where
  "same_shape h h' \<longleftrightarrow> lh_bucketWidth h' = lh_bucketWidth h \<and> lh_overflowFrom h' = lh_overflowFrom h \<and>
     length (lh_buckets h') = length (lh_buckets h)"

lemma bucket_of_shape: "same_shape h h' \<Longrightarrow> bucket_of h' = bucket_of h"
  by (rule ext) (simp add: same_shape_def bucket_of_def bucket_index_def)

lemma sum_list_bump: "i < length ns \<Longrightarrow> sum_list (ns[i := Suc (ns ! i)]) = Suc (sum_list ns)"
  by (induction ns arbitrary: i) (auto split: nat.splits)

lemma Observe_ok:
  assumes "hist_ok h"
  shows "\<exists>h'. Observe x h = Some h' \<and> hist_ok h' \<and> same_shape h h' \<and>
    lh_buckets h' = (lh_buckets h)[bucket_of h x := Suc (lh_buckets h ! bucket_of h x)]"
proof -
  have "bucket_of h x < length (lh_buckets h)" using bucket_index_range [OF assms, of x] by (simp add: bucket_of_def)
  then show ?thesis using assms bucket_index_range [OF assms, of x]
    by (auto simp: Observe_def Let_def hist_ok_def same_shape_def bucket_of_def sum_list_bump)
qed

lemma observe_all_ok:
  assumes "hist_ok h"
  shows "\<exists>h'. observe_all xs h = Some h' \<and> hist_ok h' \<and> same_shape h h' \<and>
    (\<forall>i < length (lh_buckets h). lh_buckets h' ! i = lh_buckets h ! i + length (filter (\<lambda>x. bucket_of h x = i) xs))"
  using assms
proof (induction xs arbitrary: h)
  case Nil
  then show ?case by (simp add: same_shape_def)
next
  case (Cons x xs)
  obtain h1 where h1: "Observe x h = Some h1" "hist_ok h1" "same_shape h h1"
    "lh_buckets h1 = (lh_buckets h)[bucket_of h x := Suc (lh_buckets h ! bucket_of h x)]"
    using Observe_ok [OF Cons.prems] by blast
  obtain h2 where h2: "observe_all xs h1 = Some h2" "hist_ok h2" "same_shape h1 h2"
    "\<forall>i < length (lh_buckets h1). lh_buckets h2 ! i = lh_buckets h1 ! i + length (filter (\<lambda>x. bucket_of h1 x = i) xs)"
    using Cons.IH [OF h1(2)] by blast
  have "same_shape h h2" using h1(3) h2(3) by (simp add: same_shape_def)
  moreover have "lh_buckets h2 ! i = lh_buckets h ! i + length (filter (\<lambda>x. bucket_of h x = i) (x # xs))"
    if "i < length (lh_buckets h)" for i
    using that h1 h2(4) bucket_of_shape [OF h1(3)] by (cases "i = bucket_of h x") (auto simp: same_shape_def)
  ultimately show ?case using h1(1) h2(1,2) by auto
qed

lemma Observe_total: "Observe x h = Some h' \<Longrightarrow> lh_total h' = Suc (lh_total h)"
  by (auto simp: Observe_def Let_def split: if_splits)

lemma observe_all_total: "observe_all xs h = Some h' \<Longrightarrow> lh_total h' = lh_total h + length xs"
  by (induction xs arbitrary: h) (auto simp: bind_eq_Some_conv dest!: Observe_total)

lemma scan_spec:
  assumes "percentile_scan t seen index ns = Some k"
  shows "index \<le> k \<and> k - index < length ns \<and> t \<le> seen + sum_list (take (Suc (k - index)) ns) \<and>
    (seen < t \<longrightarrow> seen + sum_list (take (k - index) ns) < t)"
  using assms
proof (induction ns arbitrary: seen index)
  case (Cons n ns)
  show ?case
  proof (cases "seen + n < t")
    case True
    with Cons.prems have p: "percentile_scan t (seen + n) (Suc index) ns = Some k" by simp
    note ih = Cons.IH [OF p]
    then have "k - index = Suc (k - Suc index)" by linarith
    with ih True show ?thesis by auto
  qed (use Cons.prems in auto)
qed simp

lemma scan_total: "t \<le> seen + sum_list ns \<Longrightarrow> ns \<noteq> [] \<Longrightarrow> percentile_scan t seen index ns \<noteq> None"
proof (induction ns arbitrary: seen index)
  case (Cons n ns)
  show ?case
  proof (cases "seen + n < t")
    case True
    then have "ns \<noteq> []" using Cons.prems by auto
    moreover have "t \<le> (seen + n) + sum_list ns" using Cons.prems(1) by simp
    ultimately show ?thesis using Cons.IH True by simp
  qed simp
qed simp

lemma count_upto:
  "n \<le> length bs \<Longrightarrow> (\<And>i. i < length bs \<Longrightarrow> bs ! i = length (filter (\<lambda>x. f x = i) xs)) \<Longrightarrow>
     sum_list (take n bs) = length (filter (\<lambda>x. f x < n) xs)"
proof (induction n)
  case (Suc n)
  have "length (filter (\<lambda>x. f x < Suc n) xs) = length (filter (\<lambda>x. f x < n) xs) + length (filter (\<lambda>x. f x = n) xs)"
    by (induction xs) auto
  then show ?case using Suc by (simp add: take_Suc_conv_app_nth)
qed simp

text \<open>In a sorted list the elements below a bound come first.\<close>

lemma sorted_rank:
  fixes ks :: "nat list"
  assumes "sorted ks" "length (filter (\<lambda>k. k < j) ks) < t" "t \<le> length (filter (\<lambda>k. k < Suc j) ks)"
  shows "ks ! (t - 1) = j"
proof -
  have t: "0 < t" using assms(2) by simp
  have tw: "filter (\<lambda>k. k < m) ks = takeWhile (\<lambda>k. k < m) ks" for m
    using assms(1)
  proof (induction ks)
    case (Cons a ks)
    show ?case
    proof (cases "a < m")
      case True
      then show ?thesis using Cons by simp
    next
      case False
      then have "filter (\<lambda>k. k < m) ks = []" using Cons.prems by (auto simp: filter_empty_conv)
      then show ?thesis using False by simp
    qed
  qed simp
  have "t \<le> length ks" using assms(3) length_filter_le order_trans by blast
  moreover have "ks ! (t - 1) < Suc j"
  proof -
    have "t - 1 < length (takeWhile (\<lambda>k. k < Suc j) ks)" using assms(3) t tw by (metis Suc_pred' less_eq_Suc_le)
    then show ?thesis using nth_mem takeWhile_nth set_takeWhileD by metis
  qed
  moreover have "\<not> ks ! (t - 1) < j"
  proof
    assume lt: "ks ! (t - 1) < j"
    have "ks ! i < j" if "i < t" for i
      using that t lt \<open>t \<le> length ks\<close> sorted_nth_mono [OF assms(1), of i "t - 1"] by fastforce
    then have "takeWhile (\<lambda>k. k < j) (take t ks) = take t ks"
      using \<open>t \<le> length ks\<close> by (auto simp: takeWhile_eq_all_conv in_set_conv_nth)
    then have "t \<le> length (takeWhile (\<lambda>k. k < j) ks)"
      using \<open>t \<le> length ks\<close> takeWhile_append2 [of "take t ks" "\<lambda>k. k < j" "drop t ks"]
      by (metis append_take_drop_id length_append length_take le_add1 min.absorb2 takeWhile_eq_all_conv)
    then show False using assms(2) tw by simp
  qed
  ultimately show ?thesis by simp
qed

lemma sort_map_mono:
  fixes f :: "int \<Rightarrow> nat"
  assumes "\<And>x y. x \<le> y \<Longrightarrow> f x \<le> f y"
  shows "sort (map f xs) = map f (sort xs)"
proof (rule properties_for_sort)
  show "mset (map f (sort xs)) = mset (map f xs)" by simp
  have "sorted (sort xs)" by simp
  then show "sorted (map f (sort xs))" by (rule sorted_map_mono) (simp add: assms mono_on_def)
qed

lemma percentile_bucket:
  assumes h0: "hist_ok h0" "\<forall>i < length (lh_buckets h0). lh_buckets h0 ! i = 0"
    and h: "observe_all xs h0 = Some h" and t: "0 < t" "t \<le> length xs"
  shows "percentile_scan t 0 0 (lh_buckets h) = Some (bucket_of h (sort xs ! (t - 1)))"
proof -
  obtain h' where h': "observe_all xs h0 = Some h'" "hist_ok h'" "same_shape h0 h'"
    "\<forall>i < length (lh_buckets h0). lh_buckets h' ! i = lh_buckets h0 ! i + length (filter (\<lambda>x. bucket_of h0 x = i) xs)"
    using observe_all_ok [OF h0(1)] by blast
  with h have ok: "hist_ok h" "same_shape h0 h"
    and b: "\<And>i. i < length (lh_buckets h) \<Longrightarrow> lh_buckets h ! i = length (filter (\<lambda>x. bucket_of h x = i) xs)"
    using h0(2) bucket_of_shape [of h0 h] by (auto simp: same_shape_def)
  let ?f = "bucket_of h"
  have in_range: "?f x < length (lh_buckets h)" for x
    using bucket_index_range [OF ok(1), of x] by (simp add: bucket_of_def)
  have cnt: "sum_list (take n (lh_buckets h)) = length (filter (\<lambda>x. ?f x < n) xs)" if "n \<le> length (lh_buckets h)" for n
    using count_upto [OF that] b by blast
  have "sum_list (lh_buckets h) = length xs" using cnt [of "length (lh_buckets h)"] in_range by simp
  then obtain k where k: "percentile_scan t 0 0 (lh_buckets h) = Some k"
    using scan_total [of t 0 "lh_buckets h" 0] t ok(1) by (auto simp: hist_ok_def)
  have s: "k < length (lh_buckets h)" "t \<le> sum_list (take (Suc k) (lh_buckets h))" "sum_list (take k (lh_buckets h)) < t"
    using scan_spec [OF k] t by auto
  let ?ks = "sort (map ?f xs)"
  have "length (filter (\<lambda>k. k < n) ?ks) = length (filter (\<lambda>x. ?f x < n) xs)" for n
  proof -
    have "size (filter_mset (\<lambda>k. k < n) (mset ?ks)) = size (filter_mset (\<lambda>k. k < n) (mset (map ?f xs)))" by simp
    then have "length (filter (\<lambda>k. k < n) ?ks) = length (filter (\<lambda>k. k < n) (map ?f xs))"
      unfolding mset_filter [symmetric] size_mset .
    then show ?thesis by (simp add: filter_map comp_def)
  qed
  then have "?ks ! (t - 1) = k" using s cnt [of k] cnt [of "Suc k"] by (intro sorted_rank) simp_all
  moreover have "?ks = map ?f (sort xs)" by (rule sort_map_mono) (rule bucket_of_mono [OF ok(1)])
  ultimately show ?thesis using k t by simp
qed



subsection \<open>The summary adds up\<close>

definition status_count :: "(int, nat) gomap \<Rightarrow> int \<Rightarrow> nat" where
  "status_count m code = (case map_get m code of None \<Rightarrow> 0 | Some n \<Rightarrow> n)"

lemma status_count_bump:
  "status_count (count_status code m) code' = (if code' = code then Suc (status_count m code) else status_count m code')"
  by (simp add: status_count_def count_status_def map_get_def map_put_def update_conv')

definition summary_ok :: "requestResult list \<Rightarrow> loadSummary \<Rightarrow> bool" where
  "summary_ok rs s \<longleftrightarrow>
     ls_TotalRequests s = length rs \<and> ls_RequestErrors s = length (filter (\<lambda>r. rr_Err r \<noteq> None) rs) \<and>
     ls_SuccessfulResponses s = length (filter (\<lambda>r. rr_Err r = None) rs) \<and>
     ls_LatencySum s = sum_list (map rr_Latency rs) \<and> ls_MaxLatency s = fold max (map rr_Latency rs) 0 \<and>
     ls_ResponseBytes s = sum_list (map (\<lambda>r. max 0 (rr_Bytes r)) rs) \<and>
     (\<forall>code > 0. status_count (ls_StatusCounts s) code = length (filter (\<lambda>r. rr_StatusCode r = code) rs)) \<and> hist_ok (ls_LatencyHistogram s) \<and>
     lh_total (ls_LatencyHistogram s) = length rs"

lemma Record_ok:
  assumes "summary_ok rs s"
  shows "\<exists>s'. Record r s = Some s' \<and> summary_ok (rs @ [r]) s'"
proof -
  obtain h where h: "Observe (rr_Latency r) (ls_LatencyHistogram s) = Some h" "hist_ok h"
    using Observe_ok assms unfolding summary_ok_def by blast
  then have t: "lh_total h = Suc (length rs)" using Observe_total assms by (simp add: summary_ok_def)
  then show ?thesis using assms h t
    by (auto simp: Record_def summary_ok_def Let_def max_def status_count_bump)
qed

text \<open>
  The counters of a summary are those of the recorded results: every request is a success or an error,
  and the sum, the maximum and the bytes are exact.
\<close>

lemma record_all_ok: "summary_ok rs s \<Longrightarrow> \<exists>s'. record_all rs' s = Some s' \<and> summary_ok (rs @ rs') s'"
proof (induction rs' arbitrary: rs s)
  case (Cons r rs')
  obtain s1 where "Record r s = Some s1" "summary_ok (rs @ [r]) s1" using Record_ok [OF Cons.prems] by blast
  then show ?case using Cons.IH [of "rs @ [r]" s1] by simp
qed simp

lemma summary_ok_new: "summary_ok [] (newLoadSummary cfg startedAt)"
proof -
  have "hist_ok (newLatencyHistogram latencyBucketWidth latencyBucketLimit)"
    by (rule hist_ok_new) (simp_all add: latencyBucketWidth_def latencyBucketLimit_def)
  then show ?thesis by (simp add: summary_ok_def newLoadSummary_def newLatencyHistogram_def Let_def status_count_def map_get_def)
qed

text \<open>
  The minimum is not exact: zero stands for \<open>no latency yet\<close>, so that a latency of zero is forgotten.
\<close>

lemma min_latency_forgets_zero:
  "\<exists>s. record_all [\<lparr>rr_StatusCode = 200, rr_Bytes = 0, rr_Latency = 0, rr_Err = None\<rparr>,
        \<lparr>rr_StatusCode = 200, rr_Bytes = 0, rr_Latency = 5, rr_Err = None\<rparr>] (newLoadSummary cfg startedAt) = Some s \<and> ls_MinLatency s = 5"
proof -
  let ?r = "\<lambda>l. \<lparr>rr_StatusCode = 200, rr_Bytes = 0, rr_Latency = l, rr_Err = None\<rparr>"
  have min: "ls_MinLatency s' = (if ls_MinLatency s = 0 \<or> rr_Latency r < ls_MinLatency s then rr_Latency r else ls_MinLatency s)"
    if "Record r s = Some s'" for r s s' using that by (auto simp: Record_def Let_def split: option.splits)
  obtain s1 where s1: "Record (?r 0) (newLoadSummary cfg startedAt) = Some s1" "summary_ok [?r 0] s1"
    using Record_ok [OF summary_ok_new, of "?r 0"] by auto
  obtain s2 where s2: "Record (?r 5) s1 = Some s2" using Record_ok [OF s1(2)] by blast
  have "ls_MinLatency s1 = 0" using min [OF s1(1)] by (simp add: newLoadSummary_def)
  then have "ls_MinLatency s2 = 5" using min [OF s2] by simp
  with s1(1) s2 show ?thesis by (intro exI [of _ s2]) simp
qed

lemma requestFor_member: "sc_Requests s \<noteq> [] \<Longrightarrow> requestFor w i s \<in> set (sc_Requests s)"
  by (simp add: requestFor_def)

lemma perf_loadConfig_Inr:
  assumes "perf_loadConfig U int_of dur_of args getenv = Inr cfg"
  shows "0 < pf_Connections cfg \<and> 0 < pf_Duration cfg \<and> 0 < pf_RequestTimeout cfg \<and> 0 < pf_ReadyTimeout cfg \<and>
    pf_EdgeAddr cfg \<noteq> [] \<and> ValidateDomain U (pf_PublicHost cfg) = None \<and> loadScenario U (pf_Scenario cfg) \<noteq> None"
  using assms
  by (auto simp: perf_loadConfig_def perf_edge_addr_def Let_def
      split: sum.splits prod.splits option.splits if_splits)

text \<open>Every path of a scenario has a handler, and the announced length of a sized response is right.\<close>

lemma loadScenario_served:
  "loadScenario U name = Some s \<Longrightarrow> sc_Requests s \<noteq> [] \<and> (\<forall>p \<in> set (sc_Requests s). perf_handler n p \<noteq> None)"
  by (auto simp: loadScenario_def Let_def perf_handler_def split: if_splits)

lemma sized_length:
  "meant_start [] (sized ctype body) = (200, [(''Content-Type'', [ctype]), (''Content-Length'', [format_uint (length body)])])"
  "concat (meant_chunks (sized ctype body)) = body"
  by (simp_all add: sized_def)

lemma stream_length:
  assumes "perf_handler n ''/stream'' = Some ops"
  shows "length (concat (meant_chunks ops)) = 1024 * min n 8"
proof -
  have "length (concat (meant_chunks (concat (replicate k [OpWrite c, OpFlush])))) = k * length c" for k c
    by (induction k) auto
  then show ?thesis using assms by (auto simp: perf_handler_def perfStreamChunkCount_def perfStreamChunk_def)
qed

lemma waitForReady_nil:
  "waitForReady None turns = Some None \<longleftrightarrow>
     (\<exists>k < length turns. fst (turns ! k) = Some 200 \<and> (\<forall>j < k. snd (turns ! j) = RE_Tick \<and> fst (turns ! j) \<noteq> Some 200))"
proof (induction turns)
  case (Cons x turns)
  obtain p e where x: "x = (p, e)" by (cases x)
  show ?case
  proof (cases "p = Some 200")
    case True
    then show ?thesis using x by (auto intro!: exI [of _ 0])
  next
    case False
    then show ?thesis using x Cons.IH
      by (cases e) (auto simp: Ex_less_Suc2 All_less_Suc2 split: option.splits)
  qed
qed simp

end
