(* ===== verification/PerfLoad.thy ===== *)
theory PerfLoad
  imports PerfClient ClientLifecycle
begin

text \<open>
  The load run of the load generator (\<open>runLoad\<close> and \<open>doRequest\<close> of \<open>cmd/perf-client/main.go\<close>): a worker
  goroutine per connection, a goroutine that waits for the timer, one that closes the channel of results
  when all workers are gone, and the loop that records the results.

  The goroutines are one step relation.  The outcome of a request, the timer and the end of the context
  are open.  The fields \<open>ld_log\<close>, \<open>ld_sent\<close>, \<open>ld_dropped\<close> and \<open>ld_idle\<close> record what happened: the requests
  made, the results handed over, those dropped at the end of the context, and the clients whose idle
  connections were closed.
\<close>

subsection \<open>Start of a run\<close>

datatype load_error = LoadConnections | LoadDuration | LoadFactory | LoadNilClient nat

fun create_clients :: "(nat \<Rightarrow> 'c option) \<Rightarrow> nat \<Rightarrow> nat \<Rightarrow> 'c list \<Rightarrow> (nat \<times> 'c list) + 'c list" where
  "create_clients factory workerID 0 clients = Inr clients"
| "create_clients factory workerID (Suc n) clients =
     (case factory workerID of
        None \<Rightarrow> Inl (workerID, clients)
      | Some client \<Rightarrow> create_clients factory (Suc workerID) n (clients @ [client]))"

datatype worker_pc =
    WK_Check nat
  | WK_Request nat
  | WK_Send nat requestResult
  | WK_Returned

record load =
  ld_ctxDone :: bool
  ld_waiting :: bool
  ld_stop :: bool
  ld_workers :: "worker_pc list"
  ld_results :: "requestResult chan"
  ld_closed :: bool
  ld_summary :: loadSummary
  ld_returned :: bool
  ld_panic :: bool
  ld_log :: "(nat \<times> string \<times> requestResult) list"
  ld_sent :: "requestResult list"
  ld_dropped :: "requestResult list"
  ld_idle :: "nat list"

text \<open>
  The checks and the clients of \<open>runLoad\<close>; with an error comes the list of clients that it has closed.
  A missing factory is \<^term>\<open>None\<close>.
\<close>

definition runLoad_open ::
  "loadRunConfig \<Rightarrow> (nat \<Rightarrow> 'c option) option \<Rightarrow> bool \<Rightarrow> int \<Rightarrow> (load_error \<times> 'c list) + load" where
  "runLoad_open cfg clientFactory ctxDone startedAt =
     (if lr_Connections cfg \<le> 0 then Inl (LoadConnections, [])
      else if lr_Duration cfg \<le> 0 then Inl (LoadDuration, [])
      else case clientFactory of
        None \<Rightarrow> Inl (LoadFactory, [])
      | Some factory \<Rightarrow>
          case create_clients factory 0 (nat (lr_Connections cfg)) [] of
            Inl (workerID, created) \<Rightarrow> Inl (LoadNilClient workerID, created)
          | Inr clients \<Rightarrow>
              Inr \<lparr>ld_ctxDone = ctxDone, ld_waiting = True, ld_stop = False,
                   ld_workers = replicate (length clients) (WK_Check 0),
                   ld_results = chan_make (nat (lr_Connections cfg * 2)), ld_closed = False,
                   ld_summary = newLoadSummary cfg startedAt, ld_returned = False, ld_panic = False,
                   ld_log = [], ld_sent = [], ld_dropped = [], ld_idle = []\<rparr>)"

subsection \<open>A request\<close>

definition trim_right_byte :: "char \<Rightarrow> string \<Rightarrow> string" where
  "trim_right_byte c s = rev (dropWhile (\<lambda>x. x = c) (rev s))"

definition target_url :: "loadRunConfig \<Rightarrow> nat \<Rightarrow> nat \<Rightarrow> string" where
  "target_url cfg workerID iteration =
     trim_right_byte CHR ''/'' (lr_BaseURL cfg) @ requestFor workerID iteration (lr_Scenario cfg)"

text \<open>
  \<open>doRequest\<close>: the error of building the request, the error of sending it or its status with the bytes
  read and the error of reading them, and the time it took.
\<close>

definition doRequest :: "go_error option \<Rightarrow> go_error + (int \<times> int \<times> go_error option) \<Rightarrow> int \<Rightarrow> requestResult" where
  "doRequest newReqErr answer latency =
     (case newReqErr of
        Some e \<Rightarrow> \<lparr>rr_StatusCode = 0, rr_Bytes = 0, rr_Latency = latency, rr_Err = Some e\<rparr>
      | None \<Rightarrow>
          case answer of
            Inl e \<Rightarrow> \<lparr>rr_StatusCode = 0, rr_Bytes = 0, rr_Latency = latency, rr_Err = Some e\<rparr>
          | Inr (status, written, readErr) \<Rightarrow>
              \<lparr>rr_StatusCode = status, rr_Bytes = written, rr_Latency = latency, rr_Err = readErr\<rparr>)"

subsection \<open>The goroutines\<close>

abbreviation set_worker :: "nat \<Rightarrow> worker_pc \<Rightarrow> load \<Rightarrow> load" where
  "set_worker i pc s \<equiv> s\<lparr>ld_workers := (ld_workers s)[i := pc]\<rparr>"

definition worker_return :: "nat \<Rightarrow> load \<Rightarrow> load" where
  "worker_return i s = (set_worker i WK_Returned s)\<lparr>ld_idle := ld_idle s @ [i]\<rparr>"

inductive load_step :: "loadRunConfig \<Rightarrow> load \<Rightarrow> load \<Rightarrow> bool" for cfg where
  ctx_done: "\<not> ld_ctxDone s \<Longrightarrow> load_step cfg s (s\<lparr>ld_ctxDone := True\<rparr>)"
| timer: "ld_waiting s \<Longrightarrow> \<not> ld_returned s \<Longrightarrow> load_step cfg s (s\<lparr>ld_waiting := False, ld_stop := True\<rparr>)"
| waiter_done: "ld_waiting s \<Longrightarrow> ld_ctxDone s \<Longrightarrow> load_step cfg s (s\<lparr>ld_waiting := False\<rparr>)"
| check_return: "i < length (ld_workers s) \<Longrightarrow> ld_workers s ! i = WK_Check k \<Longrightarrow> ld_ctxDone s \<or> ld_stop s \<Longrightarrow>
    load_step cfg s (worker_return i s)"
| check_go: "i < length (ld_workers s) \<Longrightarrow> ld_workers s ! i = WK_Check k \<Longrightarrow> \<not> ld_ctxDone s \<Longrightarrow> \<not> ld_stop s \<Longrightarrow>
    load_step cfg s (set_worker i (WK_Request k) s)"
| request: "i < length (ld_workers s) \<Longrightarrow> ld_workers s ! i = WK_Request k \<Longrightarrow>
    r = doRequest newReqErr answer latency \<Longrightarrow>
    load_step cfg s ((set_worker i (WK_Send k r) s)\<lparr>ld_log := ld_log s @ [(i, target_url cfg i k, r)]\<rparr>)"
| send_result: "i < length (ld_workers s) \<Longrightarrow> ld_workers s ! i = WK_Send k r \<Longrightarrow> \<not> ld_closed s \<Longrightarrow>
    chan_send_ready (ld_results s) \<Longrightarrow>
    load_step cfg s ((set_worker i (WK_Check (Suc k)) s)\<lparr>ld_results := chan_send r (ld_results s), ld_sent := ld_sent s @ [r]\<rparr>)"
| send_panic: "i < length (ld_workers s) \<Longrightarrow> ld_workers s ! i = WK_Send k r \<Longrightarrow> ld_closed s \<Longrightarrow>
    load_step cfg s (s\<lparr>ld_panic := True\<rparr>)"
| send_cancelled: "i < length (ld_workers s) \<Longrightarrow> ld_workers s ! i = WK_Send k r \<Longrightarrow> ld_ctxDone s \<Longrightarrow>
    load_step cfg s ((worker_return i s)\<lparr>ld_dropped := ld_dropped s @ [r]\<rparr>)"
| close_results: "list_all (\<lambda>pc. pc = WK_Returned) (ld_workers s) \<Longrightarrow> \<not> ld_closed s \<Longrightarrow> load_step cfg s (s\<lparr>ld_closed := True\<rparr>)"
| collect: "\<not> ld_returned s \<Longrightarrow> chan_recv (ld_results s) = Some (r, c) \<Longrightarrow> Record r (ld_summary s) = Some u \<Longrightarrow>
    load_step cfg s (s\<lparr>ld_results := c, ld_summary := u\<rparr>)"
| collect_panic: "\<not> ld_returned s \<Longrightarrow> chan_recv (ld_results s) = Some (r, c) \<Longrightarrow> Record r (ld_summary s) = None \<Longrightarrow>
    load_step cfg s (s\<lparr>ld_panic := True\<rparr>)"
| return: "\<not> ld_returned s \<Longrightarrow> ld_closed s \<Longrightarrow> chan_recv (ld_results s) = None \<Longrightarrow>
    load_step cfg s (s\<lparr>ld_returned := True, ld_summary := (ld_summary s)\<lparr>ls_EndedAt := Some now\<rparr>\<rparr>)"

definition load_init :: "loadRunConfig \<Rightarrow> load \<Rightarrow> bool" where
  "load_init cfg s \<longleftrightarrow> (\<exists>(factory :: (nat \<Rightarrow> nat option) option) ctxDone startedAt. runLoad_open cfg factory ctxDone startedAt = Inr s)"

subsection \<open>What always holds\<close>

text \<open>The channel and the summary: what was sent is what was recorded and what still waits.\<close>

definition collect_ok :: "loadRunConfig \<Rightarrow> load \<Rightarrow> bool" where
  "collect_ok cfg s \<longleftrightarrow>
     0 < lr_Connections cfg \<and> length (ld_workers s) = nat (lr_Connections cfg) \<and>
     ch_cap (ld_results s) = nat (lr_Connections cfg * 2) \<and> chan_wf (ld_results s) \<and> \<not> ld_panic s \<and>
     (\<exists>rs. ld_sent s = rs @ ch_buf (ld_results s) \<and> summary_ok rs (ld_summary s)) \<and>
     (ld_closed s \<longrightarrow> list_all (\<lambda>pc. pc = WK_Returned) (ld_workers s)) \<and>
     (ld_returned s \<longrightarrow> ld_closed s \<and> ch_buf (ld_results s) = [])"

fun pending :: "worker_pc \<Rightarrow> requestResult list" where
  "pending (WK_Send k r) = [r]"
| "pending _ = []"

text \<open>The requests: every result is sent, dropped when the context has ended, or still with its worker.\<close>

definition results_ok :: "load \<Rightarrow> bool" where
  "results_ok s \<longleftrightarrow>
     mset (map (\<lambda>x. snd (snd x)) (ld_log s)) =
       mset (ld_sent s) + mset (ld_dropped s) + mset (concat (map pending (ld_workers s))) \<and>
     (ld_dropped s \<noteq> [] \<longrightarrow> ld_ctxDone s) \<and> (\<not> ld_waiting s \<longrightarrow> ld_stop s \<or> ld_ctxDone s)"

fun made :: "worker_pc \<Rightarrow> nat \<Rightarrow> bool" where
  "made (WK_Check k) n \<longleftrightarrow> n = k"
| "made (WK_Request k) n \<longleftrightarrow> n = k"
| "made (WK_Send k r) n \<longleftrightarrow> n = Suc k"
| "made WK_Returned n \<longleftrightarrow> True"

definition urls_of :: "nat \<Rightarrow> load \<Rightarrow> string list" where
  "urls_of i s = map (\<lambda>x. fst (snd x)) (filter (\<lambda>x. fst x = i) (ld_log s))"

definition urls_ok :: "loadRunConfig \<Rightarrow> load \<Rightarrow> bool" where
  "urls_ok cfg s \<longleftrightarrow> (\<forall>i < length (ld_workers s). urls_of i s = map (target_url cfg i) [0..<length (urls_of i s)] \<and>
     made (ld_workers s ! i) (length (urls_of i s)))"

definition returned_workers :: "worker_pc list \<Rightarrow> nat set" where
  "returned_workers ws = {i. i < length ws \<and> ws ! i = WK_Returned}"

definition idle_ok :: "load \<Rightarrow> bool" where
  "idle_ok s \<longleftrightarrow> distinct (ld_idle s) \<and> set (ld_idle s) = returned_workers (ld_workers s) \<and>
     length (ld_dropped s) \<le> length (ld_idle s)"

lemma mset_concat_update:
  "i < length xs \<Longrightarrow> mset (concat (map f (xs[i := y]))) + mset (f (xs ! i)) = mset (concat (map f xs)) + mset (f y)"
  by (induction xs arbitrary: i) (auto split: nat.splits)

lemma pending_update:
  assumes "i < length xs"
  shows "pending (xs ! i) = [] \<Longrightarrow> mset (concat (map pending (xs[i := pc]))) = mset (concat (map pending xs)) + mset (pending pc)"
    and "pending (xs ! i) = [r] \<Longrightarrow> pending pc = [] \<Longrightarrow>
      mset (concat (map pending xs)) = add_mset r (mset (concat (map pending (xs[i := pc]))))"
  using mset_concat_update [OF assms, of pending pc] by simp_all

lemma summary_ok_ended: "summary_ok rs (s\<lparr>ls_EndedAt := t\<rparr>) = summary_ok rs s"
  by (simp add: summary_ok_def)

lemma collect_ok_worker:
  assumes "collect_ok cfg s" "i < length (ld_workers s)" "ld_workers s ! i \<noteq> WK_Returned"
  shows "\<not> ld_closed s" "\<not> ld_returned s"
  using assms by (auto simp: collect_ok_def list_all_length)

lemma collect_ok_step:
  assumes "collect_ok cfg s" "load_step cfg s t"
  shows "collect_ok cfg t"
  using assms(2)
proof cases
  case (collect r c u)
  obtain rs where rs: "ld_sent s = rs @ ch_buf (ld_results s)" "summary_ok rs (ld_summary s)"
    using assms(1) by (auto simp: collect_ok_def)
  from Record_ok [OF rs(2), of r] collect have "summary_ok (rs @ [r]) u" by simp
  with collect rs assms(1) show ?thesis
    by (auto simp: collect_ok_def chan_recv_def chan_wf_def split: list.splits)
next
  case (collect_panic r c)
  moreover obtain rs where "summary_ok rs (ld_summary s)" using assms(1) by (auto simp: collect_ok_def)
  ultimately show ?thesis using Record_ok [of rs "ld_summary s" r] by simp
next
  case (send_result i k r)
  then show ?thesis using assms(1) collect_ok_worker [OF assms(1), of i]
    by (auto simp: collect_ok_def chan_send_def chan_send_ready_def chan_wf_def)
next
  case (send_panic i k r)
  then show ?thesis using collect_ok_worker [OF assms(1), of i] by auto
next
  case (return now)
  then show ?thesis using assms(1) by (auto simp: collect_ok_def chan_recv_def summary_ok_ended split: list.splits)
qed (use assms(1) collect_ok_worker [OF assms(1)] in \<open>auto simp: collect_ok_def worker_return_def list_all_length nth_list_update\<close>)

lemma results_ok_step:
  assumes "results_ok s" "load_step cfg s t"
  shows "results_ok t"
  using assms(2)
proof cases
  case (send_result i k r)
  then have "mset (concat (map pending (ld_workers s))) =
      add_mset r (mset (concat (map pending ((ld_workers s)[i := WK_Check (Suc k)]))))"
    by (intro pending_update(2)) simp_all
  with send_result show ?thesis using assms(1) by (simp add: results_ok_def)
next
  case (send_cancelled i k r)
  then have "mset (concat (map pending (ld_workers s))) =
      add_mset r (mset (concat (map pending ((ld_workers s)[i := WK_Returned]))))"
    by (intro pending_update(2)) simp_all
  with send_cancelled show ?thesis using assms(1) by (simp add: results_ok_def worker_return_def)
qed (use assms(1) in \<open>auto simp: results_ok_def worker_return_def pending_update(1)\<close>)

lemma urls_ok_step:
  assumes "urls_ok cfg s" "load_step cfg s t"
  shows "urls_ok cfg t"
  using assms(2)
proof cases
  case (request i k r e a l)
  then have u: "urls_of j t = (if j = i then urls_of i s @ [target_url cfg i k] else urls_of j s)" for j
    by (simp add: urls_of_def)
  have n: "length (urls_of i s) = k" using request assms(1) by (auto simp: urls_ok_def)
  show ?thesis unfolding urls_ok_def
  proof (intro allI impI)
    fix j assume j: "j < length (ld_workers t)"
    show "urls_of j t = map (target_url cfg j) [0..<length (urls_of j t)] \<and> made (ld_workers t ! j) (length (urls_of j t))"
    proof (cases "j = i")
      case True
      have "urls_of i s = map (target_url cfg i) [0..<k]" using request(2) assms(1) n by (auto simp: urls_ok_def)
      then show ?thesis using True u request n by simp
    next
      case False
      then show ?thesis using u request assms(1) j by (simp add: urls_ok_def)
    qed
  qed
qed (use assms(1) in \<open>auto simp: urls_ok_def urls_of_def worker_return_def nth_list_update\<close>)

lemma returned_update:
  assumes "i < length ws" "ws ! i \<noteq> WK_Returned"
  shows "returned_workers (ws[i := pc]) = (if pc = WK_Returned then insert i (returned_workers ws) else returned_workers ws)"
    and "i \<notin> returned_workers ws"
  using assms by (auto simp: returned_workers_def nth_list_update)

lemma idle_ok_step:
  assumes "idle_ok s" "load_step cfg s t"
  shows "idle_ok t"
  using assms(2)
  by cases (use assms(1) in \<open>simp_all add: idle_ok_def worker_return_def returned_update\<close>)

definition load_ok :: "loadRunConfig \<Rightarrow> load \<Rightarrow> bool" where
  "load_ok cfg s \<longleftrightarrow> collect_ok cfg s \<and> results_ok s \<and> urls_ok cfg s \<and> idle_ok s"

lemma create_clients_length:
  "create_clients factory w n cs = Inr clients \<Longrightarrow> length clients = length cs + n"
  by (induction factory w n cs rule: create_clients.induct) (auto split: option.splits)

lemma load_ok_init:
  assumes "load_init cfg s"
  shows "load_ok cfg s"
proof -
  obtain factory :: "nat \<Rightarrow> nat option" and ctxDone startedAt clients where
    c: "0 < lr_Connections cfg" "create_clients factory 0 (nat (lr_Connections cfg)) [] = Inr clients"
    and s: "s = \<lparr>ld_ctxDone = ctxDone, ld_waiting = True, ld_stop = False, ld_workers = replicate (length clients) (WK_Check 0),
       ld_results = chan_make (nat (lr_Connections cfg * 2)), ld_closed = False, ld_summary = newLoadSummary cfg startedAt,
       ld_returned = False, ld_panic = False, ld_log = [], ld_sent = [], ld_dropped = [], ld_idle = []\<rparr>"
    using assms unfolding load_init_def runLoad_open_def
    by (auto split: if_splits option.splits sum.splits)
  have "collect_ok cfg s"
    using c create_clients_length [OF c(2)] summary_ok_new by (simp add: s collect_ok_def chan_make_def chan_wf_def)
  moreover have "results_ok s" by (simp add: s results_ok_def)
  moreover have "urls_ok cfg s" "idle_ok s" by (simp_all add: s urls_ok_def urls_of_def idle_ok_def returned_workers_def)
  ultimately show ?thesis by (simp add: load_ok_def)
qed

interpretation load: invariant_system "load_init cfg" "load_step cfg" "load_ok cfg" for cfg
proof
  show "load_ok cfg s" if "load_init cfg s" for s using that by (rule load_ok_init)
  show "load_ok cfg t" if "load_ok cfg s" "load_step cfg s t" for s t
    using that collect_ok_step results_ok_step urls_ok_step idle_ok_step unfolding load_ok_def by blast
qed

subsection \<open>The summary is exact\<close>

lemma returned_pending: "list_all (\<lambda>pc. pc = WK_Returned) ws \<Longrightarrow> concat (map pending ws) = []"
  by (induction ws) auto

lemma returned_all: "list_all (\<lambda>pc. pc = WK_Returned) ws \<Longrightarrow> returned_workers ws = {..<length ws}"
  by (auto simp: returned_workers_def list_all_length)


subsection \<open>A run ends\<close>

fun worker_weight :: "worker_pc \<Rightarrow> nat" where
  "worker_weight (WK_Check k) = 1"
| "worker_weight (WK_Request k) = 4"
| "worker_weight (WK_Send k r) = 3"
| "worker_weight WK_Returned = 0"

definition load_weight :: "load \<Rightarrow> nat" where
  "load_weight s = sum_list (map worker_weight (ld_workers s)) + length (ch_buf (ld_results s)) +
     of_bool (\<not> ld_closed s) + of_bool (\<not> ld_returned s) + of_bool (\<not> ld_ctxDone s) + of_bool (ld_waiting s)"

definition load_stopping :: "loadRunConfig \<Rightarrow> load \<Rightarrow> bool" where
  "load_stopping cfg s \<longleftrightarrow> load_ok cfg s \<and> (ld_stop s \<or> ld_ctxDone s)"

lemma weight_update:
  "i < length ws \<Longrightarrow> sum_list (map worker_weight (ws[i := pc])) + worker_weight (ws ! i) =
     sum_list (map worker_weight ws) + worker_weight pc"
  by (induction ws arbitrary: i) (auto split: nat.splits)

lemma load_weight_step:
  assumes "load_stopping cfg s" "load_step cfg s t"
  shows "load_weight t < load_weight s"
proof -
  have ok: "collect_ok cfg s" "ld_stop s \<or> ld_ctxDone s" using assms(1) by (simp_all add: load_stopping_def load_ok_def)
  have np: "\<not> ld_panic t" using collect_ok_step [OF ok(1) assms(2)] by (simp add: collect_ok_def)
  from assms(2) show ?thesis
  proof cases
    case (check_return i k)
    then show ?thesis using weight_update [of i "ld_workers s" WK_Returned] by (simp add: load_weight_def worker_return_def)
  next
    case (request i k r e a l)
    then show ?thesis using weight_update [of i "ld_workers s" "WK_Send k r"] by (simp add: load_weight_def)
  next
    case (send_result i k r)
    then show ?thesis using weight_update [of i "ld_workers s" "WK_Check (Suc k)"] by (simp add: load_weight_def chan_send_def)
  next
    case (send_cancelled i k r)
    then show ?thesis using weight_update [of i "ld_workers s" WK_Returned] by (simp add: load_weight_def worker_return_def)
  next
    case (collect r c u)
    then have "length (ch_buf (ld_results s)) = Suc (length (ch_buf c))" by (auto simp: chan_recv_def split: list.splits)
    then show ?thesis using collect by (simp add: load_weight_def)
  qed (use ok np in \<open>auto simp: load_weight_def\<close>)
qed

lemma load_progress:
  assumes "load_stopping cfg s" "\<not> ld_returned s"
  shows "\<exists>t. load_step cfg s t"
proof (cases "ch_buf (ld_results s)")
  case (Cons r rs)
  then have "chan_recv (ld_results s) = Some (r, ld_results s\<lparr>ch_buf := rs\<rparr>)" by (simp add: chan_recv_def)
  then show ?thesis using assms(2) by (cases "Record r (ld_summary s)") (blast intro: collect collect_panic)+
next
  case Nil
  have ok: "collect_ok cfg s" "ld_stop s \<or> ld_ctxDone s" using assms(1) by (simp_all add: load_stopping_def load_ok_def)
  show ?thesis
  proof (cases "list_all (\<lambda>pc. pc = WK_Returned) (ld_workers s)")
    case True
    have "chan_recv (ld_results s) = None" using Nil by (simp add: chan_recv_def)
    then show ?thesis using True assms(2) by (cases "ld_closed s") (blast intro: close_results load_step.return)+
  next
    case False
    then obtain i where i: "i < length (ld_workers s)" "ld_workers s ! i \<noteq> WK_Returned" by (auto simp: list_all_length)
    have room: "chan_send_ready (ld_results s)" using ok(1) Nil by (simp add: collect_ok_def chan_send_ready_def)
    show ?thesis
    proof (cases "ld_workers s ! i")
      case (WK_Check k)
      then show ?thesis using i ok(2) by (blast intro: check_return)
    next
      case (WK_Request k)
      then show ?thesis using i by (blast intro: request)
    next
      case (WK_Send k r)
      then show ?thesis using i room collect_ok_worker(1) [OF ok(1) i] by (blast intro: send_result)
    qed (use i in simp)
  qed
qed

interpretation load_end: terminating_system "load_stopping cfg" "load_step cfg" "load_stopping cfg" ld_returned load_weight for cfg
proof
  show "load_stopping cfg t" if s: "load_stopping cfg s" and st: "load_step cfg s t" for s t
  proof -
    have "ld_stop s \<or> ld_ctxDone s" using s by (simp add: load_stopping_def)
    with st have "ld_stop t \<or> ld_ctxDone t" by cases (simp_all add: worker_return_def)
    then show ?thesis using load.inv_step [OF _ st] s by (simp add: load_stopping_def)
  qed
  show "load_stopping cfg s" if "load_stopping cfg s" for s using that .
  show "\<exists>t. load_step cfg s t" if "load_stopping cfg s" "\<not> ld_returned s" for s using that by (rule load_progress)
  show "load_weight t < load_weight s" if "load_stopping cfg s" "load_step cfg s t" for s t using that by (rule load_weight_step)
qed

lemma load_weight_bound:
  assumes "load_ok cfg s"
  shows "load_weight s \<le> 6 * nat (lr_Connections cfg) + 4"
proof -
  have c: "collect_ok cfg s" using assms by (simp add: load_ok_def)
  have "worker_weight pc \<le> 4" for pc by (cases pc) simp_all
  then have "sum_list (map worker_weight ws) \<le> 4 * length ws" for ws
    by (induction ws) (auto intro: add_mono)
  then have "sum_list (map worker_weight (ld_workers s)) \<le> 4 * nat (lr_Connections cfg)" using c by (metis collect_ok_def)
  moreover have "length (ch_buf (ld_results s)) \<le> 2 * nat (lr_Connections cfg)"
    using c nat_mult_distrib [of "lr_Connections cfg" 2] by (auto simp: collect_ok_def chan_wf_def)
  ultimately show ?thesis by (simp add: load_weight_def)
qed

text \<open>
  C38: a load run ends.  Once the timer has fired or the context has ended, every run of the goroutines
  takes at most six steps per connection and four more, can always be continued until \<open>runLoad\<close> has
  returned, and can only stop after that.
\<close>
theorem load_run_ends:
  assumes "reachable (load_init cfg) (load_step cfg) s" "ld_stop s \<or> ld_ctxDone s"
  shows "(\<forall>n t. (load_step cfg ^^ n) s t \<longrightarrow> n \<le> 6 * nat (lr_Connections cfg) + 4) \<and>
    (\<forall>t. (load_step cfg)\<^sup>*\<^sup>* s t \<longrightarrow> \<not> (\<exists>u. load_step cfg t u) \<longrightarrow> ld_returned t) \<and>
    (\<exists>t. (load_step cfg)\<^sup>*\<^sup>* s t \<and> ld_returned t)"
proof -
  have ok: "load_ok cfg s" "load_stopping cfg s"
    using load.reachable_inv [OF assms(1)] assms(2) by (simp_all add: load_stopping_def)
  have "n \<le> 6 * nat (lr_Connections cfg) + 4" if "(load_step cfg ^^ n) s t" for n t
    using load_end.run_bound [OF that ok(2)] load_weight_bound [OF ok(1)] by linarith
  then show ?thesis using load_end.stuck_final [OF ok(2)] load_end.ends_final [OF ok(2)] by blast
qed

subsection \<open>A run of one worker\<close>

definition demo_run :: loadRunConfig where
  "demo_run = \<lparr>lr_BaseURL = ''https://h.example.com/'', lr_PublicHost = ''h.example.com'',
     lr_Scenario = \<lparr>sc_Name = ''fast'', sc_Requests = [''/fast'']\<rparr>, lr_Connections = 1, lr_Duration = 5, lr_RequestTimeout = 1\<rparr>"

definition demo_result :: requestResult where
  "demo_result = doRequest None (Inr (200, 18, None)) 7"

definition demo_load :: load where
  "demo_load = \<lparr>ld_ctxDone = False, ld_waiting = True, ld_stop = False, ld_workers = [WK_Check 0], ld_results = chan_make 2,
     ld_closed = False, ld_summary = newLoadSummary demo_run 0, ld_returned = False, ld_panic = False,
     ld_log = [], ld_sent = [], ld_dropped = [], ld_idle = []\<rparr>"

lemma demo_load_steps:
  "load_init demo_run demo_load"
  "load_step demo_run demo_load (demo_load\<lparr>ld_workers := [WK_Request 0]\<rparr>)"
  "load_step demo_run (demo_load\<lparr>ld_workers := [WK_Request 0]\<rparr>)
     (demo_load\<lparr>ld_workers := [WK_Send 0 demo_result], ld_log := [(0, ''https://h.example.com/fast'', demo_result)]\<rparr>)"
proof -
  have "runLoad_open demo_run (Some Some) False 0 = Inr demo_load"
    by (simp add: runLoad_open_def demo_run_def demo_load_def)
  then show "load_init demo_run demo_load" unfolding load_init_def by blast
  show "load_step demo_run demo_load (demo_load\<lparr>ld_workers := [WK_Request 0]\<rparr>)"
    using check_go [of 0 demo_load 0 demo_run] by (simp add: demo_load_def)
  have "target_url demo_run 0 0 = ''https://h.example.com/fast''" by code_simp
  then show "load_step demo_run (demo_load\<lparr>ld_workers := [WK_Request 0]\<rparr>)
     (demo_load\<lparr>ld_workers := [WK_Send 0 demo_result], ld_log := [(0, ''https://h.example.com/fast'', demo_result)]\<rparr>)"
    using request [of 0 "demo_load\<lparr>ld_workers := [WK_Request 0]\<rparr>" 0 demo_result None "Inr (200, 18, None)" 7 demo_run]
    by (simp add: demo_load_def demo_result_def)
qed

definition demo_stopping :: load where
  "demo_stopping = demo_load\<lparr>ld_workers := [WK_Send 0 demo_result], ld_log := [(0, ''https://h.example.com/fast'', demo_result)],
     ld_waiting := False, ld_stop := True\<rparr>"

lemma load_reach:
  "reachable (load_init cfg) (load_step cfg) s \<Longrightarrow> load_step cfg s t \<Longrightarrow> reachable (load_init cfg) (load_step cfg) t"
  by (rule reach_step)

lemma demo_stopping_reachable: "reachable (load_init demo_run) (load_step demo_run) demo_stopping"
proof -
  have r0: "reachable (load_init demo_run) (load_step demo_run) demo_load" by (rule reach_init) (rule demo_load_steps(1))
  note r2 = load_reach [OF load_reach [OF r0 demo_load_steps(2)] demo_load_steps(3)]
  have "load_step demo_run (demo_load\<lparr>ld_workers := [WK_Send 0 demo_result], ld_log := [(0, ''https://h.example.com/fast'', demo_result)]\<rparr>)
    demo_stopping"
    unfolding demo_stopping_def by (rule timer) (simp_all add: demo_load_def)
  from load_reach [OF r2 this] show ?thesis .
qed

theorem load_run_ends_witness:
  "\<exists>t. (load_step demo_run)\<^sup>*\<^sup>* demo_stopping t \<and> ld_returned t"
proof -
  have "ld_stop demo_stopping \<or> ld_ctxDone demo_stopping" by (simp add: demo_stopping_def)
  from load_run_ends [OF demo_stopping_reachable this] show ?thesis by blast
qed

text \<open>The result waits for room in the channel, is recorded, and the run returns.\<close>

lemma demo_returned_reachable:
  "\<exists>s. reachable (load_init demo_run) (load_step demo_run) s \<and> ld_returned s \<and> \<not> ld_ctxDone s \<and> length (ld_log s) = 1"
proof -
  let ?s1 = "demo_stopping\<lparr>ld_workers := [WK_Check 1], ld_results := chan_send demo_result (chan_make 2), ld_sent := [demo_result]\<rparr>"
  have s1: "load_step demo_run demo_stopping ?s1"
    using send_result [of 0 demo_stopping 0 demo_result demo_run]
    by (simp add: demo_stopping_def demo_load_def chan_send_ready_def chan_make_def)
  obtain u where u: "Record demo_result (newLoadSummary demo_run 0) = Some u" using Record_ok [OF summary_ok_new] by blast
  let ?s2 = "?s1\<lparr>ld_results := chan_make 2, ld_summary := u\<rparr>"
  have s2: "load_step demo_run ?s1 ?s2"
    using u by (intro collect [of _ demo_result]) (simp_all add: demo_stopping_def demo_load_def chan_recv_def chan_send_def chan_make_def)
  let ?s3 = "?s2\<lparr>ld_workers := [WK_Returned], ld_idle := [0]\<rparr>"
  have s3: "load_step demo_run ?s2 ?s3"
    using check_return [of 0 ?s2 1 demo_run] by (simp add: demo_stopping_def demo_load_def worker_return_def)
  have s4: "load_step demo_run ?s3 (?s3\<lparr>ld_closed := True\<rparr>)" by (rule close_results) (simp_all add: demo_stopping_def demo_load_def)
  let ?s5 = "?s3\<lparr>ld_closed := True, ld_returned := True, ld_summary := u\<lparr>ls_EndedAt := Some 9\<rparr>\<rparr>"
  have s5: "load_step demo_run (?s3\<lparr>ld_closed := True\<rparr>) ?s5"
    using load_step.return [of "?s3\<lparr>ld_closed := True\<rparr>" demo_run 9] by (simp add: demo_stopping_def demo_load_def chan_recv_def chan_make_def)
  have "reachable (load_init demo_run) (load_step demo_run) ?s5"
    using load_reach [OF load_reach [OF load_reach [OF load_reach [OF load_reach [OF demo_stopping_reachable s1] s2] s3] s4] s5] .
  moreover have "ld_returned ?s5" "\<not> ld_ctxDone ?s5" "length (ld_log ?s5) = 1" by (simp_all add: demo_stopping_def demo_load_def)
  ultimately show ?thesis by blast
qed


subsection \<open>The program\<close>

text \<open>
  \<open>run\<close> with what happens around it: the turns of \<open>waitForReady\<close>, the result of
  \<open>runLoad\<close>.  It returns its error, the summary it prints and whether it has closed the tunnel client;
  \<^term>\<open>None\<close> as long as the readiness loop still polls.
\<close>

datatype perf_run_error =
  PR_Config perf_error | PR_Scenario | PR_Client client_error | PR_NotReady string ready_error | PR_Load load_error

record perf_run =
  pr_err :: "perf_run_error option"
  pr_printed :: "loadSummary option"
  pr_closed :: bool

definition load_config_of :: "perfConfig \<Rightarrow> scenario \<Rightarrow> loadRunConfig" where
  "load_config_of cfg scn =
     \<lparr>lr_BaseURL = publicBaseURL cfg, lr_PublicHost = pf_PublicHost cfg, lr_Scenario = scn,
      lr_Connections = pf_Connections cfg, lr_Duration = pf_Duration cfg, lr_RequestTimeout = pf_RequestTimeout cfg\<rparr>"

text \<open>The configuration both clients give \<open>tunnel.New\<close>; their handler is never nil.\<close>

definition tunnel_config :: "string \<Rightarrow> string \<Rightarrow> bool \<Rightarrow> client_Config" where
  "tunnel_config edgeAddr token debug =
     \<lparr>cc_EdgeAddr = edgeAddr, cc_TunnelID = [], cc_Token = token, cc_Handler = True, cc_Insecure = False,
      cc_Debug = debug, cc_ReconnectBackoff = 0, cc_DialTimeout = 0\<rparr>"

definition perf_run ::
  "go_unicode \<Rightarrow> (string \<Rightarrow> int option) \<Rightarrow> (string \<Rightarrow> int option) \<Rightarrow> string list \<Rightarrow> (string \<Rightarrow> string) \<Rightarrow>
   (int option \<times> ready_event) list \<Rightarrow> (loadRunConfig \<Rightarrow> load_error + loadSummary) \<Rightarrow> perf_run option" where
  "perf_run U int_of dur_of args getenv turns load =
     (case perf_loadConfig U int_of dur_of args getenv of
        Inl e \<Rightarrow> Some \<lparr>pr_err = Some (PR_Config e), pr_printed = None, pr_closed = False\<rparr>
      | Inr cfg \<Rightarrow>
          case loadScenario U (pf_Scenario cfg) of
            None \<Rightarrow> Some \<lparr>pr_err = Some PR_Scenario, pr_printed = None, pr_closed = False\<rparr>
          | Some scn \<Rightarrow>
              case client_New (tunnel_config (pf_EdgeAddr cfg) (pf_Token cfg) (pf_Debug cfg)) of
                Inl e \<Rightarrow> Some \<lparr>pr_err = Some (PR_Client e), pr_printed = None, pr_closed = False\<rparr>
              | Inr cli \<Rightarrow>
                  case waitForReady None turns of
                    None \<Rightarrow> None
                  | Some (Some e) \<Rightarrow>
                      Some \<lparr>pr_err = Some (PR_NotReady (pf_PublicHost cfg) e), pr_printed = None, pr_closed = True\<rparr>
                  | Some None \<Rightarrow>
                      case load (load_config_of cfg scn) of
                        Inl e \<Rightarrow> Some \<lparr>pr_err = Some (PR_Load e), pr_printed = None, pr_closed = True\<rparr>
                      | Inr summary \<Rightarrow> Some \<lparr>pr_err = None, pr_printed = Some summary, pr_closed = True\<rparr>)"

lemma create_clients_total: "(\<And>w. factory w \<noteq> None) \<Longrightarrow> \<exists>cs. create_clients factory i n acc = Inr cs"
  by (induction factory i n acc rule: create_clients.induct) (auto split: option.splits)

text \<open>
  After a configuration has loaded, the scenario is known and the load run starts: the checks that
  \<open>run\<close> and \<open>runLoad\<close> repeat cannot fail.
\<close>

lemma perf_run_starts:
  assumes "perf_loadConfig U int_of dur_of args getenv = Inr cfg" "\<And>w. factory w \<noteq> None"
  shows "\<exists>scn s. loadScenario U (pf_Scenario cfg) = Some scn \<and>
    runLoad_open (load_config_of cfg scn) (Some factory) ctxDone startedAt = Inr s"
proof -
  obtain scn where "loadScenario U (pf_Scenario cfg) = Some scn" "0 < pf_Connections cfg" "0 < pf_Duration cfg"
    using perf_loadConfig_Inr [OF assms(1)] by auto
  moreover obtain cs where "create_clients factory 0 (nat (pf_Connections cfg)) [] = Inr cs"
    using create_clients_total assms(2) by blast
  ultimately show ?thesis by (simp add: runLoad_open_def load_config_of_def)
qed

lemma perf_run_prints:
  assumes "perf_run U int_of dur_of args getenv turns load = Some p"
  shows "(pr_printed p \<noteq> None \<longleftrightarrow> pr_err p = None)" "pr_err p \<noteq> Some PR_Scenario"
    "pr_printed p \<noteq> None \<Longrightarrow> pr_closed p \<and> waitForReady None turns = Some None"
  using assms perf_loadConfig_Inr [of U int_of dur_of args getenv]
  by (auto simp: perf_run_def split: sum.splits option.splits)

end
