(* ===== verification/GoMux.thy ===== *)
theory GoMux
  imports GoFlag
begin

text \<open>
  \<open>http.ServeMux\<close> as the demonstration client uses it: patterns without method, host or wildcard, of which
  only the one for the root is a subtree.  A request whose path is not clean is redirected to the clean
  path; \<open>unescape\<close> decodes the percent escapes of one segment of the path.
\<close>

definition clean_url_path :: "string \<Rightarrow> string" where
  "clean_url_path p =
     (if p = [] then ''/''
      else let p = (if hd p \<noteq> CHR ''/'' then CHR ''/'' # p else p); np = path_clean p in
        if last p = CHR ''/'' \<and> np \<noteq> ''/'' then np @ ''/'' else np)"

definition mux_match :: "(string \<Rightarrow> string) \<Rightarrow> (string \<times> 'h) list \<Rightarrow> 'h \<Rightarrow> string \<Rightarrow> 'h" where
  "mux_match unescape exact root path =
     (case find (\<lambda>(pat, h). split_byte CHR ''/'' pat = map unescape (split_byte CHR ''/'' path)) exact of
        Some (pat, h) \<Rightarrow> h
      | None \<Rightarrow> root)"

text \<open>The handler of a request, or the path that it is redirected to.\<close>

definition mux_handler :: "(string \<Rightarrow> string) \<Rightarrow> (string \<times> 'h) list \<Rightarrow> 'h \<Rightarrow> string \<Rightarrow> string \<Rightarrow> string + 'h" where
  "mux_handler unescape exact root meth path =
     (if meth = ''CONNECT'' then Inr (mux_match unescape exact root path)
      else if clean_url_path path \<noteq> path then Inl (clean_url_path path)
      else Inr (mux_match unescape exact root path))"

subsection \<open>Clean paths stay as they are\<close>

definition clean_part :: "string \<Rightarrow> bool" where
  "clean_part p \<longleftrightarrow> p \<noteq> [] \<and> p \<noteq> ''.'' \<and> p \<noteq> ''..'' \<and> CHR ''/'' \<notin> set p"

lemma clean_parts_clean:
  assumes "list_all clean_part out" "\<forall>p \<in> set ps. CHR ''/'' \<notin> set p"
  shows "list_all clean_part (clean_parts True out ps)"
  using assms
proof (induction "True" out ps rule: clean_parts.induct)
  case (2 out p ps)
  then show ?case by (cases out) (auto simp: clean_part_def)
qed simp

lemma clean_parts_id: "list_all clean_part ps \<Longrightarrow> clean_parts True out (ps @ qs) = clean_parts True (rev ps @ out) qs"
  by (induction ps arbitrary: out) (auto simp: clean_part_def)

definition rooted_path :: "string list \<Rightarrow> string" where
  "rooted_path ps = CHR ''/'' # join_byte CHR ''/'' ps"

lemma path_clean_rooted:
  obtains ps where "path_clean (CHR ''/'' # p) = rooted_path ps" "list_all clean_part ps"
proof
  show "path_clean (CHR ''/'' # p) = rooted_path (clean_parts True [] ([] # split_byte CHR ''/'' p))"
    by (simp add: path_clean_def rooted_path_def Let_def)
  show "list_all clean_part (clean_parts True [] ([] # split_byte CHR ''/'' p))"
    by (rule clean_parts_clean) (auto dest: split_byte_pieces)
qed

lemma split_rooted:
  assumes "list_all clean_part ps" "ps \<noteq> []"
  shows "split_byte CHR ''/'' (rooted_path ps) = [] # ps" "split_byte CHR ''/'' (rooted_path ps @ ''/'') = [] # ps @ [[]]"
    "last (rooted_path ps) \<noteq> CHR ''/''" "rooted_path ps \<noteq> ''/''"
proof -
  have seg: "\<forall>p \<in> set ps. CHR ''/'' \<notin> set p" using assms(1) by (auto simp: list_all_iff clean_part_def)
  show "split_byte CHR ''/'' (rooted_path ps) = [] # ps"
    using split_byte_join [OF assms(2) seg] by (simp add: rooted_path_def)
  have "join_byte CHR ''/'' qs @ [c] = join_byte c (qs @ [[]])" if "qs \<noteq> []" "c = CHR ''/''" for qs c
    using that by (induction c qs rule: join_byte.induct) (auto simp: neq_Nil_conv)
  then show "split_byte CHR ''/'' (rooted_path ps @ ''/'') = [] # ps @ [[]]"
    using split_byte_join [of "ps @ [[]]" "CHR ''/''"] seg assms(2) by (simp add: rooted_path_def)
  have l: "clean_part (last ps)" using assms by (simp add: list_all_iff)
  then have "last (last ps) \<noteq> CHR ''/''" unfolding clean_part_def by (metis last_in_set)
  then show "last (rooted_path ps) \<noteq> CHR ''/''" "rooted_path ps \<noteq> ''/''"
    using join_byte_ends(2) [of ps "CHR ''/''"] assms(2) l by (auto simp: rooted_path_def clean_part_def)
qed

lemma path_clean_id:
  assumes "list_all clean_part ps" "ps \<noteq> []"
  shows "path_clean (rooted_path ps) = rooted_path ps" "path_clean (rooted_path ps @ ''/'') = rooted_path ps"
proof -
  have h: "hd (rooted_path ps) = CHR ''/''" "rooted_path ps \<noteq> []" by (simp_all add: rooted_path_def)
  note c = clean_parts_id [OF assms(1), of "[]" "[]"] clean_parts_id [OF assms(1), of "[]" "[[]]"]
  show "path_clean (rooted_path ps) = rooted_path ps" "path_clean (rooted_path ps @ ''/'') = rooted_path ps"
    unfolding path_clean_def split_rooted(1,2) [OF assms] Let_def using c h by (simp_all add: rooted_path_def)
qed

lemma clean_url_path_idem: "clean_url_path (clean_url_path p) = clean_url_path p"
proof -
  let ?p = "if p = [] then ''/'' else if hd p \<noteq> CHR ''/'' then CHR ''/'' # p else p"
  obtain r where r: "?p = CHR ''/'' # r" by (cases p; cases "hd p = CHR ''/''") auto
  obtain ps where ps: "path_clean ?p = rooted_path ps" "list_all clean_part ps"
    using path_clean_rooted [of r] unfolding r .
  have root: "clean_url_path ''/'' = ''/''" by (simp add: clean_url_path_def path_clean_def)
  show ?thesis
  proof (cases "p = [] \<or> ps = []")
    case True
    then have "clean_url_path p = ''/''" using ps(1) by (auto simp: clean_url_path_def Let_def rooted_path_def)
    then show ?thesis using root by simp
  next
    case False
    then have "clean_url_path p = rooted_path ps \<or> clean_url_path p = rooted_path ps @ ''/''"
      using ps(1) by (simp add: clean_url_path_def Let_def)
    moreover have "clean_url_path (rooted_path ps) = rooted_path ps" "clean_url_path (rooted_path ps @ ''/'') = rooted_path ps @ ''/''"
      using False path_clean_id [OF ps(2)] split_rooted [OF ps(2)] by (simp_all add: clean_url_path_def rooted_path_def)
    ultimately show ?thesis by metis
  qed
qed

text \<open>A redirect is followed by no second one: the clean path has a handler.\<close>

lemma mux_redirect_once:
  assumes "mux_handler unescape exact root meth path = Inl target"
  shows "mux_handler unescape exact root meth target = Inr (mux_match unescape exact root target)"
  using assms clean_url_path_idem [of path] by (auto simp: mux_handler_def split: if_splits)

end
