(* ===== verification/DemoClient.thy ===== *)
theory DemoClient
  imports PerfLoad GoMux
begin

text \<open>
  The demonstration client (\<open>cmd/demo-client/main.go\<close>): its configuration and the handlers it serves
  through the tunnel, among them a stream of server-sent events.  A handler is the list of calls it
  makes on its writer; \<open>fmt.Fprintf\<close> and \<open>io.WriteString\<close> write once per call.

  The events are read back by a reference parser, written after the interpretation of event streams
  in the HTML standard.
\<close>

subsection \<open>Configuration\<close>

record demoConfig =
  dc_PublicDomain :: string
  dc_EdgeAddr :: string
  dc_Token :: string
  dc_Debug :: bool

datatype demo_error = DemoFlag flag_error | DemoNoDomain | DemoBadDomain domain_error

definition demo_defaultString :: "string \<Rightarrow> string \<Rightarrow> string" where
  "demo_defaultString v fallback = (if v = [] then fallback else v)"

definition demo_parseBoolString :: "go_unicode \<Rightarrow> string \<Rightarrow> bool" where
  "demo_parseBoolString U v \<longleftrightarrow> to_lower U (trim_space U v) \<in> set [''1'', ''t'', ''true'', ''y'', ''yes'', ''on'']"

definition demo_getenv :: "go_unicode \<Rightarrow> (string \<Rightarrow> string) \<Rightarrow> string \<Rightarrow> string" where
  "demo_getenv U environ key = trim_space U (environ key)"

definition demo_flags :: "string \<Rightarrow> bool option" where
  "demo_flags name =
     (if name = ''debug'' then Some True
      else if name \<in> set [''public-domain'', ''edge-addr'', ''token''] then Some False
      else None)"

definition demo_flag_ok :: "string \<Rightarrow> string \<Rightarrow> bool" where
  "demo_flag_ok name v \<longleftrightarrow> (name = ''debug'' \<longrightarrow> parse_bool v \<noteq> None)"

definition demo_settings :: "go_unicode \<Rightarrow> (string \<Rightarrow> string) \<Rightarrow> (string \<times> string) list \<Rightarrow> demoConfig" where
  "demo_settings U getenv sets =
     \<lparr>dc_PublicDomain = last_setting ''public-domain'' (getenv ''MUXBRIDGE_PUBLIC_DOMAIN'') sets,
      dc_EdgeAddr = last_setting ''edge-addr'' (getenv ''MUXBRIDGE_EDGE_ADDR'') sets,
      dc_Token = last_setting ''token'' (demo_defaultString (getenv ''MUXBRIDGE_CLIENT_TOKEN'') ''demo-token'') sets,
      dc_Debug = debug_setting (demo_parseBoolString U (getenv ''MUXBRIDGE_DEBUG'')) sets\<rparr>"

definition demo_loadConfig :: "go_unicode \<Rightarrow> string list \<Rightarrow> (string \<Rightarrow> string) \<Rightarrow> demo_error + demoConfig" where
  "demo_loadConfig U args getenv =
     (case parse_flags demo_flags demo_flag_ok args of
        Inl e \<Rightarrow> Inl (DemoFlag e)
      | Inr (sets, left) \<Rightarrow>
          let raw = demo_settings U getenv sets;
              cfg = raw\<lparr>dc_PublicDomain := trim_space U (dc_PublicDomain raw), dc_EdgeAddr := trim_space U (dc_EdgeAddr raw),
                        dc_Token := trim_space U (dc_Token raw)\<rparr>
          in
          if dc_EdgeAddr cfg = [] then
            let domain = NormalizeDomain U (dc_PublicDomain cfg) in
            if domain = [] then Inl DemoNoDomain
            else case ValidateDomain U domain of
              Some e \<Rightarrow> Inl (DemoBadDomain e)
            | None \<Rightarrow> Inr (cfg\<lparr>dc_PublicDomain := domain, dc_EdgeAddr := Subdomain U ''edge'' domain @ '':443''\<rparr>)
          else Inr cfg)"

text \<open>\<open>run\<close> up to the call of the tunnel client's \<open>Run\<close>.\<close>

definition demo_open :: "go_unicode \<Rightarrow> string list \<Rightarrow> (string \<Rightarrow> string) \<Rightarrow> (demo_error + client_error) + Client" where
  "demo_open U args getenv =
     (case demo_loadConfig U args getenv of
        Inl e \<Rightarrow> Inl (Inl e)
      | Inr cfg \<Rightarrow>
          case client_New (tunnel_config (dc_EdgeAddr cfg) (dc_Token cfg) (dc_Debug cfg)) of
            Inl e \<Rightarrow> Inl (Inr e)
          | Inr cli \<Rightarrow> Inr cli)"

subsection \<open>Handlers\<close>

definition LF :: char where "LF = CHR 0x0A"
definition CR :: char where "CR = CHR 0x0D"

definition remoteIPFromAddr :: "go_unicode \<Rightarrow> string \<Rightarrow> string" where
  "remoteIPFromAddr U remoteAddr =
     (let remoteAddr = trim_space U remoteAddr in
      if remoteAddr = [] then ''unknown''
      else case split_host_port remoteAddr of
        Inr (host, _) \<Rightarrow> if host \<noteq> [] then host else remoteAddr
      | Inl _ \<Rightarrow> remoteAddr)"

definition writeSSEEvent :: "string \<Rightarrow> string \<Rightarrow> handler_op list" where
  "writeSSEEvent eventName data =
     (if eventName \<noteq> [] then [OpWrite (''event: '' @ eventName @ [LF])] else []) @
     map (\<lambda>line. OpWrite (''data: '' @ line @ [LF])) (split_byte LF data) @
     [OpWrite [LF]]"

definition root_handler :: "go_unicode \<Rightarrow> string \<Rightarrow> handler_op list" where
  "root_handler U remoteAddr =
     [OpHeader [(''Content-Type'', [''text/plain''])],
      OpWrite (''hello through grpc tunnel'' @ [LF] @ ''remote ip: '' @ remoteIPFromAddr U remoteAddr @ [LF])]"

definition slow_handler :: "handler_op list" where
  "slow_handler =
     OpHeader [(''Content-Type'', [''text/plain''])] #
     concat (map (\<lambda>i. [OpWrite (''chunk '' @ format_uint (i + 1) @ [LF]), OpFlush]) [0..<5])"

text \<open>\<open>stamps\<close> are the times, as printed, of the ticks that come before the context of the request is done.\<close>

definition tick_data :: "string \<Rightarrow> nat \<Rightarrow> string \<Rightarrow> string" where
  "tick_data remoteIP tick ts = ''tick '' @ format_uint tick @ '' at '' @ ts @ '' from '' @ remoteIP"

fun sse_ticks :: "string \<Rightarrow> nat \<Rightarrow> string list \<Rightarrow> handler_op list" where
  "sse_ticks remoteIP tick [] = []"
| "sse_ticks remoteIP tick (ts # stamps) =
     writeSSEEvent ''tick'' (tick_data remoteIP (tick + 1) ts) @ OpFlush # sse_ticks remoteIP (tick + 1) stamps"

definition sse_handler :: "go_unicode \<Rightarrow> string \<Rightarrow> string list \<Rightarrow> handler_op list" where
  "sse_handler U remoteAddr stamps =
     (let remoteIP = remoteIPFromAddr U remoteAddr in
      OpHeader [(''Content-Type'', [''text/event-stream'']), (''Cache-Control'', [''no-cache'']),
                (''Connection'', [''keep-alive''])] #
      writeSSEEvent ''connected'' (''remote ip: '' @ remoteIP) @ OpFlush # sse_ticks remoteIP 0 stamps)"

text \<open>
  The echo socket: the messages it sends for the messages it receives, where \<open>sent n\<close> tells whether
  the \<open>n\<close>-th send succeeds.  The connection is closed when this list ends.
\<close>

definition echo_reply :: "go_unicode \<Rightarrow> string \<Rightarrow> string \<Rightarrow> string" where
  "echo_reply U remoteIP message = ''echo from '' @ remoteIP @ '': '' @ trim_space U message"

fun echo_loop :: "go_unicode \<Rightarrow> (nat \<Rightarrow> bool) \<Rightarrow> nat \<Rightarrow> string \<Rightarrow> string list \<Rightarrow> string list" where
  "echo_loop U sent n remoteIP [] = []"
| "echo_loop U sent n remoteIP (message # messages) =
     (if sent n then echo_reply U remoteIP message # echo_loop U sent (Suc n) remoteIP messages else [])"

definition echo_socket :: "go_unicode \<Rightarrow> (nat \<Rightarrow> bool) \<Rightarrow> string \<Rightarrow> string list \<Rightarrow> string list" where
  "echo_socket U sent remoteAddr messages =
     (let remoteIP = remoteIPFromAddr U remoteAddr in
      if sent 0 then (''connected from '' @ remoteIP) # echo_loop U sent 1 remoteIP messages else [])"

text \<open>The two pages are the arguments \<open>websocketDemoPage\<close> and \<open>sseDemoPage\<close>.\<close>

definition page_handler :: "string \<Rightarrow> handler_op list" where
  "page_handler page = [OpHeader [(''Content-Type'', [''text/html; charset=utf-8''])], OpWrite page]"

datatype demo_route = DemoOps "handler_op list" | DemoEvents | DemoSocket

definition demo_patterns :: "string \<Rightarrow> string \<Rightarrow> (string \<times> demo_route) list" where
  "demo_patterns websocketDemoPage sseDemoPage =
     [(''/ws-demo'', DemoOps (page_handler websocketDemoPage)),
      (''/sse-demo'', DemoOps (page_handler sseDemoPage)),
      (''/sse-demo/events'', DemoEvents),
      (''/ws-demo/socket'', DemoSocket),
      (''/slow'', DemoOps slow_handler)]"

definition newDemoMux ::
  "go_unicode \<Rightarrow> (string \<Rightarrow> string) \<Rightarrow> string \<Rightarrow> string \<Rightarrow> string \<Rightarrow> string \<Rightarrow> string \<Rightarrow> string + demo_route" where
  "newDemoMux U unescape websocketDemoPage sseDemoPage remoteAddr meth path =
     mux_handler unescape (demo_patterns websocketDemoPage sseDemoPage) (DemoOps (root_handler U remoteAddr)) meth path"

subsection \<open>A reference parser of event streams\<close>

text \<open>A line ends at LF, CR or CR LF; the flag tells whether the byte before was CR.\<close>

fun sse_newlines :: "bool \<Rightarrow> string \<Rightarrow> string" where
  "sse_newlines cr [] = []"
| "sse_newlines cr (c # s) =
     (if c = CR then LF # sse_newlines True s
      else if c = LF \<and> cr then sse_newlines False s
      else c # sse_newlines False s)"

definition sse_field :: "string \<Rightarrow> string \<times> string" where
  "sse_field line =
     (case cut_byte CHR '':'' line of
        None \<Rightarrow> (line, [])
      | Some (name, v) \<Rightarrow> (name, case v of c # v' \<Rightarrow> if c = CHR '' '' then v' else v | [] \<Rightarrow> v))"

record sse_state =
  se_type :: string
  se_data :: string
  se_events :: "(string \<times> string) list"

definition sse_line :: "string \<Rightarrow> sse_state \<Rightarrow> sse_state" where
  "sse_line line st =
     (if line = [] then
        if se_data st = [] then st\<lparr>se_type := []\<rparr>
        else \<lparr>se_type = [], se_data = [],
              se_events = se_events st @ [(if se_type st = [] then ''message'' else se_type st, butlast (se_data st))]\<rparr>
      else
        case sse_field line of (name, v) \<Rightarrow>
          if name = ''event'' then st\<lparr>se_type := v\<rparr>
          else if name = ''data'' then st\<lparr>se_data := se_data st @ v @ [LF]\<rparr>
          else st)"

definition sse_parse :: "string \<Rightarrow> (string \<times> string) list" where
  "sse_parse s = se_events (fold sse_line (butlast (split_byte LF (sse_newlines False s)))
     \<lparr>se_type = [], se_data = [], se_events = []\<rparr>)"

subsection \<open>Events survive\<close>

lemma LF_CR [simp]: "LF \<noteq> CR" "CR \<noteq> LF"
  "LF \<notin> set ''event: ''" "CR \<notin> set ''event: ''" "LF \<notin> set ''data: ''" "CR \<notin> set ''data: ''"
  by (simp_all add: LF_def CR_def)

lemma sse_newlines_no_CR: "CR \<notin> set s \<Longrightarrow> sse_newlines False s = s"
  by (induction s) auto

lemma split_byte_lines:
  "\<forall>l \<in> set ls. c \<notin> set l \<Longrightarrow> split_byte c (concat (map (\<lambda>l. l @ [c]) ls)) = ls @ [[]]"
  by (induction ls) (simp_all add: split_byte_append)

lemma sse_field_simps [simp]:
  "sse_field (''event: '' @ v) = (''event'', v)" "sse_field (''data: '' @ v) = (''data'', v)"
  by (simp_all add: sse_field_def cut_byte_def)

lemma fold_data:
  "fold sse_line (map ((@) ''data: '') ls) st = st\<lparr>se_data := se_data st @ concat (map (\<lambda>l. l @ [LF]) ls)\<rparr>"
proof (induction ls arbitrary: st)
  case (Cons l ls)
  have "sse_line (''data: '' @ l) st = st\<lparr>se_data := se_data st @ l @ [LF]\<rparr>"
    using sse_field_simps(2) [of l] by (simp add: sse_line_def)
  then show ?case using Cons by simp
qed simp

lemma concat_lines: "ls \<noteq> [] \<Longrightarrow> concat (map (\<lambda>l. l @ [c]) ls) = join_byte c ls @ [c]"
  by (induction c ls rule: join_byte.induct) auto

lemma join_split_byte: "join_byte c (split_byte c s) = s"
proof (induction s)
  case (Cons x s)
  obtain y ys where "split_byte c s = y # ys" using split_byte_neq_Nil by (meson neq_Nil_conv)
  then show ?case using Cons by (cases ys) auto
qed simp

definition event_lines :: "string \<times> string \<Rightarrow> string list" where
  "event_lines ev = (if fst ev = [] then [] else [''event: '' @ fst ev]) @ map ((@) ''data: '') (split_byte LF (snd ev)) @ [[]]"

definition event_read :: "string \<times> string \<Rightarrow> string \<times> string" where
  "event_read ev = (if fst ev = [] then ''message'' else fst ev, snd ev)"

definition event_clean :: "string \<times> string \<Rightarrow> bool" where
  "event_clean ev \<longleftrightarrow> LF \<notin> set (fst ev) \<and> CR \<notin> set (fst ev) \<and> CR \<notin> set (snd ev)"

lemma fold_event_lines:
  "fold sse_line (event_lines ev) \<lparr>se_type = [], se_data = [], se_events = evs\<rparr> =
     \<lparr>se_type = [], se_data = [], se_events = evs @ [event_read ev]\<rparr>"
proof -
  let ?st = "\<lambda>n d. \<lparr>se_type = n, se_data = d, se_events = evs\<rparr>"
  have data: "fold sse_line (map ((@) ''data: '') (split_byte LF (snd ev))) (?st n []) = ?st n (snd ev @ [LF])" for n
    using concat_lines [of "split_byte LF (snd ev)" LF] by (simp add: fold_data join_split_byte)
  have event: "sse_line (''event: '' @ n) (?st [] []) = ?st n []" for n
    using sse_field_simps(1) [of n] by (simp add: sse_line_def)
  have "fold sse_line (event_lines ev) (?st [] []) = sse_line [] (?st (fst ev) (snd ev @ [LF]))"
    using event [of "fst ev"] by (simp add: event_lines_def data)
  then show ?thesis by (simp add: sse_line_def event_read_def)
qed

lemma event_text: "concat (meant_chunks (writeSSEEvent name data)) = concat (map (\<lambda>l. l @ [LF]) (event_lines (name, data)))"
proof -
  have "concat (meant_chunks (map (\<lambda>line. OpWrite (''data: '' @ line @ [LF])) ls @ [OpWrite [LF]])) =
     concat (map (\<lambda>l. l @ [LF]) (map ((@) ''data: '') ls)) @ [LF]" for ls
    by (induction ls) simp_all
  then show ?thesis by (simp add: writeSSEEvent_def event_lines_def)
qed

lemma event_lines_clean:
  assumes "event_clean ev"
  shows "\<forall>l \<in> set (event_lines ev). LF \<notin> set l" "\<forall>l \<in> set (event_lines ev). CR \<notin> set l"
proof -
  have "CR \<notin> set l" "LF \<notin> set l" if "l \<in> set (split_byte LF (snd ev))" for l
    using that assms split_byte_pieces [OF that] split_byte_bytes [of LF "snd ev"] by (auto simp: event_clean_def)
  then show "\<forall>l \<in> set (event_lines ev). LF \<notin> set l" "\<forall>l \<in> set (event_lines ev). CR \<notin> set l"
    using assms LF_CR by (auto simp: event_lines_def event_clean_def)
qed

text \<open>A stream of events without CR, and without LF in a name, is read back as it was written.\<close>

lemma sse_parse_events:
  assumes "\<forall>ev \<in> set evs. event_clean ev"
  shows "sse_parse (concat (map (\<lambda>ev. concat (meant_chunks (writeSSEEvent (fst ev) (snd ev)))) evs)) = map event_read evs"
proof -
  let ?ls = "concat (map event_lines evs)"
  have body: "concat (map (\<lambda>ev. concat (meant_chunks (writeSSEEvent (fst ev) (snd ev)))) evs) = concat (map (\<lambda>l. l @ [LF]) ?ls)"
    by (induction evs) (simp_all add: event_text)
  have clean: "\<forall>l \<in> set ?ls. LF \<notin> set l" "CR \<notin> set (concat (map (\<lambda>l. l @ [LF]) ?ls))"
  proof -
    show "\<forall>l \<in> set ?ls. LF \<notin> set l" using event_lines_clean(1) assms by (simp, blast)
    have "\<forall>l \<in> set ?ls. CR \<notin> set l" using event_lines_clean(2) assms by (simp, blast)
    then show "CR \<notin> set (concat (map (\<lambda>l. l @ [LF]) ?ls))" by simp
  qed
  have "fold sse_line ?ls \<lparr>se_type = [], se_data = [], se_events = es\<rparr> =
      \<lparr>se_type = [], se_data = [], se_events = es @ map event_read evs\<rparr>" for es
    by (induction evs arbitrary: es) (simp_all add: fold_event_lines)
  then show ?thesis
    unfolding body sse_parse_def sse_newlines_no_CR [OF clean(2)] split_byte_lines [OF clean(1)] by simp
qed

lemma meant_chunks_append: "meant_chunks (xs @ ys) = meant_chunks xs @ meant_chunks ys"
  by (induction xs rule: meant_chunks.induct) simp_all

fun tick_events :: "string \<Rightarrow> nat \<Rightarrow> string list \<Rightarrow> (string \<times> string) list" where
  "tick_events remoteIP tick [] = []"
| "tick_events remoteIP tick (ts # stamps) =
     (''tick'', tick_data remoteIP (Suc tick) ts) # tick_events remoteIP (Suc tick) stamps"

lemma ticks_text:
  "concat (meant_chunks (sse_ticks ip tick stamps)) =
     concat (map (\<lambda>ev. concat (meant_chunks (writeSSEEvent (fst ev) (snd ev)))) (tick_events ip tick stamps))"
  by (induction ip tick stamps rule: sse_ticks.induct) (simp_all add: meant_chunks_append)

lemma format_uint_no_CR: "CR \<notin> set (format_uint n)"
proof (induction n rule: format_uint.induct)
  case (1 n)
  have "digit_char d \<noteq> CR" if "d < 10" for d
  proof -
    have "of_char (digit_char d) = (48 + d :: nat)" using that by (simp add: digit_char_def)
    moreover have "of_char CR = (13 :: nat)" by (simp add: CR_def)
    ultimately show ?thesis by (metis add_eq_if le_add1 not_numeral_le_zero numeral_le_iff semiring_norm)
  qed
  then show ?case using 1 by (subst format_uint.simps) (auto simp: eq_commute)
qed

lemma tick_events_clean:
  assumes "CR \<notin> set ip" "\<forall>ts \<in> set stamps. CR \<notin> set ts"
  shows "\<forall>ev \<in> set (tick_events ip tick stamps). event_clean ev"
proof -
  have "CR \<notin> set (tick_data ip n ts)" if "CR \<notin> set ts" for n ts
    using that assms(1) format_uint_no_CR [of n] by (simp add: tick_data_def) (simp add: CR_def)
  then show ?thesis using assms(2)
    by (induction ip tick stamps rule: tick_events.induct) (auto simp: event_clean_def LF_def CR_def)
qed

lemma tick_events_named: "map event_read (tick_events ip tick stamps) = tick_events ip tick stamps"
  by (induction ip tick stamps rule: tick_events.induct) (simp_all add: event_read_def)

text \<open>
  C40: the demonstration stream is a well-formed event stream.  What the handler writes is read by an event
  source as the event that names the address of the caller and then one numbered event per tick, each with
  its data and in order, whatever the address and the time stamps are as long as they hold no carriage return.
\<close>
theorem sse_roundtrip:
  assumes "CR \<notin> set (remoteIPFromAddr U remoteAddr)" "\<forall>ts \<in> set stamps. CR \<notin> set ts"
  shows "sse_parse (concat (meant_chunks (sse_handler U remoteAddr stamps))) =
     (''connected'', ''remote ip: '' @ remoteIPFromAddr U remoteAddr) #
     map (\<lambda>i. (''tick'', tick_data (remoteIPFromAddr U remoteAddr) (Suc i) (stamps ! i))) [0..<length stamps]"
proof -
  let ?ip = "remoteIPFromAddr U remoteAddr"
  let ?evs = "(''connected'', ''remote ip: '' @ ?ip) # tick_events ?ip 0 stamps"
  have ticks: "tick_events ?ip n stamps = map (\<lambda>i. (''tick'', tick_data ?ip (Suc (n + i)) (stamps ! i))) [0..<length stamps]" for n
  proof (induction stamps arbitrary: n)
    case (Cons ts stamps)
    show ?case using Cons.IH [of "Suc n"] by (simp add: map_upt_Suc del: upt_Suc)
  qed simp
  have "event_clean (''connected'', ''remote ip: '' @ ?ip)"
    using assms(1) by (simp add: event_clean_def) (simp add: LF_def CR_def)
  then have "\<forall>ev \<in> set ?evs. event_clean ev" using tick_events_clean [OF assms] by simp
  moreover have "concat (meant_chunks (sse_handler U remoteAddr stamps)) =
      concat (map (\<lambda>ev. concat (meant_chunks (writeSSEEvent (fst ev) (snd ev)))) ?evs)"
    by (simp add: sse_handler_def Let_def meant_chunks_append ticks_text)
  ultimately have "sse_parse (concat (meant_chunks (sse_handler U remoteAddr stamps))) = map event_read ?evs"
    using sse_parse_events [of ?evs] by (simp only:)
  then show ?thesis using tick_events_named ticks [of 0] by (simp add: event_read_def)
qed

theorem sse_roundtrip_witness:
  "sse_parse (concat (meant_chunks (sse_handler no_tables ''10.0.0.7:5000'' [''t1'', ''t2'']))) =
     [(''connected'', ''remote ip: 10.0.0.7''), (''tick'', ''tick 1 at t1 from 10.0.0.7''), (''tick'', ''tick 2 at t2 from 10.0.0.7'')]"
proof -
  have ip: "remoteIPFromAddr no_tables ''10.0.0.7:5000'' = ''10.0.0.7''" by code_simp
  have "tick_data ''10.0.0.7'' 1 ''t1'' = ''tick 1 at t1 from 10.0.0.7''" "tick_data ''10.0.0.7'' 2 ''t2'' = ''tick 2 at t2 from 10.0.0.7''"
    by code_simp+
  then show ?thesis
    using sse_roundtrip [of no_tables "''10.0.0.7:5000''" "[''t1'', ''t2'']"] unfolding ip
    by (simp add: CR_def numeral_2_eq_2)
qed

text \<open>The other handlers: five chunks for \<open>/slow\<close>, and an echo per message until a send fails.\<close>

lemma slow_chunks: "meant_chunks slow_handler = map (\<lambda>i. ''chunk '' @ format_uint (i + 1) @ [LF]) [0..<5]"
proof -
  have "meant_chunks (concat (map (\<lambda>i. [OpWrite (f i), OpFlush]) ks)) = map f ks" for f and ks :: "nat list"
    by (induction ks) simp_all
  then show ?thesis by (simp only: slow_handler_def meant_chunks.simps)
qed

lemma echo_socket_all:
  assumes "\<And>n. sent n"
  shows "echo_socket U sent remoteAddr messages =
     (''connected from '' @ remoteIPFromAddr U remoteAddr) # map (echo_reply U (remoteIPFromAddr U remoteAddr)) messages"
proof -
  have "echo_loop U sent n ip messages = map (echo_reply U ip) messages" for n ip
    by (induction messages arbitrary: n) (simp_all add: assms)
  then show ?thesis by (simp add: echo_socket_def Let_def assms)
qed

text \<open>
  Every request of the demonstration reaches a handler, after at most one redirect; the two pages, the
  stream and the socket are found under their own paths only.
\<close>

lemma newDemoMux_redirect_once:
  assumes "newDemoMux U unescape wp sp remoteAddr meth path = Inl target"
  shows "\<exists>h. newDemoMux U unescape wp sp remoteAddr meth target = Inr h"
  using mux_redirect_once [OF assms [unfolded newDemoMux_def]] by (auto simp: newDemoMux_def)

lemma newDemoMux_events:
  assumes "\<And>s. CHR ''%'' \<notin> set s \<Longrightarrow> unescape s = s" "CHR ''%'' \<notin> set path"
  shows "newDemoMux U unescape wp sp remoteAddr meth path = Inr DemoEvents \<longleftrightarrow> path = ''/sse-demo/events''"
proof -
  have "CHR ''%'' \<notin> set p" if "p \<in> set (split_byte CHR ''/'' path)" for p
    using that assms(2) split_byte_bytes [of "CHR ''/''" path] by auto
  then have u: "map unescape (split_byte CHR ''/'' path) = split_byte CHR ''/'' path"
    using assms(1) by (simp add: map_idI)
  have inj: "split_byte CHR ''/'' pat = split_byte CHR ''/'' path \<longleftrightarrow> pat = path" for pat
    using join_split_byte [of "CHR ''/''"] by metis
  have "clean_url_path ''/sse-demo/events'' = ''/sse-demo/events''" by code_simp
  then show ?thesis
    by (auto simp: newDemoMux_def mux_handler_def mux_match_def demo_patterns_def u inj)
qed

text \<open>A configuration that loads has an address to dial; without an explicit one it is port 443 of the edge host.\<close>

lemma demo_loadConfig_Inr:
  assumes "demo_loadConfig U args getenv = Inr cfg"
  shows "dc_EdgeAddr cfg \<noteq> []"
  using assms by (auto simp: demo_loadConfig_def Let_def split: sum.splits prod.splits option.splits if_splits)

text \<open>The only thing that can be missing after that is the token.\<close>

lemma demo_open_error:
  assumes "demo_open U args getenv = Inl (Inr e)"
  shows "e = NoToken"
  using assms demo_loadConfig_Inr [of U args getenv]
  by (auto simp: demo_open_def client_New_def tunnel_config_def split: sum.splits if_splits)

end
