(* ===== verification/EdgeTLS.thy ===== *)
theory EdgeTLS
  imports EdgeMain
begin

text \<open>
  The TLS side of the edge process (\<open>cmd/edge/main.go\<close>): where certificates come from, what the plain
  HTTP port serves, the start and the stop of the certificate cache, the stop of the gRPC server and the
  limits of the two HTTP servers.

  Certificates, the key-pair loader and the certificate manager are library code.  The loader is an
  argument, the protocols of the manager's TLS configuration and its issuers are arguments too, and what
  \<open>ManageSync\<close> returns is a step of the environment.
\<close>

subsection \<open>Certificates\<close>

record 'c tls_config =
  tc_Certificates :: "'c list"
  tc_MinTLS12 :: bool
  tc_NextProtos :: "string list"

datatype issuer = ACMEIssuer | OtherIssuer

datatype http_handler = RedirectToHTTPS | HTTPChallenge http_handler

fun wrapHTTPChallenge :: "issuer list \<Rightarrow> http_handler \<Rightarrow> http_handler" where
  "wrapHTTPChallenge [] next = next"
| "wrapHTTPChallenge (ACMEIssuer # issuers) next = HTTPChallenge next"
| "wrapHTTPChallenge (OtherIssuer # issuers) next = wrapHTTPChallenge issuers next"

text \<open>The managed hosts and the directory of their certificates; none for a static certificate.\<close>

record 'c edgeTLSAssets =
  ta_tlsConfig :: "'c tls_config"
  ta_httpHandler :: http_handler
  ta_manage :: "(string list \<times> string) option"

definition edgeTLSAssetsFor ::
  "go_unicode \<Rightarrow> string option \<Rightarrow> (string \<Rightarrow> string) \<Rightarrow> (string \<Rightarrow> string \<Rightarrow> go_error + 'c) \<Rightarrow> 'c tls_config \<Rightarrow> issuer list \<Rightarrow>
   edgeConfig \<Rightarrow> go_error + 'c edgeTLSAssets" where
  "edgeTLSAssetsFor U home getenv loadX509KeyPair managedConfig issuers cfg =
     (if ec_TLSCertFile cfg \<noteq> [] then
        case loadX509KeyPair (ec_TLSCertFile cfg) (ec_TLSKeyFile cfg) of
          Inl e \<Rightarrow> Inl e
        | Inr tlsCert \<Rightarrow>
            Inr \<lparr>ta_tlsConfig = \<lparr>tc_Certificates = [tlsCert], tc_MinTLS12 = True, tc_NextProtos = [''h2'', ''http/1.1'']\<rparr>,
                 ta_httpHandler = RedirectToHTTPS, ta_manage = None\<rparr>
      else
        let dataDir = (if ec_DataDir cfg = [] then resolveDataDir U home getenv else ec_DataDir cfg) in
        Inr \<lparr>ta_tlsConfig = managedConfig\<lparr>tc_NextProtos := appendMissing (tc_NextProtos managedConfig) [''h2'', ''http/1.1'']\<rparr>,
             ta_httpHandler = wrapHTTPChallenge issuers RedirectToHTTPS,
             ta_manage = Some (managedHosts U cfg, dataDir)\<rparr>)"

text \<open>\<open>edgeTLSConfig\<close>, where \<open>manageSync\<close> is the result of managing the given hosts.\<close>

definition edgeTLSConfig ::
  "(string list \<times> string \<Rightarrow> go_error option) \<Rightarrow> go_error + 'c edgeTLSAssets \<Rightarrow> go_error + 'c tls_config \<times> http_handler" where
  "edgeTLSConfig manageSync assetsFor =
     (case assetsFor of
        Inl err \<Rightarrow> Inl err
      | Inr assets \<Rightarrow>
          (case (case ta_manage assets of None \<Rightarrow> None | Some m \<Rightarrow> manageSync m) of
             Some err \<Rightarrow> Inl err
           | None \<Rightarrow> Inr (ta_tlsConfig assets, ta_httpHandler assets)))"

subsection \<open>The certificate cache\<close>

text \<open>
  \<open>manage\<close> with its goroutine: \<open>mc_waiter\<close> tells whether the goroutine still waits for the context,
  \<open>mc_once\<close> is the \<open>sync.Once\<close>, and \<open>mc_stops\<close> counts the calls of \<open>cache.Stop\<close>.
\<close>

datatype manage_pc = M_Start | M_Sync | M_Returned "go_error option"

record managed =
  mc_ctxDone :: bool
  mc_waiter :: bool
  mc_pc :: manage_pc
  mc_once :: bool
  mc_stops :: nat

definition stopManagedCache :: "managed \<Rightarrow> managed" where
  "stopManagedCache s = (if mc_once s then s else s\<lparr>mc_once := True, mc_stops := Suc (mc_stops s)\<rparr>)"

inductive manage_step :: "managed \<Rightarrow> managed \<Rightarrow> bool" where
  manage_ctx: "\<not> mc_ctxDone s \<Longrightarrow> manage_step s (s\<lparr>mc_ctxDone := True\<rparr>)"
| manage_start: "mc_pc s = M_Start \<Longrightarrow> manage_step s (s\<lparr>mc_pc := M_Sync, mc_waiter := True\<rparr>)"
| manage_waiter: "mc_waiter s \<Longrightarrow> mc_ctxDone s \<Longrightarrow> manage_step s (stopManagedCache (s\<lparr>mc_waiter := False\<rparr>))"
| manage_ok: "mc_pc s = M_Sync \<Longrightarrow> manage_step s (s\<lparr>mc_pc := M_Returned None\<rparr>)"
| manage_fail: "mc_pc s = M_Sync \<Longrightarrow> manage_step s ((stopManagedCache s)\<lparr>mc_pc := M_Returned (Some e)\<rparr>)"

definition manage_init :: "managed \<Rightarrow> bool" where
  "manage_init s \<longleftrightarrow> mc_pc s = M_Start \<and> \<not> mc_waiter s \<and> \<not> mc_once s \<and> mc_stops s = 0"

definition manage_ok_inv :: "managed \<Rightarrow> bool" where
  "manage_ok_inv s \<longleftrightarrow> mc_stops s = of_bool (mc_once s) \<and> (mc_pc s = M_Start \<longrightarrow> \<not> mc_once s \<and> \<not> mc_waiter s) \<and>
     (mc_pc s \<noteq> M_Start \<longrightarrow> \<not> mc_waiter s \<longrightarrow> mc_once s \<and> mc_ctxDone s) \<and>
     (\<forall>e. mc_pc s = M_Returned (Some e) \<longrightarrow> mc_once s) \<and>
     (mc_once s \<longrightarrow> mc_ctxDone s \<and> \<not> mc_waiter s \<or> (\<exists>e. mc_pc s = M_Returned (Some e)))"

interpretation mc: invariant_system manage_init manage_step manage_ok_inv
proof
  show "manage_ok_inv s" if "manage_init s" for s using that by (simp add: manage_init_def manage_ok_inv_def)
  show "manage_ok_inv t" if i: "manage_ok_inv s" and st: "manage_step s t" for s t
    using st by cases (use i in \<open>auto simp: manage_ok_inv_def stopManagedCache_def\<close>)
qed

subsection \<open>The gRPC server\<close>

datatype grpc_call = GracefulStop | ForceStop

text \<open>The calls of \<open>gracefulStopGRPC\<close>; \<open>in_time\<close> tells whether the streams drain within five seconds.\<close>

definition gracefulStopGRPC :: "bool \<Rightarrow> bool \<Rightarrow> grpc_call list" where
  "gracefulStopGRPC is_nil in_time =
     (if is_nil then [] else if in_time then [GracefulStop] else [GracefulStop, ForceStop])"

subsection \<open>Limits of the HTTP servers\<close>

text \<open>Times in seconds; zero is no limit.\<close>

record http_server =
  hs_ReadHeaderTimeout :: nat
  hs_ReadTimeout :: nat
  hs_WriteTimeout :: nat
  hs_IdleTimeout :: nat
  hs_MaxHeaderBytes :: nat

definition httpMaxHeaderBytes :: nat where "httpMaxHeaderBytes = 16 * 2 ^ 10"
definition publicHTTPSIdleTimeout :: nat where "publicHTTPSIdleTimeout = 2 * 60"

definition newRedirectHTTPServer :: http_server where
  "newRedirectHTTPServer = \<lparr>hs_ReadHeaderTimeout = 5, hs_ReadTimeout = 10, hs_WriteTimeout = 10, hs_IdleTimeout = 30,
     hs_MaxHeaderBytes = httpMaxHeaderBytes\<rparr>"

definition newPublicHTTPSServer :: http_server where
  "newPublicHTTPSServer = \<lparr>hs_ReadHeaderTimeout = 10, hs_ReadTimeout = 0, hs_WriteTimeout = 0,
     hs_IdleTimeout = publicHTTPSIdleTimeout, hs_MaxHeaderBytes = httpMaxHeaderBytes\<rparr>"

subsection \<open>Properties\<close>

text \<open>
  The certificate cache is stopped at most once; it is stopped when managing fails and when the context
  has ended and its goroutine has run, and only then.
\<close>

lemma managed_cache_stopped_once:
  assumes "reachable manage_init manage_step s"
  shows "mc_stops s \<le> 1" "mc_pc s = M_Returned (Some e) \<Longrightarrow> mc_stops s = 1"
    "mc_pc s \<noteq> M_Start \<Longrightarrow> mc_ctxDone s \<Longrightarrow> \<not> mc_waiter s \<Longrightarrow> mc_stops s = 1"
    "mc_stops s = 1 \<Longrightarrow> mc_ctxDone s \<or> (\<exists>e. mc_pc s = M_Returned (Some e))"
  using mc.reachable_inv [OF assms] by (auto simp: manage_ok_inv_def split: if_splits)

text \<open>Both ways to a TLS configuration offer HTTP/2 and HTTP/1.1, and a static certificate needs no managing.\<close>

lemma edgeTLSConfig_protocols:
  assumes "edgeTLSConfig manageSync (edgeTLSAssetsFor U home getenv loader managed issuers cfg) = Inr (c, h)"
  shows "{''h2'', ''http/1.1''} \<subseteq> set (tc_NextProtos c)"
    "ec_TLSCertFile cfg \<noteq> [] \<Longrightarrow> \<exists>cert. loader (ec_TLSCertFile cfg) (ec_TLSKeyFile cfg) = Inr cert \<and> tc_Certificates c = [cert]"
proof -
  have m: "{''h2'', ''http/1.1''} \<subseteq> set (appendMissing (tc_NextProtos managed) [''h2'', ''http/1.1''])"
    using appendMissing_superset [of "[''h2'', ''http/1.1'']" "tc_NextProtos managed"] by (simp only: list.set)
  obtain assets where a: "edgeTLSAssetsFor U home getenv loader managed issuers cfg = Inr assets" "c = ta_tlsConfig assets"
    using assms by (auto simp: edgeTLSConfig_def split: sum.splits option.splits)
  show "\<exists>cert. loader (ec_TLSCertFile cfg) (ec_TLSKeyFile cfg) = Inr cert \<and> tc_Certificates c = [cert]" if "ec_TLSCertFile cfg \<noteq> []"
    using that a by (auto simp: edgeTLSAssetsFor_def split: sum.splits)
  show "{''h2'', ''http/1.1''} \<subseteq> set (tc_NextProtos c)"
  proof (cases "ec_TLSCertFile cfg = []")
    case True
    then have "tc_NextProtos c = appendMissing (tc_NextProtos managed) [''h2'', ''http/1.1'']"
      using a by (auto simp: edgeTLSAssetsFor_def Let_def)
    then show ?thesis using m by simp
  next
    case False
    then show ?thesis using a by (auto simp: edgeTLSAssetsFor_def split: sum.splits)
  qed
qed

lemma wrapHTTPChallenge_cases:
  "wrapHTTPChallenge issuers next = (if ACMEIssuer \<in> set issuers then HTTPChallenge next else next)"
  by (induction issuers "next" rule: wrapHTTPChallenge.induct) auto

lemma routed_host:
  assumes "route = newHTTPSHandler U d edge pub pprof r" "route \<noteq> ToNotFound" "route \<noteq> ToPublic" "route \<noteq> ToStatus"
  shows "NormalizeHost U (r_Host r) = edge"
  using assms by (auto simp: newHTTPSHandler_def Let_def split: if_splits)

text \<open>
  C22: the edge has a certificate for every host it serves.  With a loaded configuration whose domain is in
  normal form and no static certificate, the managed hosts are pairwise distinct valid names, a request
  that is not answered with 404 is for one of them, both HTTP/2 and HTTP/1.1 are offered, and the plain
  HTTP port redirects, with the ACME challenge in front of it when an ACME issuer is configured.
\<close>
theorem served_hosts_have_certificates:
  assumes "loadConfig U home args getenv = Inr cfg" "NormalizeDomain U (ec_PublicDomain cfg) = ec_PublicDomain cfg"
    and "New U (server_config cfg) = Inr s0" "srv_publicHosts s = srv_publicHosts s0"
    and "edgeTLSAssetsFor U home' getenv' loader managed issuers cfg = Inr assets" "ec_TLSCertFile cfg = []"
    and "host = NormalizeHost U (r_Host r)"
    and "route = newHTTPSHandler U (ec_PublicDomain cfg) (ec_EdgeDomain cfg) (\<lambda>h. HasPublicHost U h s) (ec_Debug cfg) r"
  shows "\<exists>hosts dir. ta_manage assets = Some (hosts, dir) \<and> distinct hosts \<and> list_all dns_name hosts \<and>
    (route = ToNotFound \<or> host \<in> set hosts \<or> NormalizeHost U host \<in> set hosts) \<and>
    {''h2'', ''http/1.1''} \<subseteq> set (tc_NextProtos (ta_tlsConfig assets)) \<and>
    ta_httpHandler assets = (if ACMEIssuer \<in> set issuers then HTTPChallenge RedirectToHTTPS else RedirectToHTTPS)"
proof -
  note hosts = managedHosts_distinct [OF assms(1,2)]
  note route = edge_routing_parts [OF assms(1-4) assms(7,8)]
  obtain dir where a: "ta_manage assets = Some (managedHosts U cfg, dir)"
    "tc_NextProtos (ta_tlsConfig assets) = appendMissing (tc_NextProtos managed) [''h2'', ''http/1.1'']"
    "ta_httpHandler assets = wrapHTTPChallenge issuers RedirectToHTTPS"
    using assms(5,6) by (auto simp: edgeTLSAssetsFor_def Let_def)
  have "{''h2'', ''http/1.1''} \<subseteq> set (tc_NextProtos (ta_tlsConfig assets))"
    unfolding a(2) using appendMissing_spec [of "tc_NextProtos managed" "[''h2'', ''http/1.1'']"] by force
  moreover have "route = ToNotFound \<or> host \<in> set (managedHosts U cfg) \<or> NormalizeHost U host \<in> set (managedHosts U cfg)"
  proof (cases "route = ToPublic \<or> route = ToStatus")
    case True
    then show ?thesis using route hosts by auto
  next
    case False
    then show ?thesis using routed_host [OF assms(8)] hosts assms(7) by auto
  qed
  ultimately show ?thesis using a hosts by (simp add: wrapHTTPChallenge_cases)
qed

theorem served_hosts_have_certificates_witness:
  "\<exists>hosts dir. ta_manage \<lparr>ta_tlsConfig = \<lparr>tc_Certificates = [] :: nat list, tc_MinTLS12 = True, tc_NextProtos = [''h2'', ''http/1.1'', ''acme-tls/1'']\<rparr>,
       ta_httpHandler = HTTPChallenge RedirectToHTTPS,
       ta_manage = Some (managedHosts no_tables demo_edge, ec_DataDir demo_edge)\<rparr> = Some (hosts, dir) \<and>
     distinct hosts \<and> ''other.example.com'' \<in> set hosts"
proof -
  let ?r = "demo_request\<lparr>r_Host := ''other.example.com''\<rparr>"
  let ?m = "\<lparr>tc_Certificates = [], tc_MinTLS12 = True, tc_NextProtos = [''h2'', ''http/1.1'', ''acme-tls/1'']\<rparr> :: nat tls_config"
  let ?a = "\<lparr>ta_tlsConfig = ?m, ta_httpHandler = HTTPChallenge RedirectToHTTPS,
    ta_manage = Some (managedHosts no_tables demo_edge, ec_DataDir demo_edge)\<rparr>"
  have h: "NormalizeDomain no_tables (ec_PublicDomain demo_edge) = ec_PublicDomain demo_edge"
    "New no_tables (server_config demo_edge) = Inr demo_edge_server" "ec_TLSCertFile demo_edge = []"
    "NormalizeHost no_tables (r_Host ?r) = ''other.example.com''" "NormalizeHost no_tables ''other.example.com'' = ''other.example.com''"
    "newHTTPSHandler no_tables (ec_PublicDomain demo_edge) (ec_EdgeDomain demo_edge)
      (\<lambda>h. HasPublicHost no_tables h demo_edge_server) (ec_Debug demo_edge) ?r \<noteq> ToNotFound" by code_simp+
  have p: "appendMissing [''h2'', ''http/1.1'', ''acme-tls/1''] [''h2'', ''http/1.1''] = [''h2'', ''http/1.1'', ''acme-tls/1'']" by code_simp
  have "ec_DataDir demo_edge \<noteq> []" by (simp add: demo_edge_def)
  then have a: "edgeTLSAssetsFor no_tables None (\<lambda>_. []) (\<lambda>_ _. Inl ErrEOF) ?m [OtherIssuer, ACMEIssuer] demo_edge = Inr ?a"
    using h(3) by (simp add: edgeTLSAssetsFor_def p)
  from served_hosts_have_certificates [OF loadConfig_demo h(1,2) refl a h(3) refl refl, of ?r] h(4-6)
  show ?thesis by auto
qed

end
