(* ===== verification/DebugLog.thy ===== *)
theory DebugLog
  imports ClientSession
begin

text \<open>
  The debug lines of the edge (\<open>server/server.go\<close>) and of the client (\<open>tunnel/client.go\<close>) for every frame
  they send or receive, as the list of lines given to the logger.  \<open>quote\<close> stands for the format \<open>%q\<close> and
  \<open>rtt\<close> for the printed time since a ping.

  The lines are an information-flow boundary: they go to operators and log collectors, whereas tokens,
  header values (cookies, authorizations) and bodies belong to the parties of the tunnel.
\<close>

definition logf :: "bool \<Rightarrow> string \<Rightarrow> string list" where
  "logf logger line = (if logger then [line] else [])"

definition debugf :: "bool \<Rightarrow> bool \<Rightarrow> string \<Rightarrow> string list" where
  "debugf debug logger line = (if debug then logf logger line else [])"

abbreviation decimal :: "'a::len word \<Rightarrow> string" where
  "decimal w \<equiv> format_int (sint w)"

abbreviation byte_count :: "bytes \<Rightarrow> string" where
  "byte_count bs \<equiv> format_uint (length bs)"

definition format_bool :: "bool \<Rightarrow> string" where
  "format_bool b = (if b then ''true'' else ''false'')"

subsection \<open>Client\<close>

definition client_logf :: "bool \<Rightarrow> string \<Rightarrow> string list" where
  "client_logf logger line = (if logger then [line] else [])"

definition client_debugf :: "bool \<Rightarrow> bool \<Rightarrow> string \<Rightarrow> string list" where
  "client_debugf debug logger line = (if debug then client_logf logger line else [])"

definition client_debugReceivedFrame ::
  "go_unicode \<Rightarrow> (string \<Rightarrow> string) \<Rightarrow> bool \<Rightarrow> bool \<Rightarrow> ServerFrame \<Rightarrow> string list" where
  "client_debugReceivedFrame U quote debug logger frame =
     (if \<not> debug then []
      else case frame of
        None \<Rightarrow> []
      | Some (ServerFrame_RequestStart start) \<Rightarrow>
          client_logf logger (''client debug: recv request_start id='' @ RequestStart_RequestId start @
            '' method='' @ RequestStart_Method start @ '' host='' @ RequestStart_Host start @ '' path='' @ RequestStart_Path start @
            '' query='' @ quote (RequestStart_RawQuery start) @ '' websocket='' @ format_bool (isWebSocketUpgrade U start) @
            '' remote='' @ RequestStart_RemoteAddr start)
      | Some (ServerFrame_RequestBody msg) \<Rightarrow>
          client_logf logger (''client debug: recv request_body id='' @ RequestBody_RequestId msg @ '' bytes='' @ byte_count (RequestBody_Chunk msg))
      | Some (ServerFrame_RequestEnd msg) \<Rightarrow> client_logf logger (''client debug: recv request_end id='' @ RequestEnd_RequestId msg)
      | Some (ServerFrame_CancelRequest msg) \<Rightarrow> client_logf logger (''client debug: recv cancel_request id='' @ CancelRequest_RequestId msg)
      | Some (ServerFrame_WsData msg) \<Rightarrow>
          client_logf logger (''client debug: recv ws_data id='' @ WebSocketData_RequestId msg @ '' bytes='' @ byte_count (WebSocketData_Payload msg))
      | Some (ServerFrame_WsClose msg) \<Rightarrow> client_logf logger (''client debug: recv ws_close id='' @ WebSocketClose_RequestId msg)
      | Some (ServerFrame_Ping msg) \<Rightarrow> client_logf logger (''client debug: recv ping unix_nano='' @ decimal (Ping_UnixNano msg)))"

definition client_debugSentFrame :: "(string \<Rightarrow> string) \<Rightarrow> bool \<Rightarrow> bool \<Rightarrow> ClientFrame \<Rightarrow> string list" where
  "client_debugSentFrame quote debug logger frame =
     (if \<not> debug then []
      else case frame of
        None \<Rightarrow> []
      | Some (ClientFrame_Register msg) \<Rightarrow> client_logf logger ''client debug: sent register''
      | Some (ClientFrame_ResponseStart msg) \<Rightarrow>
          client_logf logger (''client debug: sent response_start id='' @ ResponseStart_RequestId msg @ '' status='' @ decimal (ResponseStart_StatusCode msg))
      | Some (ClientFrame_ResponseBody msg) \<Rightarrow>
          client_logf logger (''client debug: sent response_body id='' @ ResponseBody_RequestId msg @ '' bytes='' @ byte_count (ResponseBody_Chunk msg))
      | Some (ClientFrame_ResponseEnd msg) \<Rightarrow> client_logf logger (''client debug: sent response_end id='' @ ResponseEnd_RequestId msg)
      | Some (ClientFrame_ResponseError msg) \<Rightarrow>
          client_logf logger (''client debug: sent response_error id='' @ ResponseError_RequestId msg @ '' message='' @ quote (ResponseError_Message msg))
      | Some (ClientFrame_WsData msg) \<Rightarrow>
          client_logf logger (''client debug: sent ws_data id='' @ WebSocketData_RequestId msg @ '' bytes='' @ byte_count (WebSocketData_Payload msg))
      | Some (ClientFrame_WsClose msg) \<Rightarrow> client_logf logger (''client debug: sent ws_close id='' @ WebSocketClose_RequestId msg)
      | Some (ClientFrame_Pong msg) \<Rightarrow> client_logf logger (''client debug: sent pong unix_nano='' @ decimal (Pong_UnixNano msg)))"

subsection \<open>Edge\<close>

definition edge_prefix :: "nat \<Rightarrow> string" where
  "edge_prefix sid = ''edge debug: session='' @ format_uint sid"

definition server_debugSentFrame :: "(string \<Rightarrow> string) \<Rightarrow> bool \<Rightarrow> bool \<Rightarrow> nat \<Rightarrow> ServerFrame \<Rightarrow> string list" where
  "server_debugSentFrame quote debug logger sid frame =
     (if \<not> debug then []
      else case frame of
        None \<Rightarrow> []
      | Some (ServerFrame_RequestStart start) \<Rightarrow>
          logf logger (edge_prefix sid @ '' sent request_start id='' @ RequestStart_RequestId start @
            '' method='' @ RequestStart_Method start @ '' host='' @ RequestStart_Host start @ '' path='' @ RequestStart_Path start @
            '' query='' @ quote (RequestStart_RawQuery start) @ '' remote='' @ RequestStart_RemoteAddr start)
      | Some (ServerFrame_RequestBody msg) \<Rightarrow>
          logf logger (edge_prefix sid @ '' sent request_body id='' @ RequestBody_RequestId msg @ '' bytes='' @ byte_count (RequestBody_Chunk msg))
      | Some (ServerFrame_RequestEnd msg) \<Rightarrow> logf logger (edge_prefix sid @ '' sent request_end id='' @ RequestEnd_RequestId msg)
      | Some (ServerFrame_CancelRequest msg) \<Rightarrow> logf logger (edge_prefix sid @ '' sent cancel_request id='' @ CancelRequest_RequestId msg)
      | Some (ServerFrame_Ping msg) \<Rightarrow> logf logger (edge_prefix sid @ '' sent ping unix_nano='' @ decimal (Ping_UnixNano msg))
      | Some (ServerFrame_WsData msg) \<Rightarrow>
          logf logger (edge_prefix sid @ '' sent ws_data id='' @ WebSocketData_RequestId msg @ '' bytes='' @ byte_count (WebSocketData_Payload msg))
      | Some (ServerFrame_WsClose msg) \<Rightarrow> logf logger (edge_prefix sid @ '' sent ws_close id='' @ WebSocketClose_RequestId msg))"

definition server_debugReceivedFrame ::
  "(string \<Rightarrow> string) \<Rightarrow> string \<Rightarrow> bool \<Rightarrow> bool \<Rightarrow> nat \<Rightarrow> ClientFrame \<Rightarrow> string list" where
  "server_debugReceivedFrame quote rtt debug logger sid frame =
     (if \<not> debug then []
      else case frame of
        None \<Rightarrow> []
      | Some (ClientFrame_Register msg) \<Rightarrow> logf logger (edge_prefix sid @ '' recv register'')
      | Some (ClientFrame_ResponseStart msg) \<Rightarrow>
          logf logger (edge_prefix sid @ '' recv response_start id='' @ ResponseStart_RequestId msg @ '' status='' @ decimal (ResponseStart_StatusCode msg))
      | Some (ClientFrame_ResponseBody msg) \<Rightarrow>
          logf logger (edge_prefix sid @ '' recv response_body id='' @ ResponseBody_RequestId msg @ '' bytes='' @ byte_count (ResponseBody_Chunk msg))
      | Some (ClientFrame_ResponseEnd msg) \<Rightarrow> logf logger (edge_prefix sid @ '' recv response_end id='' @ ResponseEnd_RequestId msg)
      | Some (ClientFrame_ResponseError msg) \<Rightarrow>
          logf logger (edge_prefix sid @ '' recv response_error id='' @ ResponseError_RequestId msg @ '' message='' @ quote (ResponseError_Message msg))
      | Some (ClientFrame_WsData msg) \<Rightarrow>
          logf logger (edge_prefix sid @ '' recv ws_data id='' @ WebSocketData_RequestId msg @ '' bytes='' @ byte_count (WebSocketData_Payload msg))
      | Some (ClientFrame_WsClose msg) \<Rightarrow> logf logger (edge_prefix sid @ '' recv ws_close id='' @ WebSocketClose_RequestId msg)
      | Some (ClientFrame_Pong msg) \<Rightarrow>
          logf logger (edge_prefix sid @ '' recv pong unix_nano='' @ decimal (Pong_UnixNano msg) @ '' rtt='' @ rtt))"

subsection \<open>What the lines may depend on\<close>

text \<open>
  The public part of a frame: tokens and headers are erased up to the kind of the request, and of a
  body or payload only its length is left.
\<close>

definition blank :: "bytes \<Rightarrow> bytes" where
  "blank bs = replicate (length bs) CHR 0x00"

definition public_start :: "go_unicode \<Rightarrow> RequestStart \<Rightarrow> RequestStart" where
  "public_start U st =
     st\<lparr>RequestStart_Scheme := [], RequestStart_RawPath := [],
        RequestStart_Headers := (if isWebSocketUpgrade U st then [Some \<lparr>Header_Key = ''Upgrade'', Header_Values = [''websocket'']\<rparr>] else [])\<rparr>"

fun public_server_frame :: "go_unicode \<Rightarrow> ServerFrame \<Rightarrow> ServerFrame" where
  "public_server_frame U (Some (ServerFrame_RequestStart st)) = Some (ServerFrame_RequestStart (public_start U st))"
| "public_server_frame U (Some (ServerFrame_RequestBody m)) =
     Some (ServerFrame_RequestBody (m\<lparr>RequestBody_Chunk := blank (RequestBody_Chunk m)\<rparr>))"
| "public_server_frame U (Some (ServerFrame_WsData m)) =
     Some (ServerFrame_WsData (m\<lparr>WebSocketData_Payload := blank (WebSocketData_Payload m)\<rparr>))"
| "public_server_frame U f = f"

fun public_client_frame :: "ClientFrame \<Rightarrow> ClientFrame" where
  "public_client_frame (Some (ClientFrame_Register m)) = Some (ClientFrame_Register \<lparr>Register_TunnelId = [], Register_Token = []\<rparr>)"
| "public_client_frame (Some (ClientFrame_ResponseStart m)) = Some (ClientFrame_ResponseStart (m\<lparr>ResponseStart_Headers := []\<rparr>))"
| "public_client_frame (Some (ClientFrame_ResponseBody m)) =
     Some (ClientFrame_ResponseBody (m\<lparr>ResponseBody_Chunk := blank (ResponseBody_Chunk m)\<rparr>))"
| "public_client_frame (Some (ClientFrame_WsData m)) =
     Some (ClientFrame_WsData (m\<lparr>WebSocketData_Payload := blank (WebSocketData_Payload m)\<rparr>))"
| "public_client_frame f = f"

lemma length_blank [simp]: "length (blank bs) = length bs"
  by (simp add: blank_def)

text \<open>The lines of a frame are those of its public part: nothing else of it is read.\<close>

lemma upgrade_header:
  "isWebSocketUpgrade U (st\<lparr>RequestStart_Headers := [Some \<lparr>Header_Key = ''Upgrade'', Header_Values = [''websocket'']\<rparr>]\<rparr>)"
  "\<not> isWebSocketUpgrade U (st\<lparr>RequestStart_Headers := []\<rparr>)"
proof -
  have "equal_fold U ''Upgrade'' ''Upgrade'' = True" "equal_fold U ''websocket'' ''websocket'' = True" by code_simp+
  then show "isWebSocketUpgrade U (st\<lparr>RequestStart_Headers := [Some \<lparr>Header_Key = ''Upgrade'', Header_Values = [''websocket'']\<rparr>]\<rparr>)"
    by (simp add: isWebSocketUpgrade_def del: equal_fold.simps)
qed (simp add: isWebSocketUpgrade_def)

lemma public_start_upgrade: "isWebSocketUpgrade U (public_start U st) = isWebSocketUpgrade U st"
  by (cases "isWebSocketUpgrade U st") (simp_all add: public_start_def upgrade_header)

lemma public_start_keeps:
  "RequestStart_RequestId (public_start U st) = RequestStart_RequestId st" "RequestStart_Method (public_start U st) = RequestStart_Method st"
  "RequestStart_Host (public_start U st) = RequestStart_Host st" "RequestStart_Path (public_start U st) = RequestStart_Path st"
  "RequestStart_RawQuery (public_start U st) = RequestStart_RawQuery st" "RequestStart_RemoteAddr (public_start U st) = RequestStart_RemoteAddr st"
  by (simp_all add: public_start_def)

lemma server_line_public:
  "server_debugSentFrame quote debug logger sid (public_server_frame U f) = server_debugSentFrame quote debug logger sid f"
  "client_debugReceivedFrame U quote debug logger (public_server_frame U f) = client_debugReceivedFrame U quote debug logger f"
  by (induction U f rule: public_server_frame.induct)
    (simp_all add: server_debugSentFrame_def client_debugReceivedFrame_def public_start_upgrade public_start_keeps)

lemma client_line_public:
  "client_debugSentFrame quote debug logger (public_client_frame f) = client_debugSentFrame quote debug logger f"
  "server_debugReceivedFrame quote rtt debug logger sid (public_client_frame f) = server_debugReceivedFrame quote rtt debug logger sid f"
  by (induction f rule: public_client_frame.induct) (simp_all add: client_debugSentFrame_def server_debugReceivedFrame_def)


definition register_frame :: "string \<Rightarrow> ClientFrame" where
  "register_frame token = Some (ClientFrame_Register \<lparr>Register_TunnelId = [], Register_Token = token\<rparr>)"

definition body_frame :: "bytes \<Rightarrow> ServerFrame" where
  "body_frame chunk = Some (ServerFrame_RequestBody \<lparr>RequestBody_RequestId = ''7'', RequestBody_Chunk = chunk\<rparr>)"


end
