(* ===== verification/ServerTypes.thy ===== *)
theory ServerTypes
  imports ServerSlots ServerWebSocket
begin

text \<open>
  The state of the edge is well typed in every interleaving: pointers point into the heaps, maps have one
  entry for a key, channels hold at most what they were made for, and a \<open>done\<close> channel is closed exactly
  when its once has run.  Every operation of \<open>server/server.go\<close> keeps this.
\<close>

definition below :: "nat \<Rightarrow> (string, nat) gomap \<Rightarrow> bool" where
  "below n m = list_all (\<lambda>(k, a). a < n) m"

definition sess_wf :: "nat \<Rightarrow> nat \<Rightarrow> session \<Rightarrow> bool" where
  "sess_wf nr nw x \<longleftrightarrow>
     map_wf (sess_inflight x) \<and> below nr (sess_inflight x) \<and> map_wf (sess_wsMap x) \<and> below nw (sess_wsMap x) \<and>
     chan_wf (sess_outbound x) \<and> ch_cap (sess_outbound x) = sessionOutboundQueueDepth \<and> (sess_done x \<longleftrightarrow> sess_once x)"

definition server_typed :: "Server \<Rightarrow> bool" where
  "server_typed s \<longleftrightarrow>
     list_all rs_wf (heap_rs s) \<and> list_all ws_wf (heap_ws s) \<and>
     list_all (sess_wf (length (heap_rs s)) (length (heap_ws s))) (heap_sess s) \<and>
     list_all (\<lambda>(h, sa). sa < length (heap_sess s) \<and> sess_publicHost (heap_sess s ! sa) = h) (srv_sessions s)"

text \<open>An operation keeps the types and the objects it was given.\<close>

definition keeps :: "Server \<Rightarrow> Server \<Rightarrow> bool" where
  "keeps s t \<longleftrightarrow> server_typed t \<and> length (heap_sess s) \<le> length (heap_sess t) \<and> length (heap_rs s) \<le> length (heap_rs t)"

subsection \<open>Updates through pointers\<close>

lemma list_all_update: "list_all P xs \<Longrightarrow> (i < length xs \<Longrightarrow> P y) \<Longrightarrow> list_all P (xs[i := y])"
  by (cases "i < length xs") (auto simp: list_all_length nth_list_update)

lemma below_simps:
  "below n []" "below n m \<Longrightarrow> v < n \<Longrightarrow> below n (map_put k v m)" "below n m \<Longrightarrow> below n (map_del k m)" "below n m \<Longrightarrow> below (Suc n) m"
  using set_map_put [of k v m] set_map_del [of k m] by (auto simp: below_def list_all_iff)

lemma sess_wf_Suc: "sess_wf nr nw x \<Longrightarrow> sess_wf (Suc nr) nw x" "sess_wf nr nw x \<Longrightarrow> sess_wf nr (Suc nw) x"
  by (auto simp: sess_wf_def below_simps)

lemma typed_sess: "server_typed s \<Longrightarrow> a < length (heap_sess s) \<Longrightarrow> sess_wf (length (heap_rs s)) (length (heap_ws s)) (heap_sess s ! a)"
  by (simp add: server_typed_def list_all_length)

lemma typed_wf: "server_typed s \<Longrightarrow> server_wf s"
  by (auto simp: server_typed_def server_wf_def list_all_iff sess_wf_def below_def)

lemma keeps_same: "server_typed s \<Longrightarrow> heap_sess t = heap_sess s \<Longrightarrow> heap_rs t = heap_rs s \<Longrightarrow> heap_ws t = heap_ws s \<Longrightarrow>
    srv_sessions t = srv_sessions s \<Longrightarrow> keeps s t"
  by (simp add: keeps_def server_typed_def)

lemma keeps_upd_sess:
  assumes "server_typed s"
    and "a < length (heap_sess s) \<Longrightarrow> sess_wf (length (heap_rs s)) (length (heap_ws s)) (heap_sess s ! a) \<Longrightarrow>
      sess_wf (length (heap_rs s)) (length (heap_ws s)) (f (heap_sess s ! a)) \<and> sess_publicHost (f (heap_sess s ! a)) = sess_publicHost (heap_sess s ! a)"
  shows "keeps s (upd_sess a f s)"
proof (cases "a < length (heap_sess s)")
  case True
  note ok = assms(2) [OF True typed_sess [OF assms(1) True]]
  have "sess_publicHost (heap_sess (upd_sess a f s) ! b) = sess_publicHost (heap_sess s ! b)" for b
    using ok True by (cases "b = a") simp_all
  then have "list_all (\<lambda>(h, sa). sa < length (heap_sess (upd_sess a f s)) \<and> sess_publicHost (heap_sess (upd_sess a f s) ! sa) = h) (srv_sessions s)"
    using assms(1) by (simp add: server_typed_def)
  moreover have "list_all (sess_wf (length (heap_rs s)) (length (heap_ws s))) (heap_sess (upd_sess a f s))"
    using assms(1) ok by (simp add: server_typed_def upd_sess_def list_all_update)
  ultimately show ?thesis using assms(1) by (simp add: keeps_def server_typed_def)
next
  case False
  then have "upd_sess a f s = s" by (simp add: upd_sess_def list_update_beyond)
  then show ?thesis using assms(1) by (simp add: keeps_def)
qed

lemma keeps_upd_rs:
  assumes "server_typed s" "\<And>r. rs_wf r \<Longrightarrow> r = heap_rs s ! a \<Longrightarrow> rs_wf (f r)"
  shows "keeps s (upd_rs a f s)"
proof -
  have "list_all rs_wf ((heap_rs s)[a := f (heap_rs s ! a)])"
    using assms by (intro list_all_update) (auto simp: server_typed_def list_all_length)
  then show ?thesis using assms(1) by (simp add: keeps_def server_typed_def) (simp add: upd_rs_def)
qed

lemma keeps_upd_ws:
  assumes "server_typed s" "\<And>w. ws_wf w \<Longrightarrow> w = heap_ws s ! a \<Longrightarrow> ws_wf (f w)"
  shows "keeps s (upd_ws a f s)"
proof -
  have "list_all ws_wf ((heap_ws s)[a := f (heap_ws s ! a)])"
    using assms by (intro list_all_update) (auto simp: server_typed_def list_all_length)
  then show ?thesis using assms(1) by (simp add: keeps_def server_typed_def) (simp add: upd_ws_def)
qed

lemma keeps_trans: "keeps s t \<Longrightarrow> (server_typed t \<Longrightarrow> keeps t u) \<Longrightarrow> keeps s u"
  by (fastforce simp: keeps_def)

subsection \<open>The operations\<close>

lemma chan_cap_send: "ch_cap (chan_send x c) = ch_cap c"
  by (simp add: chan_send_def)

lemma keeps_push:
  assumes "server_typed s" "chan_send_ready (sess_outbound (heap_sess s ! sa))"
  shows "keeps s (push_outbound sa f s)"
  unfolding push_outbound_def using assms
  by (intro keeps_upd_sess) (auto simp: sess_wf_def chan_cap_send intro: fifo.wf_enq)

lemma keeps_send: "server_typed s \<Longrightarrow> (err, t) \<in> set (sendFrameCtx c sa f s) \<Longrightarrow> keeps s t"
  by (auto simp: sendFrameCtx_def keeps_push keeps_same split: option.splits if_splits)

lemma keeps_cancel: "server_typed s \<Longrightarrow> t \<in> set (cancelRequest sa rid s) \<Longrightarrow> keeps s t"
  by (auto simp: cancelRequest_def Let_def keeps_push keeps_same split: if_splits)

lemma keeps_with:
  "server_typed s \<Longrightarrow> t \<in> set (with_rs sa rid g s) \<Longrightarrow> (\<And>r r'. rs_wf r \<Longrightarrow> r' \<in> set (g r) \<Longrightarrow> rs_wf r') \<Longrightarrow> keeps s t"
  "server_typed s \<Longrightarrow> t \<in> set (with_ws sa rid k s) \<Longrightarrow> (\<And>w w'. ws_wf w \<Longrightarrow> w' \<in> set (k w) \<Longrightarrow> ws_wf w') \<Longrightarrow> keeps s t"
  by (auto simp: with_rs_def with_ws_def keeps_same intro!: keeps_upd_rs keeps_upd_ws split: option.splits)

lemma keeps_handle: "server_typed s \<Longrightarrow> t \<in> set (handleClientFrame sa frame s) \<Longrightarrow> keeps s t"
proof (cases frame)
  case None
  then show "server_typed s \<Longrightarrow> t \<in> set (handleClientFrame sa frame s) \<Longrightarrow> keeps s t"
    by (simp add: handleClientFrame_def keeps_same)
next
  case (Some m)
  assume s: "server_typed s" and t: "t \<in> set (handleClientFrame sa frame s)"
  note rs = keeps_with(1) [OF s] and ws = keeps_with(2) [OF s]
  show "keeps s t"
  proof (cases m)
    case (ClientFrame_ResponseStart x)
    with Some t show ?thesis by (auto simp: handleClientFrame_def elim!: rs intro: rs_wf_deliver)
  next
    case (ClientFrame_ResponseBody x)
    with Some t show ?thesis by (auto simp: handleClientFrame_def elim!: rs intro: rs_wf_deliver)
  next
    case (ClientFrame_ResponseEnd x)
    with Some t show ?thesis by (auto simp: handleClientFrame_def elim!: rs intro: rs_wf_finish)
  next
    case (ClientFrame_ResponseError x)
    with Some t show ?thesis by (auto simp: handleClientFrame_def elim!: rs intro: rs_wf_fail)
  next
    case (ClientFrame_WsData x)
    with Some t show ?thesis using ws_wf_deliver [of _ _ "ClientFrame_WsData x"] by (auto simp: handleClientFrame_def elim!: ws)
  next
    case (ClientFrame_WsClose x)
    with Some t show ?thesis by (auto simp: handleClientFrame_def elim!: ws intro: ws_wf_close)
  qed (use Some s t in \<open>simp_all add: handleClientFrame_def keeps_same\<close>)
qed

lemma keeps_tryStart:
  assumes "server_typed s" "tryStart sa rid m s = (r, t)"
  shows "keeps s t" "r = Some ra \<Longrightarrow> ra < length (heap_rs t)"
proof -
  let ?s = "s\<lparr>heap_rs := heap_rs s @ [newResponseState]\<rparr>"
  have grown: "keeps s ?s"
    using assms(1) by (auto simp: keeps_def server_typed_def rs_wf_new list_all_iff sess_wf_Suc)
  have "keeps ?s (sess_put sa rid (length (heap_rs s)) ?s)"
    unfolding sess_put_def using grown by (intro keeps_upd_sess) (simp_all add: keeps_def sess_wf_def go_map below_simps)
  with grown have "keeps s (sess_put sa rid (length (heap_rs s)) ?s)" using keeps_trans by blast
  then show "keeps s t" using assms keeps_same [OF assms(1)] by (auto simp: tryStart_def Let_def split: if_splits)
  show "ra < length (heap_rs t)" if "r = Some ra"
    using assms(2) that by (auto simp: tryStart_def Let_def sess_put_def split: if_splits)
qed

lemma keeps_sess_del: "server_typed s \<Longrightarrow> sess_del sa rid s = (b, t) \<Longrightarrow> keeps s t"
  by (auto simp: sess_del_def keeps_same sess_wf_def go_map below_simps split: option.splits intro!: keeps_upd_sess)

lemma keeps_putWS:
  assumes "server_typed s"
  shows "keeps s (putWS sa rid (length (heap_ws s)) (s\<lparr>heap_ws := heap_ws s @ [newWsState]\<rparr>))" "keeps s (delWS sa rid s)"
proof -
  let ?s = "s\<lparr>heap_ws := heap_ws s @ [newWsState]\<rparr>"
  have grown: "keeps s ?s"
    using assms(1) by (auto simp: keeps_def server_typed_def ws_wf_new list_all_iff sess_wf_Suc)
  have "keeps ?s (putWS sa rid (length (heap_ws s)) ?s)"
    unfolding putWS_def using grown by (intro keeps_upd_sess) (simp_all add: keeps_def sess_wf_def go_map below_simps)
  with grown show "keeps s (putWS sa rid (length (heap_ws s)) ?s)" using keeps_trans by blast
  show "keeps s (delWS sa rid s)" using assms
    unfolding delWS_def by (intro keeps_upd_sess) (simp_all add: sess_wf_def go_map below_simps)
qed

lemma keeps_fold_fail: "server_typed s \<Longrightarrow> keeps s (fold (\<lambda>(rid, ra). upd_rs ra (rs_fail err)) xs s)"
proof (induction xs arbitrary: s)
  case (Cons x xs)
  have "keeps s (upd_rs (snd x) (rs_fail err) s)" by (rule keeps_upd_rs [OF Cons.prems]) (rule rs_wf_fail)
  then show ?case using Cons.IH keeps_trans by (auto simp: case_prod_beta)
qed (simp add: keeps_def)

lemma keeps_fold_close: "server_typed s \<Longrightarrow> keeps s (fold (\<lambda>(rid, wa). upd_ws wa ws_close) xs s)"
proof (induction xs arbitrary: s)
  case (Cons x xs)
  have "keeps s (upd_ws (snd x) ws_close s)" by (rule keeps_upd_ws [OF Cons.prems]) (rule ws_wf_close)
  then show ?case using Cons.IH keeps_trans by (auto simp: case_prod_beta)
qed (simp add: keeps_def)

lemma keeps_failAll:
  assumes "server_typed s" "failAll sa err s = (n, t)"
  shows "keeps s t"
proof -
  let ?a = "fold (\<lambda>(rid, ra). upd_rs ra (rs_fail err)) (sess_inflight (heap_sess s ! sa)) s"
  let ?b = "fold (\<lambda>(rid, wa). upd_ws wa ws_close) (sess_wsMap (heap_sess s ! sa)) ?a"
  have "keeps s ?a" by (rule keeps_fold_fail [OF assms(1)])
  then have b: "keeps s ?b" using keeps_fold_close keeps_trans by blast
  have "keeps ?b (upd_sess sa (\<lambda>x. x\<lparr>sess_inflight := [], sess_wsMap := []\<rparr>) ?b)" if "server_typed ?b"
    using that by (intro keeps_upd_sess) (auto simp: sess_wf_def map_wf_def below_simps)
  with b have "keeps s (upd_sess sa (\<lambda>x. x\<lparr>sess_inflight := [], sess_wsMap := []\<rparr>) ?b)" by (rule keeps_trans)
  then show ?thesis using assms(2) by (simp add: failAll_def Let_def)
qed

lemma keeps_enter: "server_typed s \<Longrightarrow> keeps s (shutdown_enter sa s)"
  unfolding shutdown_enter_def by (intro keeps_upd_sess) (auto simp: sess_wf_def)

lemma keeps_remove: "server_typed s \<Longrightarrow> keeps s (removeSession h sa s)"
  using set_map_del [of h "srv_sessions s"] by (auto simp: removeSession_def keeps_def server_typed_def list_all_iff)

lemma keeps_register:
  assumes "server_typed s" "new_session h u s = (sa, s1)" "putSession_swap sa s1 = (replaced, t)"
  shows "keeps s t" "sa < length (heap_sess t)" "replaced = Some old \<Longrightarrow> old < length (heap_sess t)"
proof -
  define x where "x = \<lparr>sess_id = srv_nextSessionID s + 1, sess_publicHost = h, sess_username = u,
    sess_outbound = chan_make sessionOutboundQueueDepth, sess_done = False, sess_once = False, sess_inflight = [], sess_wsMap = []\<rparr>"
  have x: "sess_publicHost x = h" "sess_wf n m x" "sa = length (heap_sess s)"
    "heap_sess s1 = heap_sess s @ [x]" "heap_rs s1 = heap_rs s" "heap_ws s1 = heap_ws s" "srv_sessions s1 = srv_sessions s" for n m
    using assms(2) by (auto simp: x_def new_session_def Let_def sess_wf_def map_wf_def chan_make_def chan_wf_def below_simps)
  have t: "heap_sess t = heap_sess s @ [x]" "heap_rs t = heap_rs s" "heap_ws t = heap_ws s"
    "srv_sessions t = map_put h sa (srv_sessions s)" "replaced = map_get (srv_sessions s) h"
    using assms(3) x by (auto simp: putSession_swap_def Let_def)
  have reg: "b < length (heap_sess s)" "sess_publicHost (heap_sess s ! b) = k" if "(k, b) \<in> set (srv_sessions s)" for k b
    using assms(1) that by (auto simp: server_typed_def list_all_iff)
  have "list_all (\<lambda>(k, b). b < length (heap_sess t) \<and> sess_publicHost (heap_sess t ! b) = k) (srv_sessions t)"
    using set_map_put [of h sa "srv_sessions s"] reg x by (fastforce simp: t list_all_iff nth_append)
  then show "keeps s t" using assms(1) x(2) by (simp add: keeps_def server_typed_def t)
  show "sa < length (heap_sess t)" by (simp add: t x)
  show "old < length (heap_sess t)" if "replaced = Some old"
    using that reg [of h old] by (simp add: t map_get_def map_of_SomeD less_Suc_eq)
qed

subsection \<open>The steps\<close>

definition handler_typed :: "Server \<Rightarrow> handler_pc \<Rightarrow> bool" where
  "handler_typed s h \<longleftrightarrow>
     (case h_addr h of Some a \<Rightarrow> a < length (heap_sess s) | None \<Rightarrow> True) \<and>
     (case h of H_Serving sa rid ra \<Rightarrow> ra < length (heap_rs s) | _ \<Rightarrow> True)"

definition conn_typed :: "Server \<Rightarrow> conn_pc \<Rightarrow> bool" where
  "conn_typed s c \<longleftrightarrow> (\<forall>a \<in> c_addrs c. a < length (heap_sess s))"

definition edge_typed :: "edge \<Rightarrow> bool" where
  "edge_typed e \<longleftrightarrow> server_typed (e_srv e) \<and> list_all (handler_typed (e_srv e)) (e_handlers e) \<and> list_all (conn_typed (e_srv e)) (e_conns e)"

lemma typed_mono:
  assumes "keeps s t"
  shows "handler_typed s h \<Longrightarrow> handler_typed t h" "conn_typed s c \<Longrightarrow> conn_typed t c"
  using assms by (auto simp: keeps_def handler_typed_def conn_typed_def split: option.splits handler_pc.splits)

lemma edge_typed_srv:
  assumes "edge_typed e" "keeps (e_srv e) s"
  shows "edge_typed (e\<lparr>e_srv := s\<rparr>)"
  using assms typed_mono [OF assms(2)] by (simp add: edge_typed_def keeps_def list_all_iff)

lemma edge_typed_handler:
  assumes "edge_typed e" "keeps (e_srv e) s" "handler_typed s h"
  shows "edge_typed (set_handler i h s e)"
  using edge_typed_srv [OF assms(1,2)] assms(3) by (simp add: edge_typed_def set_handler_def list_all_update)

lemma edge_typed_conn:
  assumes "edge_typed e" "keeps (e_srv e) s" "conn_typed s c"
  shows "edge_typed (set_conn j c s e)"
  using edge_typed_srv [OF assms(1,2)] assms(3) by (simp add: edge_typed_def set_conn_def list_all_update)

lemma typed_nth:
  assumes "edge_typed e"
  shows "i < length (e_handlers e) \<Longrightarrow> handler_typed (e_srv e) (e_handlers e ! i)"
    "j < length (e_conns e) \<Longrightarrow> conn_typed (e_srv e) (e_conns e ! j)"
  using assms by (simp_all add: edge_typed_def list_all_length)

text \<open>A goroutine that moves on with the pointers it has.\<close>

lemma handler_goes:
  assumes "edge_typed e" "i < length (e_handlers e)" "keeps (e_srv e) s"
    and "h_addr h = None \<or> h_addr h = h_addr (e_handlers e ! i)" "(\<exists>sa rid ra. h = H_Serving sa rid ra) \<longrightarrow> h = e_handlers e ! i"
  shows "edge_typed (set_handler i h s e)"
proof (rule edge_typed_handler [OF assms(1,3)])
  have "handler_typed s (e_handlers e ! i)" by (rule typed_mono(1) [OF assms(3) typed_nth(1) [OF assms(1,2)]])
  then show "handler_typed s h" using assms(4,5) by (auto simp: handler_typed_def split: option.splits handler_pc.splits)
qed

lemma conn_goes:
  assumes "edge_typed e" "j < length (e_conns e)" "keeps (e_srv e) s" "c_addrs c \<subseteq> c_addrs (e_conns e ! j)"
  shows "edge_typed (set_conn j c s e)"
proof (rule edge_typed_conn [OF assms(1,3)])
  have "conn_typed s (e_conns e ! j)" by (rule typed_mono(2) [OF assms(3) typed_nth(2) [OF assms(1,2)]])
  then show "conn_typed s c" using assms(4) by (auto simp: conn_typed_def)
qed

lemma conn_opens:
  assumes "edge_typed e" "new_session h u (e_srv e) = (sa, s1)" "putSession_swap sa s1 = (replaced, s2)"
    and "c_addrs c \<subseteq> insert sa (set_option replaced)"
  shows "edge_typed (e\<lparr>e_srv := s2, e_conns := e_conns e @ [c]\<rparr>)"
proof -
  have "server_typed (e_srv e)" using assms(1) by (simp add: edge_typed_def)
  note r = keeps_register [OF this assms(2,3)]
  have "conn_typed s2 c" using r(2,3) assms(4) by (auto simp: conn_typed_def)
  then show ?thesis using edge_typed_srv [OF assms(1) r(1)] by (simp add: edge_typed_def)
qed

lemma keeps_counter: "server_typed s \<Longrightarrow> keeps s (add_slots d s)" "server_typed s \<Longrightarrow> keeps s (releaseGlobalSlots d s)" "server_typed s \<Longrightarrow> keeps s s"
  by (auto simp: add_slots_def intro!: keeps_same)

lemma edge_typed_step:
  assumes "edge_step U e e'" "edge_typed e"
  shows "edge_typed e'"
proof -
  have s: "server_typed (e_srv e)" using assms(2) by (simp add: edge_typed_def)
  note go = handler_goes [OF assms(2)] conn_goes [OF assms(2)]
  from assms(1) show ?thesis
  proof cases
    case (request rhost sa n)
    then have "(NormalizeHost U rhost, sa) \<in> set (srv_sessions (e_srv e))" by (simp add: getSession_def map_get_def map_of_SomeD)
    then have "sa < length (heap_sess (e_srv e))" using s by (auto simp: server_typed_def list_all_iff)
    moreover have "keeps (e_srv e) ((e_srv e)\<lparr>srv_nextRequestID := n\<rparr>)" by (rule keeps_same [OF s]) simp_all
    ultimately show ?thesis using request edge_typed_srv [OF assms(2)] by (simp add: edge_typed_def handler_typed_def)
  next
    case (try_start_ok i sa rid ra s')
    note k = keeps_tryStart [OF s try_start_ok(4)]
    have "handler_typed s' (H_TryStart sa rid)"
      using typed_mono(1) [OF k(1) typed_nth(1) [OF assms(2) try_start_ok(2)]] try_start_ok(3) by simp
    then have "handler_typed s' (H_Serving sa rid ra)" using k(2) [OF refl] by (simp add: handler_typed_def)
    with try_start_ok k(1) show ?thesis by (simp add: edge_typed_handler [OF assms(2)])
  next
    case (try_start_full i sa rid s')
    then show ?thesis using keeps_tryStart(1) [OF s] by (auto intro!: go)
  next
    case (serve_consume i sa rid ra take_one)
    then show ?thesis by (auto intro!: go keeps_upd_rs [OF s] rs_wf_consume)
  next
    case (connect_new first username sa s1 replaced s2)
    then show ?thesis using conn_opens [OF assms(2)] by auto
  next
    case (connect_replace first username sa s1 old s2)
    then show ?thesis using conn_opens [OF assms(2)] by auto
  next
    case (send_outbound a frame q)
    have "keeps (e_srv e) (upd_sess a (\<lambda>x. x\<lparr>sess_outbound := q\<rparr>) (e_srv e))"
      using send_outbound(3) by (intro keeps_upd_sess [OF s]) (auto simp: sess_wf_def chan_recv_def chan_wf_def split: list.splits)
    then show ?thesis using send_outbound edge_typed_srv [OF assms(2)] by simp
  next
    case (heartbeat a t)
    then show ?thesis using edge_typed_srv [OF assms(2) keeps_push [OF s]] by simp
  qed (auto intro!: go keeps_counter [OF s] keeps_putWS [OF s] keeps_enter [OF s] keeps_remove [OF s]
      dest: keeps_send [OF s] keeps_cancel [OF s] keeps_sess_del [OF s] keeps_failAll [OF s] keeps_handle [OF s])
qed

lemma New_empty: "New U cfg = Inr s \<Longrightarrow> heap_sess s = [] \<and> heap_rs s = [] \<and> heap_ws s = [] \<and> srv_sessions s = []"
  by (auto simp: New_def Let_def split: option.splits sum.splits)

interpretation typed: invariant_system "edge_init U" "edge_step U" edge_typed for U
proof
  show "edge_typed e" if "edge_init U e" for e
    using that New_empty by (fastforce simp: edge_init_def edge_typed_def server_typed_def)
qed (rule edge_typed_step)

text \<open>
  C10: the state of the edge is well typed in every interleaving.  Every response state, every WebSocket
  state and every session is well formed: channels within their capacity, \<open>done\<close> closed exactly when the
  once has run, one entry for an id in each table and every entry an object that exists; the registry maps
  a host to an existing session of that host; and the goroutines hold no dangling pointer.
\<close>
theorem edge_well_typed:
  assumes "reachable (edge_init U) (edge_step U) e"
  shows "server_typed (e_srv e) \<and>
    (\<forall>i < length (e_handlers e). handler_typed (e_srv e) (e_handlers e ! i)) \<and>
    (\<forall>j < length (e_conns e). conn_typed (e_srv e) (e_conns e ! j))"
  using typed.reachable_inv [OF assms] by (simp add: edge_typed_def list_all_length)

theorem edge_well_typed_witness: "handler_typed (e_srv run5) (H_Serving 0 ''1'' 0) \<and> server_typed (e_srv run5)"
proof -
  have "e_handlers run5 ! 0 = H_Serving 0 ''1'' 0" "0 < length (e_handlers run5)" by code_simp+
  with edge_well_typed [OF run5_reachable] show ?thesis by metis
qed

end
