(* ===== verification/EdgeLimits.thy ===== *)
theory EdgeLimits
  imports ServerTypes ResponseWriter "HOL-Library.Sublist"
begin

text \<open>
  The limits that the edge sets for its gRPC server (\<open>newEdgeGRPCServer\<close> in \<open>cmd/edge/main.go\<close>) and what
  they mean for the responses of a handler: \<open>Write\<close> of \<open>tunnel/response_writer.go\<close> puts its whole argument
  into one frame.

  The size of a marshalled frame and \<open>Recv\<close> of the gRPC stream are parameters.
\<close>

subsection \<open>The options of the server\<close>

definition maxGRPCMessageBytes :: nat where "maxGRPCMessageBytes = 4 * 1024 * 1024"
definition grpcServerKeepaliveTime :: int where "grpcServerKeepaliveTime = 30 * 10 ^ 9"
definition grpcServerKeepaliveTimeout :: int where "grpcServerKeepaliveTimeout = 20 * 10 ^ 9"
definition grpcClientMinKeepaliveTime :: int where "grpcClientMinKeepaliveTime = 10 * 10 ^ 9"

record grpc_options =
  go_MaxRecvMsgSize :: nat
  go_MaxSendMsgSize :: nat
  go_Time :: int
  go_Timeout :: int
  go_MinTime :: int
  go_PermitWithoutStream :: bool

definition newEdgeGRPCServer :: grpc_options where
  "newEdgeGRPCServer =
     \<lparr>go_MaxRecvMsgSize = maxGRPCMessageBytes, go_MaxSendMsgSize = maxGRPCMessageBytes,
      go_Time = grpcServerKeepaliveTime, go_Timeout = grpcServerKeepaliveTimeout,
      go_MinTime = grpcClientMinKeepaliveTime, go_PermitWithoutStream = True\<rparr>"

subsection \<open>The receive loop of \<open>Connect\<close>\<close>

text \<open>The frames it handles of those that arrive, and the error that ends it.\<close>

fun recv_loop :: "(ClientFrame_Msg \<Rightarrow> go_error + ClientFrame_Msg) \<Rightarrow> ClientFrame_Msg list \<Rightarrow> ClientFrame_Msg list \<times> go_error option" where
  "recv_loop recv [] = ([], None)"
| "recv_loop recv (f # fs) =
     (case recv f of
        Inl err \<Rightarrow> ([], Some err)
      | Inr frame \<Rightarrow> map_prod (Cons frame) id (recv_loop recv fs))"

text \<open>The error with which \<open>Connect\<close> shuts its session down.\<close>

definition shutdown_error :: "go_error \<Rightarrow> go_error" where
  "shutdown_error err = (if err = ErrEOF then ErrSessionClosed else err)"

lemma recv_loop_passes: "\<forall>f \<in> set fs. recv f = Inr f \<Longrightarrow> recv_loop recv (fs @ gs) = map_prod ((@) fs) id (recv_loop recv gs)"
  by (induction fs) (auto simp: map_prod_def split: prod.splits)

lemma recv_loop_refused:
  assumes "\<And>f g. recv f = Inr g \<Longrightarrow> g = f" "f \<in> set fs" "recv f = Inl err"
  obtains hs err' where "recv_loop recv fs = (hs, Some err')" "prefix hs (takeWhile (\<lambda>g. g \<noteq> f) fs)"
  using assms(2)
proof (induction fs arbitrary: thesis)
  case (Cons g fs)
  show ?case
  proof (cases "recv g")
    case (Inl e)
    then show ?thesis by (intro Cons.prems(1) [of "[]" e]) simp_all
  next
    case (Inr g')
    then have g: "g' = g" "g \<noteq> f" using assms(1,3) by auto
    then obtain hs err' where "recv_loop recv fs = (hs, Some err')" "prefix hs (takeWhile (\<lambda>g. g \<noteq> f) fs)"
      using Cons.IH Cons.prems(2) by auto
    then show ?thesis using Cons.prems(1) [of "g # hs" err'] Inr g by simp
  qed
qed simp

subsection \<open>The end of a session\<close>

text \<open>The steps of a connection whose \<open>Recv\<close> has failed: every request of its session is over.\<close>

lemma session_closes:
  assumes "edge_typed e" "j < length (e_conns e)" "e_conns e ! j = C_Recv sa" "\<not> sess_once (heap_sess (e_srv e) ! sa)"
  obtains e' where "edge_step U e (set_conn j (C_Closing sa err) (e_srv e) e)"
    "(edge_step U)\<^sup>*\<^sup>* (set_conn j (C_Closing sa err) (e_srv e) e) e'" "e_conns e' ! j = C_Returned" "sess_done (heap_sess (e_srv e') ! sa)"
    "\<And>rid ra. sess_get sa rid (e_srv e) = Some ra \<Longrightarrow> rs_done (heap_rs (e_srv e') ! ra)"
proof -
  let ?s = "e_srv e"
  have sa: "sa < length (heap_sess ?s)" using typed_nth(2) [OF assms(1,2)] assms(3) by (simp add: conn_typed_def)
  have wf: "server_wf ?s" using assms(1) by (simp add: edge_typed_def typed_wf)
  obtain n s' where s': "shutdown sa (Some err) ?s = (n, s')" by fastforce
  have fa: "failAll sa (Some err) (shutdown_enter sa ?s) = (n, s')" using s' assms(4) by (simp add: shutdown_def)
  let ?h = "sess_publicHost (heap_sess (releaseGlobalSlots (int n) s') ! sa)"
  let ?s4 = "releaseGlobalSlots (int n) s'"
  let ?e1 = "set_conn j (C_Closing sa err) ?s e"
  let ?e2 = "set_conn j (C_CloseFailAll sa err) (shutdown_enter sa ?s) ?e1"
  let ?e3 = "set_conn j (C_CloseRelease sa n) s' ?e2"
  let ?e4 = "set_conn j (C_Remove sa) ?s4 ?e3"
  let ?e5 = "set_conn j C_Returned (removeSession ?h sa ?s4) ?e4"
  have st: "edge_step U e ?e1" "edge_step U ?e1 ?e2" "edge_step U ?e2 ?e3" "edge_step U ?e3 ?e4" "edge_step U ?e4 ?e5"
    using edge_step.recv_end [OF assms(2,3), of U err] edge_step.close_enter [of j ?e1 sa err U]
      edge_step.close_failAll [of j ?e2 sa err n s' U] edge_step.close_release [of j ?e3 sa n U]
      edge_step.close_remove [of j ?e4 sa U] assms(2,4) fa
    by (simp_all add: set_conn_def)
  have "(edge_step U)\<^sup>*\<^sup>* ?e1 ?e5" using st by (meson rtranclp.rtrancl_into_rtrancl rtranclp.rtrancl_refl)
  moreover have "e_conns ?e5 ! j = C_Returned" using assms(2) by (simp add: set_conn_def)
  moreover have "sess_done (heap_sess (e_srv ?e5) ! sa)"
    using shutdown_fresh(2) [OF assms(4) sa wf s'] sa by (simp add: set_conn_def removeSession_def)
  moreover have "rs_done (heap_rs (e_srv ?e5) ! ra)" if "sess_get sa rid ?s = Some ra" for rid ra
    using shutdown_fresh(5) [OF assms(4) sa wf s', of rid ra] that by (simp add: set_conn_def removeSession_def sess_get_def)
  ultimately show thesis using that st(1) by blast
qed

subsection \<open>Large and small writes\<close>

lemma response_log:
  assumes "log = serveRequest U F rid ops None []" "all_ok log"
  shows "map fst log = response_frames rid (meant_frame U rid [] ops) (meant_chunks ops)"
proof -
  obtain w ds where d: "log = ds @ [(response_end rid, F ds (response_end rid))]"
    "head_log (meant_frame U rid [] ops) rid (meant_chunks ops) ds w"
    using serveRequest_log [of U F rid ops "[]"] assms(1) by auto
  then have "w_sendErr w = None" using assms(2) by (simp add: head_log_def)
  with d show ?thesis by (auto simp: head_log_def response_frames_def)
qed

text \<open>A response whose frames are all within the limit is handled as it was sent.\<close>

lemma small_writes_pass:
  assumes "\<And>f. sz f \<le> go_MaxRecvMsgSize newEdgeGRPCServer \<Longrightarrow> recv f = Inr f"
    and "log = serveRequest U F rid ops None []" "all_ok log" "\<forall>f \<in> set (map fst log). sz f \<le> maxGRPCMessageBytes"
  shows "recv_loop recv (map fst log) = (response_frames rid (meant_frame U rid [] ops) (meant_chunks ops), None)"
proof -
  have "\<forall>f \<in> set (map fst log). recv f = Inr f" using assms(1,4) by (simp add: newEdgeGRPCServer_def)
  from recv_loop_passes [OF this, of "[]"] show ?thesis by (simp add: response_log [OF assms(2,3)])
qed

text \<open>
  C19: one large \<open>Write\<close> of a handler ends its tunnel.  The frame of a body chunk is at least as long as the
  chunk, and \<open>Recv\<close> refuses a message above the limit that \<open>newEdgeGRPCServer\<close> sets.  When a handler writes
  more than 4 MiB in one call, all sends of the client succeed, but the receive loop of the edge ends with an
  error before the response is complete, and the steps of the connection that follow close its session:
  every request in flight through the tunnel is over, also those of other handlers.
\<close>
theorem large_write_ends_tunnel:
  assumes "\<forall>f. go_MaxRecvMsgSize newEdgeGRPCServer < sz f \<longrightarrow> (\<exists>err. recv f = Inl err)" "\<forall>f g. recv f = Inr g \<longrightarrow> g = f"
    and "\<forall>m. length (ResponseBody_Chunk m) \<le> sz (ClientFrame_ResponseBody m)"
    and "log = serveRequest U F rid ops None []" "all_ok log" "p \<in> set (meant_chunks ops)" "maxGRPCMessageBytes < length p"
    and "reachable (edge_init V) (edge_step V) e" "j < length (e_conns e)" "e_conns e ! j = C_Recv sa"
    and "\<not> sess_once (heap_sess (e_srv e) ! sa)"
  shows "\<exists>handled err e'. recv_loop recv (map fst log) = (handled, Some err) \<and> response_end rid \<notin> set handled \<and>
    edge_step V e (set_conn j (C_Closing sa (shutdown_error err)) (e_srv e) e) \<and>
    (edge_step V)\<^sup>*\<^sup>* (set_conn j (C_Closing sa (shutdown_error err)) (e_srv e) e) e' \<and> e_conns e' ! j = C_Returned \<and>
    (\<forall>rid' ra. sess_get sa rid' (e_srv e) = Some ra \<longrightarrow> rs_done (heap_rs (e_srv e') ! ra))"
proof -
  let ?f = "response_body rid p"
  note l = response_log [OF assms(4,5)]
  have in_log: "?f \<in> set (map fst log)" using assms(6) by (simp add: l response_frames_def)
  have "go_MaxRecvMsgSize newEdgeGRPCServer < sz ?f"
    using assms(7) spec [OF assms(3), of "\<lparr>ResponseBody_RequestId = rid, ResponseBody_Chunk = p\<rparr>"]
    by (simp add: newEdgeGRPCServer_def response_body_def)
  then obtain e0 where refused: "recv ?f = Inl e0" using assms(1) by blast
  obtain handled err where h: "recv_loop recv (map fst log) = (handled, Some err)" "prefix handled (takeWhile (\<lambda>g. g \<noteq> ?f) (map fst log))"
    using recv_loop_refused [of recv ?f "map fst log" e0] assms(2) in_log refused by blast
  have "takeWhile (\<lambda>g. g \<noteq> ?f) (map fst log) = takeWhile (\<lambda>g. g \<noteq> ?f) (butlast (map fst log))"
    using assms(6) by (auto simp: l response_frames_def takeWhile_append1 intro!: takeWhile_append1)
  moreover have "response_end rid \<notin> set (butlast (map fst log))"
    by (auto simp: l response_frames_def response_end_def response_body_def)
  ultimately have "response_end rid \<notin> set handled"
    using h(2) by (metis set_mono_prefix set_takeWhileD subsetD)
  moreover obtain e' where "edge_step V e (set_conn j (C_Closing sa (shutdown_error err)) (e_srv e) e)"
    "(edge_step V)\<^sup>*\<^sup>* (set_conn j (C_Closing sa (shutdown_error err)) (e_srv e) e) e'" "e_conns e' ! j = C_Returned"
    "\<And>rid' ra. sess_get sa rid' (e_srv e) = Some ra \<Longrightarrow> rs_done (heap_rs (e_srv e') ! ra)"
    using session_closes [OF typed.reachable_inv [OF assms(8)] assms(9-11)] by metis
  ultimately show ?thesis using h(1) by blast
qed

definition demo_size :: "ClientFrame_Msg \<Rightarrow> nat" where
  "demo_size f = (case f of ClientFrame_ResponseBody m \<Rightarrow> length (ResponseBody_Chunk m) + length (ResponseBody_RequestId m) | _ \<Rightarrow> 0)"

definition demo_recv :: "ClientFrame_Msg \<Rightarrow> go_error + ClientFrame_Msg" where
  "demo_recv f = (if maxGRPCMessageBytes < demo_size f then Inl (ErrNew ''ResourceExhausted'') else Inr f)"

definition demo_large :: bytes where
  "demo_large = replicate (Suc maxGRPCMessageBytes) CHR ''x''"

theorem large_write_ends_tunnel_witness:
  "\<exists>handled err (e' :: edge). recv_loop demo_recv (map fst (serveRequest no_tables (\<lambda>l f. None) ''1'' [OpWrite demo_large] None [])) =
     (handled, Some err) \<and> e_conns e' ! 0 = C_Returned \<and> rs_done (heap_rs (e_srv e') ! 0)"
proof -
  let ?log = "serveRequest no_tables (\<lambda>l f. None) ''1'' [OpWrite demo_large] None []"
  have ok: "all_ok ?log"
    by (simp add: serveRequest_def do_ops_def Write_def WriteHeader_def Finish_def send_def newTunnelResponseWriter_def Let_def)
  have large: "demo_large \<in> set (meant_chunks [OpWrite demo_large])" "maxGRPCMessageBytes < length demo_large"
    by (simp_all add: demo_large_def)
  have edge: "0 < length (e_conns run5)" "e_conns run5 ! 0 = C_Recv 0" "\<not> sess_once (heap_sess (e_srv run5) ! 0)"
    and served: "sess_get 0 ''1'' (e_srv run5) = Some 0" by code_simp+
  have limit: "\<forall>f. go_MaxRecvMsgSize newEdgeGRPCServer < demo_size f \<longrightarrow> (\<exists>err. demo_recv f = Inl err)"
    by (simp add: demo_recv_def newEdgeGRPCServer_def)
  have whole: "\<forall>f g. demo_recv f = Inr g \<longrightarrow> g = f" by (simp add: demo_recv_def)
  have size: "\<forall>m. length (ResponseBody_Chunk m) \<le> demo_size (ClientFrame_ResponseBody m)" by (simp add: demo_size_def)
  from large_write_ends_tunnel [of demo_size demo_recv, OF limit whole size refl ok large run5_reachable edge] served
  show ?thesis by blast
qed

end
