(* ===== verification/PerfSummary.thy ===== *)
theory PerfSummary
  imports PerfLoad EdgeMain
begin

text \<open>
  What the load generator prints at the end of a run and the HTTP clients it runs with
  (\<open>cmd/perf-client/main.go\<close>).

  Two computations in floating point are parameters: \<open>R percent total\<close> is
  \<open>uint64(math.Ceil(percent / 100 * float64(total)))\<close>, and \<open>F total elapsed\<close> is the text of
  \<open>float64(total) / elapsed.Seconds()\<close> with two decimals.
\<close>

subsection \<open>Durations and rates\<close>

definition humanDuration :: "int \<Rightarrow> string" where
  "humanDuration v = (if v \<le> 0 then ''0s'' else duration_String (duration_Round v (10 ^ 3)))"

definition requestsPerSecond :: "(nat \<Rightarrow> int \<Rightarrow> string) \<Rightarrow> nat \<Rightarrow> int \<Rightarrow> string" where
  "requestsPerSecond F n t = (if t \<le> 0 then ''0.00'' else F n t)"

definition bytesPerSecond :: "(nat \<Rightarrow> int \<Rightarrow> string) \<Rightarrow> nat \<Rightarrow> int \<Rightarrow> string" where
  "bytesPerSecond F n t = (if t \<le> 0 then ''0.00'' else F n t)"

subsection \<open>The summary\<close>

definition latency_line :: "(int \<Rightarrow> nat \<Rightarrow> nat) \<Rightarrow> loadSummary \<Rightarrow> string" where
  "latency_line R s =
     (let h = ls_LatencyHistogram s; p = (\<lambda>percent. humanDuration (Percentile percent (R percent (lh_total h)) h)) in
      ''latency: min='' @ humanDuration (ls_MinLatency s) @ '' avg='' @ humanDuration (avgLatency s) @
      '' p50='' @ p 50 @ '' p95='' @ p 95 @ '' p99='' @ p 99 @ '' max='' @ humanDuration (ls_MaxLatency s))"

definition loadSummary_String :: "(int \<Rightarrow> nat \<Rightarrow> nat) \<Rightarrow> (nat \<Rightarrow> int \<Rightarrow> string) \<Rightarrow> loadSummary \<Rightarrow> string" where
  "loadSummary_String R F s =
     (let el = elapsed s; line = (\<lambda>l. l @ [CHR 0x0A]) in
      line ''performance test summary'' @
      line (''host: '' @ ls_PublicHost s) @
      line (''scenario: '' @ ls_Scenario s) @
      line (''connections: '' @ format_int (ls_Connections s)) @
      line (''duration: planned='' @ humanDuration (ls_PlannedDuration s) @ '' observed='' @ humanDuration el) @
      line (''requests: total='' @ format_uint (ls_TotalRequests s) @ '' success='' @ format_uint (ls_SuccessfulResponses s) @
        '' errors='' @ format_uint (ls_RequestErrors s)) @
      line (''throughput: req/s='' @ requestsPerSecond F (ls_TotalRequests s) el @
        '' bytes/s='' @ bytesPerSecond F (nat (ls_ResponseBytes s)) el) @
      (if ls_TotalRequests s > 0 then line (latency_line R s) else []) @
      (if map_len (ls_StatusCounts s) > 0 then line (''statuses: '' @ formatStatusCounts (ls_StatusCounts s)) else []))"

subsection \<open>HTTP clients\<close>

text \<open>The settings of a transport; \<open>Proxy\<close> and \<open>DialContext\<close> are functions of the library, kept by their names.\<close>

record http_Transport =
  ht_Proxy :: string
  ht_DialTimeout :: int
  ht_DialKeepAlive :: int
  ht_ForceAttemptHTTP2 :: bool
  ht_MaxIdleConns :: int
  ht_MaxIdleConnsPerHost :: int
  ht_MaxConnsPerHost :: int
  ht_IdleConnTimeout :: int
  ht_TLSHandshakeTimeout :: int
  ht_ResponseHeaderTimeout :: int
  ht_ExpectContinueTimeout :: int
  ht_TLSNextProto :: "string list option"

record http_Client =
  hc_Transport :: http_Transport
  hc_Timeout :: int

definition newHTTP11Transport :: "int \<Rightarrow> http_Transport" where
  "newHTTP11Transport requestTimeout =
     \<lparr>ht_Proxy = ''ProxyFromEnvironment'', ht_DialTimeout = requestTimeout, ht_DialKeepAlive = 30 * 10 ^ 9,
      ht_ForceAttemptHTTP2 = False, ht_MaxIdleConns = 1, ht_MaxIdleConnsPerHost = 1, ht_MaxConnsPerHost = 1,
      ht_IdleConnTimeout = 30 * 10 ^ 9, ht_TLSHandshakeTimeout = requestTimeout,
      ht_ResponseHeaderTimeout = requestTimeout, ht_ExpectContinueTimeout = 10 ^ 9, ht_TLSNextProto = Some []\<rparr>"

definition newPublicClient :: "int \<Rightarrow> http_Transport option \<Rightarrow> http_Client" where
  "newPublicClient requestTimeout transport =
     (let t = (case transport of
          None \<Rightarrow> newHTTP11Transport requestTimeout
        | Some t \<Rightarrow>
            t\<lparr>ht_ForceAttemptHTTP2 := False, ht_MaxIdleConns := 1, ht_MaxIdleConnsPerHost := 1, ht_MaxConnsPerHost := 1,
              ht_TLSNextProto := Some [],
              ht_ResponseHeaderTimeout := (if ht_ResponseHeaderTimeout t \<le> 0 then requestTimeout else ht_ResponseHeaderTimeout t),
              ht_TLSHandshakeTimeout := (if ht_TLSHandshakeTimeout t \<le> 0 then requestTimeout else ht_TLSHandshakeTimeout t),
              ht_IdleConnTimeout := (if ht_IdleConnTimeout t \<le> 0 then 30 * 10 ^ 9 else ht_IdleConnTimeout t)\<rparr>)
      in \<lparr>hc_Transport = t, hc_Timeout = requestTimeout\<rparr>)"

text \<open>
  Each worker has one connection, never HTTP/2, and no phase of its requests waits for ever, whether or not
  it was given a transport: the number of connections of a run is the number of its workers.
\<close>

lemma newPublicClient_bounded:
  assumes "0 < requestTimeout" "t = hc_Transport (newPublicClient requestTimeout transport)"
  shows "ht_MaxConnsPerHost t = 1 \<and> \<not> ht_ForceAttemptHTTP2 t \<and> ht_TLSNextProto t = Some [] \<and>
    0 < ht_ResponseHeaderTimeout t \<and> 0 < ht_TLSHandshakeTimeout t \<and> 0 < ht_IdleConnTimeout t"
  using assms by (auto simp: newPublicClient_def newHTTP11Transport_def Let_def split: option.splits)

subsection \<open>The printed durations\<close>

text \<open>On whole seconds \<open>Duration.String\<close> is the short form that the status page of the edge uses.\<close>

lemma fmt_frac_zero: "fmt_frac p (n * 10 ^ p) False acc = (acc, n)"
  by (induction p arbitrary: n) (simp_all add: Let_def mult.left_commute [of _ 10] mult.commute [of n])

lemma duration_String_seconds: "duration_String (int n * 10 ^ 9) = format_seconds n"
proof (cases "n = 0")
  case True
  then show ?thesis by (simp add: duration_String_def duration_abs_def format_seconds_def unit_letters(8))
next
  case False
  have u: "nat (int n * 10 ^ 9) = n * 10 ^ 9" by (simp add: nat_mult_distrib)
  have "fmt_frac 9 (n * 10 ^ 9) False ''s'' = (''s'', n)" by (rule fmt_frac_zero)
  moreover have "\<not> n * 10 ^ 9 < 10 ^ 9" using False by simp
  ultimately have "duration_abs (n * 10 ^ 9) = format_seconds n"
    unfolding duration_abs_def format_seconds_def by (simp add: Let_def div_mult2_eq [symmetric])
  then have "duration_abs (nat (int n * 10 ^ 9)) = format_seconds n" unfolding u .
  then show ?thesis by (simp add: duration_String_def)
qed

text \<open>
  C39: the durations in the summary are right.  A printed duration reads back as a duration that differs from
  the measured one by at most half a microsecond, for every positive 64-bit duration, in whichever of the
  units from nanoseconds to hours it is printed, and also where rounding up would leave the 64 bits.
\<close>
theorem humanDuration_reads:
  assumes "0 < v" "v < 2 ^ 63"
  shows "\<exists>n. read_duration (humanDuration v) = Some n \<and> \<bar>int n - v\<bar> \<le> 500"
proof -
  have r: "0 \<le> duration_Round v (10 ^ 3)" "2 * \<bar>duration_Round v (10 ^ 3) - v\<bar> \<le> 10 ^ 3"
    using duration_Round_near [of v "10 ^ 3"] assms by simp_all
  then show ?thesis using duration_String_reads [OF r(1)] assms(1)
    by (intro exI [of _ "nat (duration_Round v (10 ^ 3))"]) (simp add: humanDuration_def)
qed

theorem humanDuration_reads_witness: "\<exists>n. read_duration (humanDuration 3723000000499) = Some n \<and> \<bar>int n - 3723000000499\<bar> \<le> 500"
  by (rule humanDuration_reads) simp_all

end
