(* ===== verification/Spec2Isabelle.thy ===== *)
theory Spec2Isabelle
  imports Prelude Tunnelpb Hostnames Headers ServerState ServerSlots ServerServe ServerHandler
    ServerWebSocket ResponseWriter GoFlag EdgeConfig EdgeMain ClientLifecycle ClientSession
    ClientBodies ClientServe ClientChannels ClientWebSocket ServerRouting ServerPool PerfClient PerfLoad DemoClient EdgeTLS DebugLog
    ServerTypes EdgeLimits GoDuration PerfSummary GoMux
begin

text \<open>
  \<^bold>\<open>muxbridge\<close> is a reverse tunnel.  An edge (\<open>cmd/edge\<close>, \<open>server/\<close>) accepts HTTP requests for public hosts and
  forwards them over gRPC streams to clients (\<open>tunnel/\<close>) that registered for these hosts with a token.  A
  client serves the requests with a local handler and sends the answers back over the same stream.  Many
  requests share one stream: every frame carries the identifier of its request.

  \<^bold>\<open>The path of a request.\<close>  \<open>newHTTPSHandler\<close> chooses by host among tunnel service, status page and public
  handler.  \<open>ServeHTTP\<close> looks up the session of the host, reserves a slot, forwards the request as frames
  (\<open>forwardRequest\<close>), and relays the answer from the response state that the receive loop of \<open>Connect\<close> fills.
  The client's \<open>runSession\<close> turns the frames into a request with a pipe as its body, runs the handler in a
  goroutine, and its response writer turns the calls of the handler into frames.  A WebSocket upgrade takes
  the parallel path \<open>serveWebSocket\<close> and \<open>handleWebSocket\<close>.

  \<^bold>\<open>Theories and what they model\<close> (paths under \<open>src/\<close>):

  \<^item> \<open>Prelude\<close>: Go strings as bytes, \<open>strconv\<close>, \<open>net.SplitHostPort\<close>, maps and channels with the contracts
    \<open>map_contract\<close> and \<open>queue_contract\<close>, transition systems with the locales \<open>invariant_system\<close>,
    \<open>terminating_system\<close> and \<open>simulation\<close>, which the concurrent components interpret.
  \<^item> \<open>Tunnelpb\<close>: the message structs of \<open>gen/tunnelpb/tunnel.pb.go\<close>.
  \<^item> \<open>Hostnames\<close>: \<open>internal/hostnames/hostnames.go\<close>.  Validation is exact, normalisation is canonical,
    the hosts of distinct users are distinct.
  \<^item> \<open>Headers\<close>: \<open>internal/headers/headers.go\<close>.  No hop-by-hop header passes; the others survive the trip.
  \<^item> \<open>ServerState\<close>: data and operations of \<open>server/server.go\<close> under their locks: \<open>New\<close>, the registry of
    sessions, \<open>tryStart\<close> and \<open>finishRequest\<close>, \<open>failAll\<close>, \<open>shutdown\<close>, frame delivery, authentication.
  \<^item> \<open>ServerSlots\<close>: any number of handlers and connections as one step relation \<open>edge_step\<close>, whose steps are
    the atomic operations of the code.  The in-flight counters are exact and the limits hold.
  \<^item> \<open>ServerServe\<close>: \<open>forwardRequest\<close>, the relay loop of \<open>ServeHTTP\<close> and the receive loop of \<open>Connect\<close>.  A
    response arrives once and in order; under faults a prefix of it; the relay ends.
  \<^item> \<open>ServerHandler\<close>: \<open>ServeHTTP\<close> as a whole.  \<open>ServerWebSocket\<close>: \<open>serveWebSocket\<close> with its two loops.
  \<^item> \<open>ServerTypes\<close>: the well-formedness of the heap of the edge, operation by operation and in every reachable
    state.  \<open>EdgeLimits\<close>: the limits of the gRPC server and what they mean for large writes of a handler.
  \<^item> \<open>ServerPool\<close>: an abstract pool of slots (take, give back, clear) and the refinement of it by \<open>edge_step\<close>.
  \<^item> \<open>ServerRouting\<close>: authentication, registry and routing together: a request reaches its owner only.
  \<^item> \<open>ResponseWriter\<close>: \<open>tunnel/response_writer.go\<close> and \<open>serveRequest\<close>.
  \<^item> \<open>ClientLifecycle\<close>: \<open>New\<close>, \<open>Run\<close>, \<open>Close\<close> of \<open>tunnel/client.go\<close> in any interleaving.
  \<^item> \<open>ClientSession\<close>, \<open>ClientBodies\<close>, \<open>ClientServe\<close>: \<open>runSession\<close> with its receive loop, the goroutines of its
    requests, the body pipes (\<open>io.Pipe\<close>) and WebSocket channels, and its clean-up.  The first theory has the
    model and the channels, the second the bodies, the third the properties.
  \<^item> \<open>ClientChannels\<close>: the payloads that travel through the WebSocket channels of a session, and the
    well-formedness of its tables and channels.
  \<^item> \<open>ClientWebSocket\<close>: \<open>handleWebSocket\<close> with what it opens and defers, the one-connection listener, \<open>waitForConnReady\<close>.
  \<^item> \<open>GoFlag\<close>, \<open>EdgeConfig\<close>: package \<open>flag\<close> and \<open>cmd/edge/config.go\<close>.  A configuration that loads is one that
    the server accepts.
  \<^item> \<open>EdgeMain\<close>, \<open>EdgeTLS\<close>: \<open>cmd/edge/main.go\<close>: routing, status page, the life of \<open>run\<close>, certificates.
  \<^item> \<open>DebugLog\<close>: the debug lines of edge and client for frames, as an information-flow property.
  \<^item> \<open>PerfClient\<close>, \<open>PerfLoad\<close>: \<open>cmd/perf-client/main.go\<close>: configuration, scenarios, summary and histogram;
    the load run with its worker goroutines.  \<open>GoDuration\<close>, \<open>PerfSummary\<close>: \<open>Duration.String\<close> and \<open>Round\<close>, the
    printed summary, which reads back as the measured times, and the HTTP clients of the workers.
  \<^item> \<open>GoMux\<close>, \<open>DemoClient\<close>: \<open>http.ServeMux\<close> and \<open>cmd/demo-client/main.go\<close>: configuration, routing, handlers,
    server-sent events.
  \<^item> this theory: the properties that span edge and client.

  \<^bold>\<open>Correspondence.\<close>  A struct is a record whose fields have the names of the source with a prefix.  Pointers
  to sessions, response states, requests and channels are indices into lists, so that two goroutines that
  share an object share an index.  A function under one lock is one HOL function; a goroutine is a program
  counter and a step relation between its blocking or atomic operations; a \<open>select\<close> is one rule per case.  A
  Go map is an association list in the order of one iteration, and a property of a loop over a map is stated
  for every order.  Errors are values of sums and options; a panic is a flag or \<^term>\<open>None\<close> that is proved not
  to occur.  A send over gRPC that may fail is the function \<open>stream\<close>, from the frames sent so far and the next
  one to its error.

  \<^bold>\<open>Bounds.\<close>  No definition takes fuel.  Loops over input are recursive functions on that input; loops that
  wait are step relations, and where the code has to come to an end a measure bounds the number of steps
  (\<open>relay_terminates\<close>, \<open>run_ends_after_close\<close>, \<open>load_run_ends\<close>).  The request counter is a 64-bit word and the
  properties that need distinct identifiers assume fewer than $2^{64}$ requests.  Status codes and ping times
  keep their width.  Durations and counters of the load generator are unbounded.

  \<^bold>\<open>Not modelled.\<close>  TLS, gRPC, HTTP/2, the certificate manager and \<open>net/http\<close> are libraries; what the code
  observes of them is an argument or a step of the environment.  The generated reflection code of
  \<open>gen/tunnelpb\<close>, log lines other than those of frames, the wiring of the certificate manager
  (\<open>newManagedCertMagicConfig\<close>), the two HTML pages of the demonstration client, which are arguments, and the
  \<open>main\<close> functions of the two clients, which only call \<open>run\<close>, have no definitions.  Floating-point division and
  its printed form in the summary of the load generator are parameters.  The rest of the source that no
  definition models is imports, interfaces and comments.
  The Go memory model enters only through the atomicity of locked sections, atomics and
  channel operations.
\<close>

section \<open>Properties that span components\<close>

subsection \<open>A response, from the handler of the client to the browser\<close>

lemma status_roundtrip: "0 \<le> n \<Longrightarrow> n < 2 ^ 31 \<Longrightarrow> sint (word_of_int n :: 32 word) = n"
  by (transfer, rule signed_take_bit_int_eq_self) simp_all

text \<open>
  C2: the browser gets the response that the handler of the client meant.  When all sends of the client
  succeed and nothing fails at the edge, the edge has written, once it returns, exactly the status of the
  handler, the headers that are not hop-by-hop with their values, and the chunks that it wrote, each once
  and in order: client, wire and edge together do what a direct call of the handler would have done.
\<close>
theorem end_to_end_response:
  assumes "log = serveRequest U F rid ops None []" "all_ok log" "meant_start [] ops = (status, h)"
    and "0 \<le> status" "status < 2 ^ 31" "map_wf h"
    and "reachable (relay_init (map fst log)) (relay_step U) x" "\<not> rl_fault x" "rl_pc x = S_Returned"
  shows "rl_out x = W_Start (Copy [] (FromProto U (ToProto U h))) status #
       concat (map (\<lambda>c. if c = [] then [] else [W_Write c, W_Flush]) (meant_chunks ops)) \<and>
     map_get (FromProto U (ToProto U h)) =
       (\<lambda>k. if shouldStrip U k (connectionTokens U h) (hasUpgrade h) then None else map_get h k)"
proof -
  obtain w ds where d: "log = ds @ [(response_end rid, F ds (response_end rid))]"
    "head_log (meant_frame U rid [] ops) rid (meant_chunks ops) ds w"
    using serveRequest_log [of U F rid ops "[]"] assms(1) by auto
  then have "w_sendErr w = None" using assms(2) by (simp add: head_log_def)
  with d have "map fst log = response_frames rid (meant_frame U rid [] ops) (meant_chunks ops)"
    by (auto simp: head_log_def response_frames_def)
  with assms(7) have "relay_ok U rid (meant_frame U rid [] ops) (meant_chunks ops) x"
    using relay.reachable_inv by metis
  then have "rl_out x = written U (meant_frame U rid [] ops) (meant_chunks ops)"
    using assms(8,9) by (simp add: relay_ok_def)
  moreover have "write_headers U (meant_frame U rid [] ops) = W_Start (Copy [] (FromProto U (ToProto U h))) status"
    using assms(3-5) status_roundtrip by (simp add: meant_frame_def start_frame_def write_headers_def)
  moreover have "map_get (FromProto U (ToProto U h)) k =
      (if shouldStrip U k (connectionTokens U h) (hasUpgrade h) then None else map_get h k)" for k
    by (rule FromProto_ToProto_get [OF assms(6) refl])
  ultimately show ?thesis by (auto simp: written_def)
qed

theorem end_to_end_response_witness:
  "\<exists>x :: relay. rl_pc x = S_Returned \<and> rl_out x =
     [W_Start [(''X-Demo'', [''1''])] 201, W_Write ''ab'', W_Flush, W_Write ''c'', W_Flush]"
proof -
  let ?log = "serveRequest no_tables (\<lambda>l f. None) ''7'' demo_ops None []"
  have ok: "all_ok ?log" by code_simp
  have m: "meant_start [] demo_ops = (201, [(''X-Demo'', [''1''])])" "meant_chunks demo_ops = [''ab'', ''c'']"
    by (simp_all add: demo_ops_def)
  have frames: "map fst ?log = response_frames ''7'' (meant_frame no_tables ''7'' [] demo_ops) (meant_chunks demo_ops)"
    by code_simp
  obtain n y where y: "(relay_calm no_tables ^^ n) (relay_start (map fst ?log)) y" "relay_final y"
    using relay_run_exists relay_init_start frames by metis
  then have run: "(relay_calm no_tables)\<^sup>*\<^sup>* (relay_start (map fst ?log)) y" by (blast dest: relpowp_imp_rtranclp)
  then have r: "reachable (relay_init (map fst ?log)) (relay_step no_tables) y"
    by (blast intro: relay_calm_reachable reach_init relay_init_start)
  have "\<not> rl_fault y"
    using calm.steps_inv [OF run] calm.inv_init relay_init_start frames by metis
  moreover have "rl_pc y = S_Returned" using y(2) by (simp add: relay_final_def)
  moreover have "map_wf [(''X-Demo'', [''1''])]" by (simp add: map_wf_def)
  ultimately have "rl_out y = W_Start (Copy [] (FromProto no_tables (ToProto no_tables [(''X-Demo'', [''1''])]))) 201 #
       concat (map (\<lambda>c. if c = [] then [] else [W_Write c, W_Flush]) (meant_chunks demo_ops))"
    using end_to_end_response [OF refl ok m(1) _ _ _ r] by simp
  moreover have "Copy [] (FromProto no_tables (ToProto no_tables [(''X-Demo'', [''1''])])) = [(''X-Demo'', [''1''])]"
    by code_simp
  ultimately show ?thesis using m(2) \<open>rl_pc y = S_Returned\<close> by (intro exI [of _ y]) simp
qed

subsection \<open>A request, from the browser to the handler of the client\<close>

lemma unhex_upper_hex: "n < 16 \<Longrightarrow> unhex (upper_hex n) = Some n"
proof -
  have "\<forall>n \<in> set [0..<16]. unhex (upper_hex n) = Some n" by code_simp
  then show "n < 16 \<Longrightarrow> unhex (upper_hex n) = Some n" by simp
qed

lemma path_unescape_escape:
  assumes "\<not> keep CHR ''%''"
  shows "path_unescape (url_escape keep s) = Some s"
proof (induction s)
  case (Cons c s)
  have e: "url_escape keep (c # s) =
      (if keep c then [c] else [CHR ''%'', upper_hex (byte_val c div 16), upper_hex (byte_val c mod 16)]) @ url_escape keep s"
    by (simp add: url_escape_def)
  have b: "byte_val c div 16 < 16" using byte_val_bound [of c] by simp
  have "char_of (16 * (byte_val c div 16) + byte_val c mod 16) = c" by (simp add: byte_val_def)
  then show ?case using Cons.IH assms b by (cases "keep c") (auto simp: e unhex_upper_hex)
qed (simp add: url_escape_def)

lemma EscapedPath_decodes: "path_unescape (EscapedPath path rawPath) = Some path"
proof -
  have "\<not> keep_in_path CHR ''%''" "path_unescape ''*'' = Some ''*''" by code_simp+
  then show ?thesis by (simp add: EscapedPath_def path_unescape_escape)
qed

lemma EscapedPath_rooted:
  assumes "rawPath = [] \<or> hd rawPath = CHR ''/''"
  shows "\<exists>e. EscapedPath (CHR ''/'' # p) rawPath = CHR ''/'' # e"
proof (cases "EscapedPath (CHR ''/'' # p) rawPath = rawPath")
  case True
  then show ?thesis using assms EscapedPath_decodes [of "CHR ''/'' # p" rawPath] by (cases rawPath) auto
next
  case False
  have "keep_in_path CHR ''/''" by code_simp
  then show ?thesis using False by (auto simp: EscapedPath_def url_escape_def split: if_splits)
qed

text \<open>
  C27: the handler of the client gets the request of the browser.  The method, host and remote address
  are the same; the headers are those of the browser but for the hop-by-hop ones; the URL is built from
  the scheme, the host and the query of the browser, and its escaped path decodes to the path the browser
  asked for and keeps the browser's own spelling when that is a valid one.
\<close>
theorem request_roundtrip:
  assumes "request_start U r rid = ServerFrame_RequestStart st" "q = new_request U st"
    and "r_Path r = CHR ''/'' # p" "r_RawPath r = [] \<or> hd (r_RawPath r) = CHR ''/''" "r_Host r \<noteq> []"
  shows "q_Method q = r_Method r \<and> q_Host q = r_Host r \<and> q_RemoteAddr q = r_RemoteAddr r \<and>
    q_Header q = FromProto U (ToProto U (r_Header r)) \<and>
    (\<exists>e. q_URL q = schemeOf r @ ''://'' @ url_escape keep_in_host (r_Host r) @ e @
           (if r_RawQuery r = [] then [] else ''?'' @ r_RawQuery r) \<and>
         path_unescape e = Some (r_Path r) \<and>
         (valid_encoded (r_RawPath r) \<and> path_unescape (r_RawPath r) = Some (r_Path r) \<longrightarrow> e = r_RawPath r))"
proof -
  obtain e where e: "EscapedPath (r_Path r) (r_RawPath r) = CHR ''/'' # e"
    using EscapedPath_rooted [OF assms(4)] assms(3) by metis
  have raw: "r_RawPath r \<noteq> []" if "path_unescape (r_RawPath r) = Some (r_Path r)" using that assms(3) by auto
  have "schemeOf r \<noteq> []" by (simp add: schemeOf_def)
  then have "requestURL st = schemeOf r @ ''://'' @ url_escape keep_in_host (r_Host r) @ (CHR ''/'' # e) @
      (if r_RawQuery r = [] then [] else ''?'' @ r_RawQuery r)"
    using assms(1,3,5) e by (auto simp: request_start_def requestURL_def url_String_def Let_def)
  moreover have "path_unescape (CHR ''/'' # e) = Some (r_Path r)" using e EscapedPath_decodes by metis
  moreover have "CHR ''/'' # e = r_RawPath r"
    if "valid_encoded (r_RawPath r)" "path_unescape (r_RawPath r) = Some (r_Path r)"
    using e that raw by (simp add: EscapedPath_def)
  ultimately show ?thesis using assms(1,2)
    by (intro conjI exI [of _ "CHR ''/'' # e"]) (auto simp: request_start_def new_request_def)
qed

definition demo_url_request :: http_request where
  "demo_url_request = demo_request\<lparr>r_Path := ''/a b'', r_RawQuery := ''x=1''\<rparr>"

theorem request_roundtrip_witness:
  "\<exists>e. path_unescape e = Some ''/a b'' \<and>
     requestURL \<lparr>RequestStart_RequestId = ''1'', RequestStart_Method = ''POST'', RequestStart_Scheme = ''https'',
       RequestStart_Host = ''demo.example.com'', RequestStart_Path = ''/a b'', RequestStart_RawQuery = ''x=1'',
       RequestStart_Headers = [], RequestStart_RemoteAddr = ''192.0.2.1:5000'', RequestStart_RawPath = []\<rparr> =
     ''https://'' @ url_escape keep_in_host ''demo.example.com'' @ e @ ''?x=1''"
  (is "\<exists>e. _ \<and> requestURL ?st = _")
proof -
  have "request_start no_tables demo_url_request ''1'' = ServerFrame_RequestStart ?st"
    by (simp add: request_start_def demo_url_request_def demo_request_def schemeOf_def ToProto_def)
  from request_roundtrip [OF this refl, of "''a b''"] show ?thesis
    by (auto simp: demo_url_request_def demo_request_def schemeOf_def new_request_def)
qed

text \<open>The frames of one request among all that a client received.\<close>

fun server_frame_request :: "ServerFrame \<Rightarrow> string option" where
  "server_frame_request (Some (ServerFrame_RequestStart m)) = Some (RequestStart_RequestId m)"
| "server_frame_request (Some (ServerFrame_RequestBody m)) = Some (RequestBody_RequestId m)"
| "server_frame_request (Some (ServerFrame_RequestEnd m)) = Some (RequestEnd_RequestId m)"
| "server_frame_request (Some (ServerFrame_CancelRequest m)) = Some (CancelRequest_RequestId m)"
| "server_frame_request (Some (ServerFrame_WsData m)) = Some (WebSocketData_RequestId m)"
| "server_frame_request (Some (ServerFrame_WsClose m)) = Some (WebSocketClose_RequestId m)"
| "server_frame_request _ = None"

definition frames_for :: "string \<Rightarrow> ServerFrame list \<Rightarrow> ServerFrame list" where
  "frames_for rid fs = filter (\<lambda>f. server_frame_request f = Some rid) fs"

lemma body_feed_other: "server_frame_request f \<noteq> Some rid \<Longrightarrow> body_feed rid f x = x"
  by (cases f rule: server_frame_request.cases) auto

lemma feed_frames_for: "fold (body_feed rid) (frames_for rid fs) x = fold (body_feed rid) fs x"
  by (induction fs arbitrary: x) (auto simp: frames_for_def body_feed_other)

lemma feed_chunks:
  "fold (body_feed rid) (map (Some \<circ> request_body rid) cs) (xs, None) = (xs @ cs, None)"
  by (induction cs arbitrary: xs) (auto simp: request_body_def)

text \<open>What a client that has received a part of the frames of a forwarded request makes of its body.\<close>

lemma feed_plan:
  assumes "request_start U r rid # map (request_body rid) cs @ [request_end rid] = fs @ zs" "fs \<noteq> []"
    and "request_feed rid (map Some fs) = (ds, e)"
  shows "prefix ds cs \<and> (e = Some ErrEOF \<longrightarrow> ds = cs)"
proof -
  from assms(1,2) obtain gs where fs: "fs = request_start U r rid # gs"
    and g: "map (request_body rid) cs @ [request_end rid] = gs @ zs" by (cases fs) auto
  have s: "request_feed rid (map Some fs) = fold (body_feed rid) (map Some gs) ([], None)"
    by (simp add: fs request_feed_def request_start_def)
  have "gs = map (request_body rid) cs @ [request_end rid] \<or> gs = map (request_body rid) (take (length gs) cs)"
  proof (cases zs rule: rev_cases)
    case (snoc zs' z)
    then have "map (request_body rid) cs = gs @ zs'" using g by simp
    then have "take (length gs) (map (request_body rid) cs) = gs" by simp
    then show ?thesis by (simp add: take_map)
  qed (use g in simp)
  then consider (all) "gs = map (request_body rid) cs @ [request_end rid]"
    | (part) n where "gs = map (request_body rid) (take n cs)" by blast
  then show ?thesis
  proof cases
    case all
    then show ?thesis using assms(3) s feed_chunks [of rid cs "[]"]
      by (auto simp: request_end_def comp_def)
  next
    case (part n)
    then show ?thesis using assms(3) s feed_chunks [of rid "take n cs" "[]"]
      by (auto simp: comp_def take_is_prefix)
  qed
qed


definition demo_post :: http_request where
  "demo_post = demo_request\<lparr>r_RemoteAddr := ''192.0.2.1:80''\<rparr>"


subsection \<open>A WebSocket, from the browser to the handler and back\<close>

lemma ws_payload_other: "server_frame_request f \<noteq> Some rid \<Longrightarrow> ws_payload_of rid f = [] \<and> start_id f \<noteq> [rid]"
  by (cases f rule: server_frame_request.cases) auto

lemma concat_frames_for: "concat (map (ws_payload_of rid) (frames_for rid fs)) = concat (map (ws_payload_of rid) fs)"
  by (induction fs) (auto simp: frames_for_def ws_payload_other)

lemma dropWhile_frames_for:
  "dropWhile (\<lambda>f. start_id f \<noteq> [rid]) (frames_for rid fs) = frames_for rid (dropWhile (\<lambda>f. start_id f \<noteq> [rid]) fs)"
proof (induction fs)
  case (Cons f fs)
  show ?case
  proof (cases "start_id f = [rid]")
    case True
    then have "server_frame_request f = Some rid" by (cases f rule: start_id.cases) auto
    with True show ?thesis by (simp add: frames_for_def)
  next
    case False
    then show ?thesis using Cons.IH by (simp add: frames_for_def)
  qed
qed (simp add: frames_for_def)

lemma ws_payloads_frames_for: "ws_payloads rid (frames_for rid fs) = ws_payloads rid fs"
  by (simp add: ws_payloads_def dropWhile_frames_for concat_frames_for)

definition frame_payloads :: "string \<Rightarrow> ServerFrame_Msg list \<Rightarrow> bytes list" where
  "frame_payloads rid gs = concat (map (ws_payload_of rid \<circ> Some) gs)"

lemma frame_payloads_plan: "frame_payloads rid (map (ws_data rid) cs @ [ws_close_frame rid]) = cs"
  by (induction cs) (auto simp: frame_payloads_def ws_data_def ws_close_frame_def)

lemma frame_payloads_prefix: "prefix gs hs \<Longrightarrow> prefix (frame_payloads rid gs) (frame_payloads rid hs)"
  by (auto simp: frame_payloads_def prefix_def)

lemma ws_payloads_started:
  "frames_for rid fs = map Some (request_start U r rid # gs) \<Longrightarrow> ws_payloads rid fs = frame_payloads rid gs"
  by (subst ws_payloads_frames_for [symmetric])
    (simp add: ws_payloads_def frame_payloads_def request_start_def comp_def)

text \<open>What the reading goroutine of the edge has sent, seen as payloads.\<close>

lemma reader_payloads:
  assumes "ws_read_run rid sa (R_Buffered buf reads) fs pc" "prefix gs fs"
  shows "prefix (frame_payloads rid gs) ((if buf = [] then [] else [buf]) @ body_chunks reads) \<or>
    prefix (frame_payloads rid gs) (body_chunks reads)"
proof -
  let ?plan = "map (ws_data rid) (body_chunks reads) @ [ws_close_frame rid]"
  have head: "frame_payloads rid ((if buf = [] then [] else [ws_data rid buf]) @ ?plan) =
      (if buf = [] then [] else [buf]) @ body_chunks reads"
    using frame_payloads_plan [of rid "body_chunks reads"] by (simp add: frame_payloads_def) (simp add: ws_data_def)
  from ws_reader_frames [OF assms(1) refl]
  have "prefix fs ((if buf = [] then [] else [ws_data rid buf]) @ ?plan) \<or> prefix fs ?plan" by (auto simp: prefix_def)
  then have "prefix gs ((if buf = [] then [] else [ws_data rid buf]) @ ?plan) \<or> prefix gs ?plan"
    using assms(2) prefix_order.trans by blast
  then show ?thesis using frame_payloads_prefix head frame_payloads_plan by metis
qed


lemma demo_reader_run: "ws_read_run ''1'' 0 (R_Buffered ''x'' [(''x'', None)])
  ([ws_data ''1'' ''x''] @ [] @ [ws_data ''1'' ''x''] @ []) (R_Read [])"
  by (rule read_next [where s = demo_session], simp, rule demo_ws_send,
      rule read_next [where s = demo_session], simp,
      rule read_next [where s = demo_session], simp, simp only: after_ws_read_def simp_thms if_False, rule demo_ws_send, rule read_refl)

definition demo_ws_get :: http_request where
  "demo_ws_get = demo_post\<lparr>r_Header := [(''Upgrade'', [''websocket''])]\<rparr>"


text \<open>An edge that has received a part of the frames is one that still has to receive the others.\<close>

lemma wsrelay_step_more:
  assumes "wsrelay_step x y"
  shows "wsrelay_step (x\<lparr>wl_todo := wl_todo x @ zs\<rparr>) (y\<lparr>wl_todo := wl_todo y @ zs\<rparr>)"
proof (cases x)
  case (fields ws op out todo recv reg fault)
  note steps = wsrelay_step.intros [of "x\<lparr>wl_todo := wl_todo x @ zs\<rparr>", unfolded fields wsrelay.simps]
  from assms show ?thesis by cases (use steps in \<open>simp_all add: fields\<close>)
qed

lemma wsrelay_more:
  "reachable (wsrelay_init fs) wsrelay_step x \<Longrightarrow> reachable (wsrelay_init (fs @ zs)) wsrelay_step (x\<lparr>wl_todo := wl_todo x @ zs\<rparr>)"
proof (induction rule: reachable.induct)
  case (reach_init x)
  then show ?case by (intro reachable.reach_init) (simp add: wsrelay_init_def wsrelay_start_def)
next
  case (reach_step x y)
  show ?case by (rule reachable.reach_step [OF reach_step.IH wsrelay_step_more [OF reach_step.hyps(2)]])
qed

text \<open>
  C5: what the handler of the client sends over a WebSocket reaches the browser in order.  Let the edge
  have received a part of the frames that the forwarding goroutine of \<open>handleWebSocket\<close> sent, in any
  interleaving of the receive loop and the writing loop of the edge and under any fault.  Then what was
  written to the browser is a prefix of what the handler wrote, without gaps or repetitions.
\<close>
theorem end_to_end_ws_out:
  assumes "ws_forward F rid reads l = (ended, l @ ds)" "prefix fs (map fst ds)"
    and "reachable (wsrelay_init fs) wsrelay_step x"
  shows "prefix (wl_out x) (body_chunks reads)"
proof -
  have same: "client_ws_data rid = client_data rid" "client_ws_close rid = client_close rid"
    by (simp_all add: fun_eq_iff client_ws_data_def client_data_def client_ws_close_def client_close_def)
  have "prefix (map fst ds) (ws_frames rid (body_chunks reads))"
    using ws_forward_log [of F rid reads l] assms(1) by (auto simp: ws_frames_def same)
  then obtain zs where "ws_frames rid (body_chunks reads) = fs @ zs"
    using assms(2) prefix_order.trans by (metis prefixE)
  then have "reachable (wsrelay_init (ws_frames rid (body_chunks reads))) wsrelay_step (x\<lparr>wl_todo := wl_todo x @ zs\<rparr>)"
    using wsrelay_more [OF assms(3), of zs] by simp
  then have "wsrelay_ok rid (body_chunks reads) (x\<lparr>wl_todo := wl_todo x @ zs\<rparr>)" by (rule wsrelay.reachable_inv)
  then show ?thesis by (auto simp: wsrelay_ok_def prefix_def)
qed

lemma demo_written: "\<exists>x. reachable (wsrelay_init (ws_frames ''9'' demo_payloads)) wsrelay_step x \<and> wl_out x = [''x'']"
proof -
  note p = demo_payloads_def wsrelay_start_def newWsState_def wsInboundQueueDepth_def client_data_def
  let ?y = "(wsrelay_start (ws_frames ''9'' demo_payloads))\<lparr>wl_todo := [client_data ''9'' ''y'', client_close ''9''],
        wl_recv := Some (client_data ''9'' ''x'')\<rparr>"
  let ?w = "newWsState\<lparr>ws_fromClient := chan_send ''x'' (ws_fromClient newWsState)\<rparr>"
  let ?z = "?y\<lparr>wl_ws := ?w, wl_recv := None\<rparr>"
  let ?u = "?z\<lparr>wl_ws := (wl_ws ?z)\<lparr>ws_fromClient := ws_fromClient newWsState\<rparr>, wl_out := wl_out ?z @ [''x'']\<rparr>"
  have "?w \<in> set (deliver_frame (client_data ''9'' ''x'') (wl_ws ?y))"
    by (simp add: p deliver_ws_def chan_send_ready_def chan_make_def)
  then have "wsrelay_step ?y ?z" by (intro ws_receive [of ?y]) simp_all
  with demo_blocked have z: "reachable (wsrelay_init (ws_frames ''9'' demo_payloads)) wsrelay_step ?z" by (rule reach_step)
  have "chan_recv (ws_fromClient (wl_ws ?z)) = Some (''x'', ws_fromClient newWsState)"
    by (simp add: p chan_send_def chan_recv_def chan_make_def)
  then have "wsrelay_step ?z ?u" by (intro ws_write [of ?z]) (simp_all add: p)
  with z have "reachable (wsrelay_init (ws_frames ''9'' demo_payloads)) wsrelay_step ?u" by (rule reach_step)
  moreover have "wl_out ?u = [''x'']" by (simp add: p)
  ultimately show ?thesis by blast
qed

theorem end_to_end_ws_out_witness:
  "\<exists>x. reachable (wsrelay_init (ws_frames ''9'' demo_payloads)) wsrelay_step x \<and> wl_out x = [''x''] \<and>
     prefix (wl_out x) (body_chunks [(''x'', None), (''y'', Some ErrEOF)])"
proof -
  let ?ds = "map (\<lambda>f. (f, None)) (ws_frames ''9'' demo_payloads)"
  obtain x where x: "reachable (wsrelay_init (ws_frames ''9'' demo_payloads)) wsrelay_step x" "wl_out x = [''x'']"
    using demo_written by blast
  have "ws_forward ok_stream ''9'' [(''x'', None), (''y'', Some ErrEOF)] [] = (True, [] @ ?ds)" by code_simp
  from end_to_end_ws_out [OF this _ x(1)] x show ?thesis by (auto simp: comp_def)
qed

subsection \<open>Who decides that a request is a WebSocket\<close>

text \<open>
  Edge and client look at different values of the \<open>Upgrade\<close> header: the edge at the first one only, the
  client at all of them.  A request with two of them is forwarded by the edge as a plain request and
  served by the client as a WebSocket.
\<close>

definition demo_two_upgrades :: http_request where
  "demo_two_upgrades = demo_request\<lparr>r_Method := ''GET'',
     r_Header := [(''Connection'', [''Upgrade'']), (''Upgrade'', [''h2c'', ''websocket''])]\<rparr>"

lemma upgrade_disagreement:
  "\<exists>st. ServeHTTP_route no_tables demo_two_upgrades (e_srv run1) = RouteForward 0 \<and>
     request_start no_tables demo_two_upgrades ''1'' = ServerFrame_RequestStart st \<and> isWebSocketUpgrade no_tables st"
proof -
  obtain st where st: "request_start no_tables demo_two_upgrades ''1'' = ServerFrame_RequestStart st"
    by (simp add: request_start_def)
  have "case request_start no_tables demo_two_upgrades ''1'' of ServerFrame_RequestStart st \<Rightarrow> isWebSocketUpgrade no_tables st | _ \<Rightarrow> False"
    "ServeHTTP_route no_tables demo_two_upgrades (e_srv run1) = RouteForward 0" by code_simp+
  with st show ?thesis by simp
qed

end
